theory Spec2Isabelle
  imports Complex_Main "HOL-Library.Log_Nat" "HOL-Library.Multiset"
begin

section \<open>Python values used by arbing.py\<close>

text \<open>
  The exceptions that the modelled part of \<^verbatim>\<open>arbing.py\<close> can raise. Every raise of
  the source is a branch of the model returning \<open>Inl\<close>.
\<close>

datatype py_error = KeyError | IndexError | ZeroDivisionError | OverflowError | ValueError

text \<open>
  A Python \<^verbatim>\<open>float\<close> is an IEEE 754 binary64 value: a finite number (kept as the
  rational it denotes), an infinity or a NaN. The sign of a zero is not kept: no
  operation used by \<^verbatim>\<open>arbing.py\<close> tells \<^verbatim>\<open>-0.0\<close> from \<^verbatim>\<open>0.0\<close> (division by
  either raises, comparisons treat them as equal, \<^verbatim>\<open>int\<close> maps both to 0).
\<close>

datatype pyfloat = Fin rat | PInf | NInf | NaN

subsection \<open>Rounding to binary64\<close>

definition ilog2 :: "rat \<Rightarrow> int" where
  \<comment> \<open>\<open>\<lfloor>log\<^sub>2 x\<rfloor>\<close> for positive \<open>x\<close>, from the bit lengths of numerator and denominator.\<close>
  "ilog2 x =
     (let d = bitlen (fst (quotient_of x)) - bitlen (snd (quotient_of x))
      in if 2 powi d \<le> x then d else d - 1)"

definition round_half_even :: "rat \<Rightarrow> int" where
  "round_half_even x =
     (let f = \<lfloor>x\<rfloor>; r = x - of_int f
      in if r < 1 / 2 then f
         else if 1 / 2 < r then f + 1
         else if even f then f else f + 1)"

definition round_double :: "rat \<Rightarrow> pyfloat" where
  \<comment> \<open>Round to nearest, ties to even, 53 significant bits, exponents from -1022 to
      1023, gradual underflow, overflow to an infinity.\<close>
  "round_double x =
     (if x = 0 then Fin 0
      else
        let e = max (ilog2 \<bar>x\<bar>) (- 1022);
            ulp = 2 powi (e - 52);
            r = of_int (round_half_even (\<bar>x\<bar> / ulp)) * ulp
        in if 2 powi 1024 \<le> r then (if 0 < x then PInf else NInf)
           else Fin (sgn x * r))"

definition unit_roundoff :: rat where
  \<comment> \<open>The relative error bound of one rounding in the normal range.\<close>
  "unit_roundoff = 1 / 2 ^ 53"

definition rdv :: "rat \<Rightarrow> rat" where
  \<comment> \<open>The number that \<open>x\<close> rounds to, when it rounds to a finite float.\<close>
  "rdv x = (case round_double x of Fin r \<Rightarrow> r | _ \<Rightarrow> 0)"

subsection \<open>Arithmetic and comparison on floats\<close>

fun py_add :: "pyfloat \<Rightarrow> pyfloat \<Rightarrow> pyfloat" where
  "py_add (Fin x) (Fin y) = round_double (x + y)"
| "py_add NaN _ = NaN"
| "py_add _ NaN = NaN"
| "py_add PInf NInf = NaN"
| "py_add NInf PInf = NaN"
| "py_add PInf _ = PInf"
| "py_add NInf _ = NInf"
| "py_add _ PInf = PInf"
| "py_add _ NInf = NInf"

fun py_neg :: "pyfloat \<Rightarrow> pyfloat" where
  "py_neg (Fin x) = Fin (- x)"
| "py_neg PInf = NInf"
| "py_neg NInf = PInf"
| "py_neg NaN = NaN"

definition py_sub :: "pyfloat \<Rightarrow> pyfloat \<Rightarrow> pyfloat" where
  "py_sub a b = py_add a (py_neg b)"

fun py_mul :: "pyfloat \<Rightarrow> pyfloat \<Rightarrow> pyfloat" where
  "py_mul (Fin x) (Fin y) = round_double (x * y)"
| "py_mul NaN _ = NaN"
| "py_mul _ NaN = NaN"
| "py_mul (Fin x) PInf = (if x = 0 then NaN else if 0 < x then PInf else NInf)"
| "py_mul (Fin x) NInf = (if x = 0 then NaN else if 0 < x then NInf else PInf)"
| "py_mul PInf (Fin y) = (if y = 0 then NaN else if 0 < y then PInf else NInf)"
| "py_mul NInf (Fin y) = (if y = 0 then NaN else if 0 < y then NInf else PInf)"
| "py_mul PInf PInf = PInf"
| "py_mul NInf NInf = PInf"
| "py_mul PInf NInf = NInf"
| "py_mul NInf PInf = NInf"

fun py_truediv :: "pyfloat \<Rightarrow> pyfloat \<Rightarrow> py_error + pyfloat" where
  \<comment> \<open>\<^verbatim>\<open>a / b\<close> on floats: a zero divisor raises whatever the dividend is.\<close>
  "py_truediv a (Fin y) =
     (if y = 0 then Inl ZeroDivisionError
      else case a of
             Fin x \<Rightarrow> Inr (round_double (x / y))
           | PInf \<Rightarrow> Inr (if 0 < y then PInf else NInf)
           | NInf \<Rightarrow> Inr (if 0 < y then NInf else PInf)
           | NaN \<Rightarrow> Inr NaN)"
| "py_truediv (Fin x) PInf = Inr (Fin 0)"
| "py_truediv (Fin x) NInf = Inr (Fin 0)"
| "py_truediv _ _ = Inr NaN"

fun py_lt :: "pyfloat \<Rightarrow> pyfloat \<Rightarrow> bool" where
  \<comment> \<open>\<^verbatim>\<open>a < b\<close>; every comparison with a NaN is false.\<close>
  "py_lt (Fin x) (Fin y) = (x < y)"
| "py_lt NaN _ = False"
| "py_lt _ NaN = False"
| "py_lt _ NInf = False"
| "py_lt PInf _ = False"
| "py_lt NInf _ = True"
| "py_lt _ PInf = True"

definition py_gt :: "pyfloat \<Rightarrow> pyfloat \<Rightarrow> bool" where
  "py_gt a b = py_lt b a"

definition float_of_int :: "int \<Rightarrow> py_error + pyfloat" where
  \<comment> \<open>The conversion Python applies to an \<^verbatim>\<open>int\<close> operand of a float operation:
      correctly rounded, \<^verbatim>\<open>OverflowError\<close> when the integer is too large.\<close>
  "float_of_int n =
     (case round_double (of_int n) of
        Fin r \<Rightarrow> Inr (Fin r)
      | _ \<Rightarrow> Inl OverflowError)"

definition py_nonneg :: "pyfloat \<Rightarrow> bool" where
  \<comment> \<open>A float that is not negative and not a NaN.\<close>
  "py_nonneg a = (case a of Fin x \<Rightarrow> 0 \<le> x | PInf \<Rightarrow> True | _ \<Rightarrow> False)"

fun py_int :: "pyfloat \<Rightarrow> py_error + int" where
  \<comment> \<open>\<^verbatim>\<open>int(x)\<close>: truncation toward zero.\<close>
  "py_int (Fin x) = Inr (if 0 \<le> x then \<lfloor>x\<rfloor> else \<lceil>x\<rceil>)"
| "py_int NaN = Inl ValueError"
| "py_int _ = Inl OverflowError"

fun py_round2 :: "pyfloat \<Rightarrow> pyfloat" where
  \<comment> \<open>\<^verbatim>\<open>round(x, 2)\<close>: the exact value is rounded half-even to two decimals and the
      decimal read back as a float.\<close>
  "py_round2 (Fin x) = round_double (of_int (round_half_even (x * 100)) / 100)"
| "py_round2 a = a"

fun py_fabs :: "pyfloat \<Rightarrow> pyfloat" where
  "py_fabs (Fin x) = Fin \<bar>x\<bar>"
| "py_fabs NInf = PInf"
| "py_fabs a = a"

fun py_ge :: "pyfloat \<Rightarrow> pyfloat \<Rightarrow> bool" where
  \<comment> \<open>\<^verbatim>\<open>a >= b\<close>; every comparison with a NaN is false.\<close>
  "py_ge (Fin x) (Fin y) = (y \<le> x)"
| "py_ge NaN _ = False"
| "py_ge _ NaN = False"
| "py_ge PInf _ = True"
| "py_ge _ NInf = True"
| "py_ge _ _ = False"

fun py_isfinite :: "pyfloat \<Rightarrow> bool" where
  "py_isfinite (Fin x) = True"
| "py_isfinite _ = False"

subsection \<open>The builtin \<^verbatim>\<open>sum\<close>\<close>

text \<open>
  \<^verbatim>\<open>arbing.py\<close> adds its inverse odds with the builtin \<^verbatim>\<open>sum\<close>, which belongs to the
  interpreter and not to the repository, and the repository does not say which interpreter
  runs it. CPython adds floats in two ways. Up to version 3.11 \<^verbatim>\<open>sum\<close> adds the items
  from left to right, each addition rounded. From version 3.12 on it keeps a running
  compensation next to the running sum (Neumaier's variant of Kahan's summation) and adds
  the compensation at the end. The two can differ in the last bits of the result: they
  agree on the two-outcome examples below and differ on the three-outcome one. The model
  takes the way of adding as a parameter, and every theorem about a function that sums is
  proved for both.
\<close>

datatype summation = Left_to_right | Compensated

fun compensated :: "pyfloat \<Rightarrow> pyfloat \<Rightarrow> pyfloat list \<Rightarrow> pyfloat \<times> pyfloat" where
  \<comment> \<open>The loop of the compensated sum (\<^verbatim>\<open>builtin_sum_impl\<close> in CPython's
      \<^verbatim>\<open>Python/bltinmodule.c\<close>) over the items after the first: \<open>f_result\<close> is the running
      sum and \<open>c\<close> the running compensation. Each round is
      \<^verbatim>\<open>t = f_result + x; if (fabs(f_result) >= fabs(x)) c += (f_result - t) + x;\<close>
      \<^verbatim>\<open>else c += (x - t) + f_result; f_result = t;\<close>
      so that the rounding error of \<open>f_result + x\<close> is taken from the operand of larger
      magnitude.\<close>
  "compensated f_result c [] = (f_result, c)"
| "compensated f_result c (x # xs) =
     (let t = py_add f_result x;
          c' = (if py_ge (py_fabs f_result) (py_fabs x)
                then py_add c (py_add (py_sub f_result t) x)
                else py_add c (py_add (py_sub x t) f_result))
      in compensated t c' xs)"

fun py_sum :: "summation \<Rightarrow> pyfloat list \<Rightarrow> pyfloat" where
  \<comment> \<open>\<^verbatim>\<open>sum(xs)\<close> for a list of floats, starting from the integer 0. The compensated
      sum adds the first item to 0 and runs the loop on the others; at the end it adds
      the compensation unless that is zero, an infinity or a NaN
      (\<^verbatim>\<open>if (c && isfinite(c)) f_result += c;\<close>).\<close>
  "py_sum Left_to_right xs = foldl py_add (Fin 0) xs"
| "py_sum Compensated [] = Fin 0"
| "py_sum Compensated (x # xs) =
     (case compensated (py_add (Fin 0) x) (Fin 0) xs of
        (f_result, c) \<Rightarrow>
          if c \<noteq> Fin 0 \<and> py_isfinite c then py_add f_result c else f_result)"

fun map_err :: "('a \<Rightarrow> py_error + 'b) \<Rightarrow> 'a list \<Rightarrow> py_error + 'b list" where
  \<comment> \<open>A comprehension whose element expression may raise: the first raise ends it.\<close>
  "map_err f [] = Inr []"
| "map_err f (x # xs) =
     (case f x of
        Inl e \<Rightarrow> Inl e
      | Inr y \<Rightarrow> (case map_err f xs of Inl e \<Rightarrow> Inl e | Inr ys \<Rightarrow> Inr (y # ys)))"

section \<open>The stake allocator: \<^verbatim>\<open>calculate_stakes\<close>\<close>

text \<open>
  A Python \<^verbatim>\<open>dict\<close> keeps its keys in insertion order and the allocator's ranking
  depends on that order, so a dict is an association list. Its keys are distinct;
  theorems that need this say so.
\<close>

type_synonym 'v dict = "(string \<times> 'v) list"

definition dict_get :: "'v dict \<Rightarrow> string \<Rightarrow> py_error + 'v" where
  \<comment> \<open>\<^verbatim>\<open>d[k]\<close>\<close>
  "dict_get d k = (case map_of d k of None \<Rightarrow> Inl KeyError | Some v \<Rightarrow> Inr v)"

definition inverse_odds :: "(string \<times> pyfloat) dict \<Rightarrow> py_error + pyfloat dict" where
  \<comment> \<open>Step 1: \<^verbatim>\<open>{outcome: 1 / data[1] for outcome, data in odds_dict.items()}\<close>\<close>
  "inverse_odds odds_dict =
     map_err (\<lambda>(outcome, data).
                case py_truediv (Fin 1) (snd data) of
                  Inl e \<Rightarrow> Inl e
                | Inr weight \<Rightarrow> Inr (outcome, weight)) odds_dict"

definition ideal_stakes :: "summation \<Rightarrow> pyfloat dict \<Rightarrow> int \<Rightarrow> py_error + pyfloat dict" where
  \<comment> \<open>Step 2: \<^verbatim>\<open>{outcome: (inv / total_inverse) * total_stake for ...}\<close> with
      \<^verbatim>\<open>total_inverse = sum(inverse_odds.values())\<close>\<close>
  "ideal_stakes sm inv_odds total_stake =
     (let total_inverse = py_sum sm (map snd inv_odds)
      in map_err (\<lambda>(outcome, weight).
                    case py_truediv weight total_inverse of
                      Inl e \<Rightarrow> Inl e
                    | Inr q \<Rightarrow>
                        (case float_of_int total_stake of
                           Inl e \<Rightarrow> Inl e
                         | Inr s \<Rightarrow> Inr (outcome, py_mul q s))) inv_odds)"

definition rounded_stakes :: "pyfloat dict \<Rightarrow> py_error + int dict" where
  \<comment> \<open>Step 3: \<^verbatim>\<open>{outcome: int(stake) for outcome, stake in ideal_stakes.items()}\<close>\<close>
  "rounded_stakes ideal =
     map_err (\<lambda>(outcome, stake).
                case py_int stake of
                  Inl e \<Rightarrow> Inl e
                | Inr n \<Rightarrow> Inr (outcome, n)) ideal"

definition stake_diffs :: "pyfloat dict \<Rightarrow> int dict \<Rightarrow> py_error + pyfloat dict" where
  \<comment> \<open>\<^verbatim>\<open>{outcome: ideal_stakes[outcome] - rounded_stakes[outcome] for outcome in rounded_stakes}\<close>\<close>
  "stake_diffs ideal rounded =
     map_err (\<lambda>(outcome, n).
                case dict_get ideal outcome of
                  Inl e \<Rightarrow> Inl e
                | Inr stake \<Rightarrow>
                    (case float_of_int n of
                       Inl e \<Rightarrow> Inl e
                     | Inr nf \<Rightarrow> Inr (outcome, py_sub stake nf))) rounded"

fun fin_val :: "pyfloat \<Rightarrow> rat" where
  \<comment> \<open>The number a finite float denotes. The sort below ranks the stake differences
      by it; for positive prices they are finite (lemma \<open>stake_diffs_frac\<close>), so the
      second equation is not used there.\<close>
  "fin_val (Fin x) = x"
| "fin_val _ = 0"

definition ranking :: "pyfloat dict \<Rightarrow> string list" where
  \<comment> \<open>\<^verbatim>\<open>sorted(stake_diffs, key=stake_diffs.get, reverse=True)\<close>: the keys by
      descending value; Python's sort is stable also with \<^verbatim>\<open>reverse=True\<close>, so keys
      of equal value keep their dict order.\<close>
  "ranking sdiffs = map fst (sort_key (\<lambda>(outcome, d). - fin_val d) sdiffs)"

definition dict_incr :: "int dict \<Rightarrow> string \<Rightarrow> int dict" where
  \<comment> \<open>\<^verbatim>\<open>d[k] += 1\<close> for a key of \<open>d\<close>\<close>
  "dict_incr d k = map (\<lambda>(k', v). if k' = k then (k', v + 1) else (k', v)) d"

fun award :: "int dict \<Rightarrow> int \<Rightarrow> string list \<Rightarrow> int dict" where
  \<comment> \<open>The loop of step 4 over the ranked outcomes.\<close>
  "award rounded remainder [] = rounded"
| "award rounded remainder (outcome # rest) =
     (if remainder \<le> 0 then rounded
      else award (dict_incr rounded outcome) (remainder - 1) rest)"

definition remainder_of :: "int dict \<Rightarrow> int \<Rightarrow> int" where
  \<comment> \<open>\<^verbatim>\<open>remainder = total_stake - sum(rounded_stakes.values())\<close>\<close>
  "remainder_of rounded total_stake = total_stake - sum_list (map snd rounded)"

definition adjust_stakes :: "pyfloat dict \<Rightarrow> int dict \<Rightarrow> int \<Rightarrow> py_error + int dict" where
  \<comment> \<open>Step 4\<close>
  "adjust_stakes ideal rounded total_stake =
     (let remainder = remainder_of rounded total_stake
      in if 0 < remainder
         then (case stake_diffs ideal rounded of
                 Inl e \<Rightarrow> Inl e
               | Inr sdiffs \<Rightarrow> Inr (award rounded remainder (ranking sdiffs)))
         else Inr rounded)"

type_synonym stake_row = "string \<times> pyfloat \<times> int \<times> pyfloat"

definition profits :: "(string \<times> pyfloat) dict \<Rightarrow> int dict \<Rightarrow> int \<Rightarrow> py_error + stake_row dict" where
  \<comment> \<open>Step 5: one row \<^verbatim>\<open>(bookie, odd, stake, profit)\<close> per outcome of \<^verbatim>\<open>odds_dict\<close>\<close>
  "profits odds_dict final total_stake =
     map_err (\<lambda>(outcome, (bookie, odd)).
                case dict_get final outcome of
                  Inl e \<Rightarrow> Inl e
                | Inr stake \<Rightarrow>
                    (case float_of_int stake of
                       Inl e \<Rightarrow> Inl e
                     | Inr sf \<Rightarrow>
                         (case float_of_int total_stake of
                            Inl e \<Rightarrow> Inl e
                          | Inr tf \<Rightarrow>
                              Inr (outcome, (bookie, odd, stake,
                                     py_round2 (py_sub (py_mul sf odd) tf)))))) odds_dict"

definition final_stakes :: "summation \<Rightarrow> (string \<times> pyfloat) dict \<Rightarrow> int \<Rightarrow> py_error + int dict" where
  \<comment> \<open>Steps 1 to 4: \<^verbatim>\<open>rounded_stakes\<close> as it stands when step 5 starts.\<close>
  "final_stakes sm odds_dict total_stake =
     (case inverse_odds odds_dict of
        Inl e \<Rightarrow> Inl e
      | Inr inv_odds \<Rightarrow>
          (case ideal_stakes sm inv_odds total_stake of
             Inl e \<Rightarrow> Inl e
           | Inr ideal \<Rightarrow>
               (case rounded_stakes ideal of
                  Inl e \<Rightarrow> Inl e
                | Inr rounded \<Rightarrow> adjust_stakes ideal rounded total_stake)))"

definition calculate_stakes :: "summation \<Rightarrow> (string \<times> pyfloat) dict \<Rightarrow> int
    \<Rightarrow> py_error + stake_row dict" where
  "calculate_stakes sm odds_dict total_stake =
     (case final_stakes sm odds_dict total_stake of
        Inl e \<Rightarrow> Inl e
      | Inr final \<Rightarrow> profits odds_dict final total_stake)"

definition stakes_of :: "stake_row dict \<Rightarrow> int list" where
  \<comment> \<open>The stake column of a result of \<open>calculate_stakes\<close>.\<close>
  "stakes_of result = map (\<lambda>(outcome, (bookie, odd, stake, profit)). stake) result"

section \<open>The normalizer: \<^verbatim>\<open>process_data\<close>\<close>

text \<open>
  The records of the odds API as \<^verbatim>\<open>process_data\<close> reads them. A key that the source
  reads with \<^verbatim>\<open>d[k]\<close> or \<^verbatim>\<open>d.get(k)\<close> is an optional field: \<open>None\<close> is a dict
  without the key.
\<close>

record raw_outcome =
  o_name :: "string option"
  o_price :: "pyfloat option"

record market =
  m_outcomes :: "raw_outcome list option"

record bookmaker =
  b_title :: "string option"
  b_markets :: "market list option"

record raw_match =
  commence_time :: "int option"
  home_team :: "string option"
  away_team :: "string option"
  sport_key :: "string option"
  bookmakers :: "bookmaker list option"

record normalized_match =
  match_name :: string
  match_start_time :: int
  hours_to_start :: pyfloat
  league :: "string option"
  best_odds :: "(string \<times> pyfloat) dict"
  total_implied_odds :: pyfloat

definition dict_set :: "'v dict \<Rightarrow> string \<Rightarrow> 'v \<Rightarrow> 'v dict" where
  \<comment> \<open>\<^verbatim>\<open>d[k] = v\<close>: an existing key keeps its place, a new key goes last.\<close>
  "dict_set d k v =
     (if k \<in> fst ` set d
      then map (\<lambda>(k', v'). if k' = k then (k', v) else (k', v')) d
      else d @ [(k, v)])"

definition first_market_outcomes :: "bookmaker \<Rightarrow> py_error + raw_outcome list" where
  \<comment> \<open>\<^verbatim>\<open>bookmaker.get("markets", [{}])[0].get("outcomes", [])\<close>\<close>
  "first_market_outcomes b =
     (case b_markets b of
        None \<Rightarrow> Inr []
      | Some [] \<Rightarrow> Inl IndexError
      | Some (m # _) \<Rightarrow> Inr (case m_outcomes m of None \<Rightarrow> [] | Some os \<Rightarrow> os))"

definition offer :: "bookmaker \<Rightarrow> (string \<times> pyfloat) dict \<Rightarrow> raw_outcome
    \<Rightarrow> py_error + (string \<times> pyfloat) dict" where
  \<comment> \<open>The body of the inner loop (lines 73 to 76) for one outcome.\<close>
  "offer b best outcome =
     (case o_name outcome of
        None \<Rightarrow> Inl KeyError
      | Some name \<Rightarrow>
          (case o_price outcome of
             None \<Rightarrow> Inl KeyError
           | Some price \<Rightarrow>
               if (case map_of best name of
                     None \<Rightarrow> True
                   | Some (_, best_price) \<Rightarrow> py_gt price best_price)
               then (case b_title b of
                       None \<Rightarrow> Inl KeyError
                     | Some t \<Rightarrow> Inr (dict_set best name (t, price)))
               else Inr best))"

fun offers :: "bookmaker \<Rightarrow> (string \<times> pyfloat) dict \<Rightarrow> raw_outcome list
    \<Rightarrow> py_error + (string \<times> pyfloat) dict" where
  "offers b best [] = Inr best"
| "offers b best (outcome # rest) =
     (case offer b best outcome of
        Inl e \<Rightarrow> Inl e
      | Inr best' \<Rightarrow> offers b best' rest)"

fun collect_best :: "(string \<times> pyfloat) dict \<Rightarrow> bookmaker list
    \<Rightarrow> py_error + (string \<times> pyfloat) dict" where
  \<comment> \<open>The loop over the bookmakers (lines 71 to 76).\<close>
  "collect_best best [] = Inr best"
| "collect_best best (b # bs) =
     (case first_market_outcomes b of
        Inl e \<Rightarrow> Inl e
      | Inr os \<Rightarrow>
          (case offers b best os of
             Inl e \<Rightarrow> Inl e
           | Inr best' \<Rightarrow> collect_best best' bs))"

definition total_implied :: "summation \<Rightarrow> (string \<times> pyfloat) dict \<Rightarrow> py_error + pyfloat" where
  \<comment> \<open>\<^verbatim>\<open>sum(1 / odds for _, odds in best_odds.values())\<close>\<close>
  "total_implied sm best =
     (case map_err (\<lambda>(name, (t, odds)). py_truediv (Fin 1) odds) best of
        Inl e \<Rightarrow> Inl e
      | Inr ws \<Rightarrow> Inr (py_sum sm ws))"

definition show_opt :: "string option \<Rightarrow> string" where
  \<comment> \<open>How an f-string prints the result of \<^verbatim>\<open>match.get(k)\<close>.\<close>
  "show_opt v = (case v of None \<Rightarrow> ''None'' | Some s \<Rightarrow> s)"

definition hours_until :: "int \<Rightarrow> pyfloat \<Rightarrow> py_error + pyfloat" where
  \<comment> \<open>\<^verbatim>\<open>round((start_time - time.time()) / 3600, 2)\<close>\<close>
  "hours_until start_time now =
     (case float_of_int start_time of
        Inl e \<Rightarrow> Inl e
      | Inr s \<Rightarrow>
          (case py_truediv (py_sub s now) (Fin 3600) of
             Inl e \<Rightarrow> Inl e
           | Inr h \<Rightarrow> Inr (py_round2 h)))"

definition normalize_match :: "summation \<Rightarrow> (nat \<Rightarrow> pyfloat) \<Rightarrow> nat \<Rightarrow> int \<Rightarrow> raw_match
    \<Rightarrow> py_error + normalized_match option \<times> nat" where
  \<comment> \<open>Lines 70 to 89: the loop body after the start-time filter. \<open>None\<close> is
      \<^verbatim>\<open>continue\<close>, \<open>Some\<close> a yielded record.\<close>
  "normalize_match sm clock tick start_time m =
     (case collect_best [] (case bookmakers m of None \<Rightarrow> [] | Some bs \<Rightarrow> bs) of
        Inl e \<Rightarrow> Inl e
      | Inr best \<Rightarrow>
          if length best < 2 then Inr (None, tick)
          else
            (case total_implied sm best of
               Inl e \<Rightarrow> Inl e
             | Inr implied \<Rightarrow>
                 (case hours_until start_time (clock tick) of
                    Inl e \<Rightarrow> Inl e
                  | Inr h \<Rightarrow>
                      Inr (Some \<lparr>match_name = show_opt (home_team m) @ '' v. '' @ show_opt (away_team m),
                                 match_start_time = start_time,
                                 hours_to_start = h,
                                 league = sport_key m,
                                 best_odds = best,
                                 total_implied_odds = implied\<rparr>, Suc tick))))"

definition process_match :: "summation \<Rightarrow> bool \<Rightarrow> (nat \<Rightarrow> pyfloat) \<Rightarrow> nat \<Rightarrow> raw_match
    \<Rightarrow> py_error + normalized_match option \<times> nat" where
  \<comment> \<open>One round of the loop of \<^verbatim>\<open>process_data\<close>. \<open>clock k\<close> is what the \<open>k\<close>-th call of
      \<^verbatim>\<open>time.time()\<close> returns and \<open>tick\<close> counts the calls made so far; the
      \<^verbatim>\<open>and\<close> of line 67 reads the clock only when started matches are excluded.\<close>
  "process_match sm include_started_matches clock tick m =
     (case commence_time m of
        None \<Rightarrow> Inl KeyError
      | Some start_time \<Rightarrow>
          if include_started_matches then normalize_match sm clock tick start_time m
          else if py_lt (Fin (of_int start_time)) (clock tick) then Inr (None, Suc tick)
          else normalize_match sm clock (Suc tick) start_time m)"

fun process_data :: "summation \<Rightarrow> (nat \<Rightarrow> pyfloat) \<Rightarrow> nat \<Rightarrow> raw_match list \<Rightarrow> bool
    \<Rightarrow> normalized_match list \<times> py_error option" where
  \<comment> \<open>The generator: the records it yields, in order, and the exception that ends it,
      if one does.\<close>
  "process_data sm clock tick [] include_started_matches = ([], None)"
| "process_data sm clock tick (m # matches) include_started_matches =
     (case process_match sm include_started_matches clock tick m of
        Inl e \<Rightarrow> ([], Some e)
      | Inr (None, tick') \<Rightarrow> process_data sm clock tick' matches include_started_matches
      | Inr (Some r, tick') \<Rightarrow>
          (case process_data sm clock tick' matches include_started_matches of
             (rs, err) \<Rightarrow> (r # rs, err)))"

section \<open>The detector: the filter of \<^verbatim>\<open>get_arbitrage_opportunities\<close>\<close>

definition qualifies :: "pyfloat \<Rightarrow> pyfloat \<Rightarrow> bool" where
  \<comment> \<open>\<^verbatim>\<open>0 < match["total_implied_odds"] < 1 - cutoff\<close>: a chained comparison, the
      difference computed on floats.\<close>
  "qualifies implied cutoff = (py_lt (Fin 0) implied \<and> py_lt implied (py_sub (Fin 1) cutoff))"

fun opportunities :: "summation \<Rightarrow> pyfloat \<Rightarrow> normalized_match list
    \<Rightarrow> (normalized_match \<times> stake_row dict) list \<times> py_error option" where
  \<comment> \<open>The loop of \<^verbatim>\<open>get_arbitrage_opportunities\<close> over the normalized matches: what
      it reports, and the exception that ends it, if one does.\<close>
  "opportunities sm cutoff [] = ([], None)"
| "opportunities sm cutoff (m # matches) =
     (if qualifies (total_implied_odds m) cutoff
      then (case calculate_stakes sm (best_odds m) 1000 of
              Inl e \<Rightarrow> ([], Some e)
            | Inr stakes \<Rightarrow>
                (case opportunities sm cutoff matches of
                   (rs, err) \<Rightarrow> ((m, stakes) # rs, err)))
      else opportunities sm cutoff matches)"

section \<open>Notions of the specification\<close>

text \<open>
  The quotes of a match, as the specification speaks of them: every outcome of the first
  market of every bookmaker, with its bookmaker, in the order in which the loops of lines
  71 and 72 visit them.
\<close>

definition quotes :: "bookmaker list \<Rightarrow> (bookmaker \<times> raw_outcome) list" where
  "quotes bs =
     concat (map (\<lambda>b. map (Pair b) (case first_market_outcomes b of Inl e \<Rightarrow> [] | Inr os \<Rightarrow> os)) bs)"

text \<open>
  \<open>is_best_quote qs name (t, p)\<close>: among the quotes \<open>qs\<close>, the first one that offers
  \<open>name\<close> at the price \<open>p\<close> comes from the bookmaker titled \<open>t\<close>, and no quote for
  \<open>name\<close> has a price above \<open>p\<close>.
\<close>

definition is_best_quote :: "(bookmaker \<times> raw_outcome) list \<Rightarrow> string \<Rightarrow> string \<times> pyfloat \<Rightarrow> bool" where
  "is_best_quote qs name entry =
     (case entry of (t, p) \<Rightarrow>
        (case find (\<lambda>(b, oc). o_name oc = Some name \<and> o_price oc = Some p) qs of
           None \<Rightarrow> False
         | Some (b, oc) \<Rightarrow> b_title b = Some t) \<and>
        list_all (\<lambda>(b, oc). o_name oc = Some name \<longrightarrow>
                    (case o_price oc of None \<Rightarrow> False | Some p' \<Rightarrow> \<not> py_lt p p')) qs)"

text \<open>The invariant of the two loops that build \<^verbatim>\<open>best_odds\<close>.\<close>

definition best_inv :: "(string \<times> pyfloat) dict \<Rightarrow> (bookmaker \<times> raw_outcome) list \<Rightarrow> bool" where
  "best_inv best qs =
     (\<forall>name. case map_of best name of
                None \<Rightarrow> \<forall>(b, oc) \<in> set qs. o_name oc \<noteq> Some name
              | Some entry \<Rightarrow> is_best_quote qs name entry)"

text \<open>
  The ranking of step 5 of the specification's algorithm: the outcomes by descending
  fractional part of their ideal share. \<open>sort_key\<close> is a stable sort, so outcomes with
  equal fractional parts keep the order of the input mapping.
\<close>

definition ranked_by_fraction :: "pyfloat dict \<Rightarrow> string list" where
  "ranked_by_fraction ideal =
     map fst (sort_key (\<lambda>(outcome, share). - frac (fin_val share)) ideal)"

section \<open>Notions of the proofs\<close>

text \<open>
  The numbers that are binary64 values: rounding leaves them as they are. Every finite
  result of an operation of the model is one.
\<close>

definition is_double :: "rat \<Rightarrow> bool" where
  "is_double x = (round_double x = Fin x)"

fun py_is_double :: "pyfloat \<Rightarrow> bool" where
  "py_is_double (Fin x) = is_double x"
| "py_is_double a = True"

section \<open>Example inputs\<close>

text \<open>
  Four odds mappings used below: the worked example of the specification, a pair of even
  odds, the pair 2.8 and 5.2, and the triple 3.6, 3.3 and 4.8 (each decimal as the float it
  denotes). On the triple the two ways of summing give total inverse odds that differ in
  the last bit, and the stakes differ with them.
\<close>

definition ex1_odds :: "(string \<times> pyfloat) dict" where
  "ex1_odds = [(''A'', ''Bookmaker1'', Fin (3 / 2)), (''B'', ''Bookmaker2'', Fin (3))]"

definition ex2_odds :: "(string \<times> pyfloat) dict" where
  "ex2_odds = [(''A'', ''Bookmaker1'', Fin (2)), (''B'', ''Bookmaker2'', Fin (2))]"

definition ex3_odds :: "(string \<times> pyfloat) dict" where
  "ex3_odds = [(''A'', ''Bookmaker1'', Fin (3152519739159347 / 1125899906842624)), (''B'', ''Bookmaker2'', Fin (5854679515581645 / 1125899906842624))]"

definition ex4_odds :: "(string \<times> pyfloat) dict" where
  "ex4_odds = [(''A'', ''Bookmaker1'', Fin (8106479329266893 / 2251799813685248)), (''B'', ''Bookmaker2'', Fin (3715469692580659 / 1125899906842624)), (''C'', ''Bookmaker3'', Fin (5404319552844595 / 1125899906842624))]"

text \<open>
  Example matches: the two bookmakers of the specification's end-to-end example (prices
  2.10, 2.05, 2.00 and 2.20 as floats), a match in which a price of zero is outbid, and one
  in which a price of zero is the only quote of its outcome. The clock stands one hour
  before the start of the match.
\<close>

definition ex_bookmakers :: "bookmaker list" where
  "ex_bookmakers =
     [\<lparr>b_title = Some ''Bookmaker1'',
       b_markets = Some [\<lparr>m_outcomes = Some [\<lparr>o_name = Some ''A'', o_price = Some (Fin (4728779608739021 / 2251799813685248))\<rparr>, \<lparr>o_name = Some ''B'', o_price = Some (Fin (2308094809027379 / 1125899906842624))\<rparr>]\<rparr>]\<rparr>,
      \<lparr>b_title = Some ''Bookmaker2'',
       b_markets = Some [\<lparr>m_outcomes = Some [\<lparr>o_name = Some ''A'', o_price = Some (Fin (2))\<rparr>, \<lparr>o_name = Some ''B'', o_price = Some (Fin (2476979795053773 / 1125899906842624))\<rparr>]\<rparr>]\<rparr>]"

definition outbid_bookmakers :: "bookmaker list" where
  "outbid_bookmakers =
     [\<lparr>b_title = Some ''Bookmaker1'',
       b_markets = Some [\<lparr>m_outcomes = Some [\<lparr>o_name = Some ''A'', o_price = Some (Fin (0))\<rparr>]\<rparr>]\<rparr>,
      \<lparr>b_title = Some ''Bookmaker2'',
       b_markets = Some [\<lparr>m_outcomes = Some [\<lparr>o_name = Some ''A'', o_price = Some (Fin (2))\<rparr>, \<lparr>o_name = Some ''B'', o_price = Some (Fin (2))\<rparr>]\<rparr>]\<rparr>]"

definition zero_bookmakers :: "bookmaker list" where
  "zero_bookmakers =
     [\<lparr>b_title = Some ''Bookmaker1'',
       b_markets = Some [\<lparr>m_outcomes = Some [\<lparr>o_name = Some ''A'', o_price = Some (Fin (0))\<rparr>]\<rparr>]\<rparr>,
      \<lparr>b_title = Some ''Bookmaker2'',
       b_markets = Some [\<lparr>m_outcomes = Some [\<lparr>o_name = Some ''B'', o_price = Some (Fin (2))\<rparr>]\<rparr>]\<rparr>]"

definition ex_match :: raw_match where
  "ex_match =
     \<lparr>commence_time = Some 1700003600, home_team = Some ''Home'', away_team = Some ''Away'',
      sport_key = Some ''soccer_epl'', bookmakers = Some ex_bookmakers\<rparr>"

definition ex_clock :: "nat \<Rightarrow> pyfloat" where
  "ex_clock k = Fin 1700000000"

section \<open>Properties of the rounding\<close>

lemma powi2_pos: "(0::rat) < 2 powi e" by simp

lemma powi2_add: "(2::rat) powi (a + b) = 2 powi a * 2 powi b"
  by (simp add: power_int_add)

lemma powi2_succ: "(2::rat) powi (e + 1) = 2 * 2 powi e"
  by (simp add: power_int_add)

lemma powi2_less_iff: "(2::rat) powi a < 2 powi b \<longleftrightarrow> a < b"
proof
  assume h: "(2::rat) powi a < 2 powi b"
  show "a < b"
  proof (rule ccontr)
    assume "\<not> a < b"
    then have "b \<le> a" by simp
    then have "(2::rat) powi b \<le> 2 powi a" by (intro power_int_increasing) simp_all
    with h show False by simp
  qed
next
  assume "a < b"
  then show "(2::rat) powi a < 2 powi b" by (intro power_int_strict_increasing) simp_all
qed

lemma powi2_le_iff: "(2::rat) powi a \<le> 2 powi b \<longleftrightarrow> a \<le> b"
  using powi2_less_iff[of b a] by (auto simp: not_less[symmetric])

lemma ilog2_bounds:
  assumes "0 < x"
  shows "2 powi (ilog2 x) \<le> x \<and> x < 2 powi (ilog2 x + 1)"
proof -
  obtain p q where pq: "quotient_of x = (p, q)" by force
  have q: "0 < q" using quotient_of_denom_pos[OF pq] .
  have x: "x = of_int p / of_int q" using quotient_of_div[OF pq] .
  have p: "0 < p" using assms q unfolding x by (simp add: zero_less_divide_iff)
  define a where "a = bitlen p"
  define b where "b = bitlen q"
  have a1: "1 \<le> a" using p unfolding a_def by (auto simp: bitlen_alt_def)
  have b1: "1 \<le> b" using q unfolding b_def by (auto simp: bitlen_alt_def)
  have pa: "(2::rat) powi (a - 1) \<le> of_int p" "of_int p < (2::rat) powi a"
  proof -
    have "2 ^ nat (a - 1) \<le> p" "p < 2 ^ nat a" using bitlen_bounds[OF p] unfolding a_def by auto
    then have "(of_int (2 ^ nat (a - 1)) :: rat) \<le> of_int p" "(of_int p :: rat) < of_int (2 ^ nat a)"
      by (simp_all only: of_int_le_iff of_int_less_iff)
    then show "(2::rat) powi (a - 1) \<le> of_int p" "of_int p < (2::rat) powi a"
      using a1 by (simp_all add: power_int_def)
  qed
  have qb: "(2::rat) powi (b - 1) \<le> of_int q" "of_int q < (2::rat) powi b"
  proof -
    have "2 ^ nat (b - 1) \<le> q" "q < 2 ^ nat b" using bitlen_bounds[OF q] unfolding b_def by auto
    then have "(of_int (2 ^ nat (b - 1)) :: rat) \<le> of_int q" "(of_int q :: rat) < of_int (2 ^ nat b)"
      by (simp_all only: of_int_le_iff of_int_less_iff)
    then show "(2::rat) powi (b - 1) \<le> of_int q" "of_int q < (2::rat) powi b"
      using b1 by (simp_all add: power_int_def)
  qed
  have qpos: "(0::rat) < of_int q" using q by simp
  have up: "x < 2 powi (a - b + 1)"
  proof -
    have "of_int p < (2::rat) powi a" by (rule pa)
    also have "\<dots> = 2 powi (a - b + 1) * 2 powi (b - 1)"
      by (simp add: power_int_add[symmetric])
    also have "\<dots> \<le> 2 powi (a - b + 1) * of_int q"
      using qb(1) by (intro mult_left_mono) simp_all
    finally show ?thesis unfolding x using qpos by (simp add: pos_divide_less_eq)
  qed
  have lo: "2 powi (a - b - 1) \<le> x"
  proof -
    have "2 powi (a - b - 1) * of_int q \<le> 2 powi (a - b - 1) * (2::rat) powi b"
      using qb(2) by (intro mult_left_mono) simp_all
    also have "\<dots> = 2 powi (a - 1)"
      by (simp add: power_int_add[symmetric])
    also have "\<dots> \<le> of_int p" by (rule pa)
    finally show ?thesis unfolding x using qpos by (simp add: pos_le_divide_eq)
  qed
  show ?thesis
  proof (cases "2 powi (a - b) \<le> x")
    case True
    then have "ilog2 x = a - b" by (simp add: ilog2_def pq a_def b_def)
    then show ?thesis using True up by simp
  next
    case False
    then have "ilog2 x = a - b - 1" by (simp add: ilog2_def pq a_def b_def)
    then show ?thesis using False lo by simp
  qed
qed

lemma ilog2_unique:
  assumes "0 < x" "2 powi e \<le> x" "x < 2 powi (e + 1)"
  shows "ilog2 x = e"
proof -
  have b: "2 powi (ilog2 x) \<le> x" "x < 2 powi (ilog2 x + 1)"
    using ilog2_bounds[OF assms(1)] by simp_all
  have "(2::rat) powi e < 2 powi (ilog2 x + 1)" using assms(2) b(2) by simp
  then have 1: "e < ilog2 x + 1" by (simp add: powi2_less_iff)
  have "(2::rat) powi (ilog2 x) < 2 powi (e + 1)" using assms(3) b(1) by simp
  then have 2: "ilog2 x < e + 1" by (simp add: powi2_less_iff)
  from 1 2 show ?thesis by simp
qed

lemma round_half_even_bounds:
  "\<bar>of_int (round_half_even q) - q\<bar> \<le> 1 / 2"
proof -
  have "of_int \<lfloor>q\<rfloor> \<le> q" "q < of_int \<lfloor>q\<rfloor> + 1" by linarith+
  then show ?thesis unfolding round_half_even_def Let_def by (auto simp: abs_le_iff)
qed

lemma round_half_even_unique:
  assumes "\<bar>of_int m - q\<bar> < 1 / 2"
  shows "round_half_even q = m"
proof -
  have fl: "of_int \<lfloor>q\<rfloor> \<le> q" "q < of_int \<lfloor>q\<rfloor> + 1" by linarith+
  have b: "\<bar>of_int (round_half_even q) - q\<bar> \<le> 1 / 2" by (rule round_half_even_bounds)
  have "\<bar>(of_int (round_half_even q) :: rat) - of_int m\<bar> < 1" using b assms by linarith
  then have "\<bar>(of_int (round_half_even q - m) :: rat)\<bar> < 1" by simp
  then have "\<bar>round_half_even q - m\<bar> < 1"
    by (metis of_int_abs of_int_less_1_iff)
  then show ?thesis by simp
qed

lemma round_half_even_tie:
  assumes "q = of_int m + 1 / 2"
  shows "round_half_even q = (if even m then m else m + 1)"
proof -
  have "\<lfloor>q\<rfloor> = m" unfolding assms by linarith
  then show ?thesis unfolding round_half_even_def Let_def using assms by simp
qed

lemma round_double_pos:
  assumes "0 < x"
  shows "round_double x =
     (let ulp = 2 powi (max (ilog2 x) (- 1022) - 52);
          r = of_int (round_half_even (x / ulp)) * ulp
      in if 2 powi 1024 \<le> r then PInf else Fin r)"
proof -
  have "0 \<le> rat_of_int (round_half_even (x / 2 powi (max (ilog2 x) (- 1022) - 52)))
            * 2 powi (max (ilog2 x) (- 1022) - 52) \<Longrightarrow>
        sgn x * (rat_of_int (round_half_even (x / 2 powi (max (ilog2 x) (- 1022) - 52)))
            * 2 powi (max (ilog2 x) (- 1022) - 52)) =
        rat_of_int (round_half_even (x / 2 powi (max (ilog2 x) (- 1022) - 52)))
            * 2 powi (max (ilog2 x) (- 1022) - 52)"
    using assms by simp
  then show ?thesis using assms by (simp add: round_double_def Let_def)
qed

lemma round_double_neg: "round_double (- x) = py_neg (round_double x)"
  by (cases "x = 0") (auto simp: round_double_def Let_def sgn_if)

lemma exponent_cert:
  assumes "0 < x" "2 powi e \<le> x \<or> e = - 1022" "x < 2 powi (e + 1)" "- 1022 \<le> e"
  shows "max (ilog2 x) (- 1022) = e"
proof (cases "2 powi e \<le> x")
  case True
  then have "ilog2 x = e" using assms by (intro ilog2_unique) simp_all
  then show ?thesis using assms(4) by simp
next
  case False
  then have e: "e = - 1022" using assms(2) by simp
  have "2 powi (ilog2 x) \<le> x" using ilog2_bounds[OF assms(1)] by simp
  also have "x < 2 powi e" using False by simp
  finally have "ilog2 x < e" by (simp add: powi2_less_iff)
  then show ?thesis using e by simp
qed

lemma round_double_cert:
  assumes "0 < x" "2 powi e \<le> x \<or> e = - 1022" "x < 2 powi (e + 1)" "- 1022 \<le> e"
    and "\<bar>of_int m - x / 2 powi (e - 52)\<bar> < 1 / 2"
    and "of_int m * 2 powi (e - 52) < (2::rat) powi 1024"
  shows "round_double x = Fin (of_int m * 2 powi (e - 52))"
proof -
  have e: "max (ilog2 x) (- 1022) = e" using assms(1-4) by (rule exponent_cert)
  have m: "round_half_even (x / 2 powi (e - 52)) = m"
    using assms(5) by (rule round_half_even_unique)
  show ?thesis unfolding round_double_pos[OF assms(1)] Let_def e m using assms(6) by simp
qed

lemma round_double_tie_cert:
  assumes "0 < x" "2 powi e \<le> x \<or> e = - 1022" "x < 2 powi (e + 1)" "- 1022 \<le> e"
    and "x / 2 powi (e - 52) = of_int m + 1 / 2"
    and "m' = (if even m then m else m + 1)"
    and "of_int m' * 2 powi (e - 52) < (2::rat) powi 1024"
  shows "round_double x = Fin (of_int m' * 2 powi (e - 52))"
proof -
  have e: "max (ilog2 x) (- 1022) = e" using assms(1-4) by (rule exponent_cert)
  have m: "round_half_even (x / 2 powi (e - 52)) = m'"
    using round_half_even_tie[OF assms(5)] assms(6) by simp
  show ?thesis unfolding round_double_pos[OF assms(1)] Let_def e m using assms(7) by simp
qed

lemma round_double_normal:
  assumes "2 powi (- 1022) \<le> x" "x \<le> 2 powi 1023"
  obtains r where "round_double x = Fin r" "\<bar>r - x\<bar> \<le> x / 2 ^ 53"
proof -
  have x0: "0 < x" using assms(1) powi2_pos[of "- 1022"] by linarith
  define e where "e = ilog2 x"
  have eb: "2 powi e \<le> x" "x < 2 powi (e + 1)" using ilog2_bounds[OF x0] by (simp_all add: e_def)
  have "(2::rat) powi (- 1022) < 2 powi (e + 1)" using assms(1) eb(2) by simp
  then have "- 1022 < e + 1" by (simp only: powi2_less_iff)
  then have e1: "- 1022 \<le> e" by simp
  have "(2::rat) powi e \<le> 2 powi 1023" using assms(2) eb(1) by simp
  then have e2: "e \<le> 1023" by (simp only: powi2_le_iff)
  define ulp :: rat where "ulp = 2 powi (e - 52)"
  have ulp0: "0 < ulp" by (simp add: ulp_def)
  define m where "m = round_half_even (x / ulp)"
  define r where "r = of_int m * ulp"
  have "\<bar>of_int m - x / ulp\<bar> \<le> 1 / 2" unfolding m_def by (rule round_half_even_bounds)
  then have "\<bar>of_int m - x / ulp\<bar> * ulp \<le> 1 / 2 * ulp"
    using ulp0 by (intro mult_right_mono) simp_all
  moreover have "\<bar>of_int m - x / ulp\<bar> * ulp = \<bar>r - x\<bar>"
  proof -
    have "\<bar>of_int m - x / ulp\<bar> * ulp = \<bar>(of_int m - x / ulp) * ulp\<bar>"
      using ulp0 by (simp add: abs_mult)
    also have "(of_int m - x / ulp) * ulp = r - x"
      using ulp0 by (simp add: r_def field_simps)
    finally show ?thesis .
  qed
  ultimately have d: "\<bar>r - x\<bar> \<le> ulp / 2" by simp
  have half: "ulp / 2 = 2 powi e / 2 ^ 53"
  proof -
    have "(2::rat) powi e = 2 powi ((e - 52) + 52)" by simp
    also have "\<dots> = 2 powi (e - 52) * 2 powi 52" by (rule powi2_add)
    finally show ?thesis by (simp add: ulp_def)
  qed
  have rel: "\<bar>r - x\<bar> \<le> x / 2 ^ 53"
  proof -
    have "ulp / 2 \<le> x / 2 ^ 53" unfolding half using eb(1) by (simp add: divide_right_mono)
    with d show ?thesis by linarith
  qed
  have "ulp / 2 \<le> 2 powi 1023 / 2 ^ 53" unfolding half
    using e2 by (intro divide_right_mono) (simp_all only: powi2_le_iff, simp)
  then have "r \<le> 2 powi 1023 + 2 powi 1023 / 2 ^ 53" using d assms(2) by linarith
  also have "\<dots> < (2::rat) powi 1024" by simp
  finally have fin: "r < 2 powi 1024" .
  have "round_double x = Fin r"
    unfolding round_double_pos[OF x0] Let_def using e1 fin
    by (simp add: e_def[symmetric] max_absorb1 ulp_def[symmetric] m_def[symmetric] r_def[symmetric])
  then show ?thesis using rel that by blast
qed

lemma floor_rat_numeral_div:
  "\<lfloor>numeral a / numeral b :: rat\<rfloor> = numeral a div numeral b"
  using floor_divide_of_int_eq[of "numeral a" "numeral b", where ?'a = rat] by simp

lemma ceiling_rat_numeral_div:
  "\<lceil>- (numeral a / numeral b) :: rat\<rceil> = - (numeral a div numeral b)"
  using floor_rat_numeral_div[of a b] by (simp add: ceiling_def)

lemma round_double_0 [simp]: "round_double 0 = Fin 0"
  by (simp add: round_double_def)

section \<open>Properties of the allocator's steps\<close>

lemma map_err_Inr:
  "map_err f xs = Inr ys \<Longrightarrow> list_all2 (\<lambda>x y. f x = Inr y) xs ys"
  by (induction xs arbitrary: ys) (auto split: sum.splits)

lemma map_err_total:
  "(\<And>x. x \<in> set xs \<Longrightarrow> f x = Inr (g x)) \<Longrightarrow> map_err f xs = Inr (map g xs)"
  by (induction xs) auto

lemma map_err_Inl:
  "x \<in> set xs \<Longrightarrow> f x = Inl e \<Longrightarrow> \<exists>e'. map_err f xs = Inl e'"
  by (induction xs) (auto split: sum.splits)

lemma map_of_dict_incr:
  "map_of (dict_incr d k) k' = map_option (\<lambda>v. if k' = k then v + 1 else v) (map_of d k')"
  by (induction d) (auto simp: dict_incr_def)

lemma keys_dict_incr [simp]: "map fst (dict_incr d k) = map fst d"
  by (induction d) (auto simp: dict_incr_def)

lemma sum_dict_incr:
  "distinct (map fst d) \<Longrightarrow> k \<in> set (map fst d) \<Longrightarrow>
   sum_list (map snd (dict_incr d k)) = sum_list (map snd d) + 1"
proof (induction d)
  case Nil
  then show ?case by simp
next
  case (Cons a d)
  obtain k' v where a: "a = (k', v)" by (cases a)
  show ?case
  proof (cases "k' = k")
    case True
    then have "k \<notin> set (map fst d)" using Cons.prems(1) a by simp
    then have "dict_incr d k = d" unfolding dict_incr_def by (induction d) auto
    then show ?thesis using True a by (simp add: dict_incr_def)
  next
    case False
    then have "sum_list (map snd (dict_incr d k)) = sum_list (map snd d) + 1"
      using Cons a by simp
    then show ?thesis using False a by (simp add: dict_incr_def)
  qed
qed

lemma keys_award [simp]: "map fst (award d r ks) = map fst d"
  by (induction d r ks rule: award.induct) auto

lemma sum_award:
  "distinct (map fst d) \<Longrightarrow> set ks \<subseteq> set (map fst d) \<Longrightarrow>
   sum_list (map snd (award d r ks)) = sum_list (map snd d) + min (max r 0) (int (length ks))"
proof (induction d r ks rule: award.induct)
  case (1 rounded remainder)
  then show ?case by simp
next
  case (2 rounded remainder outcome rest)
  show ?case
  proof (cases "remainder \<le> 0")
    case True
    then show ?thesis by simp
  next
    case False
    have "sum_list (map snd (award (dict_incr rounded outcome) (remainder - 1) rest)) =
          sum_list (map snd (dict_incr rounded outcome)) + min (max (remainder - 1) 0) (int (length rest))"
      using 2 False by simp
    also have "sum_list (map snd (dict_incr rounded outcome)) = sum_list (map snd rounded) + 1"
      using 2(2,3) by (intro sum_dict_incr) auto
    finally show ?thesis using False by simp
  qed
qed

lemma map_of_award:
  "distinct ks \<Longrightarrow>
   map_of (award d r ks) k =
     map_option (\<lambda>v. if k \<in> set (take (nat r) ks) then v + 1 else v) (map_of d k)"
proof (induction d r ks rule: award.induct)
  case (1 rounded remainder)
  then show ?case by (simp add: option.map_ident)
next
  case (2 rounded remainder outcome rest)
  show ?case
  proof (cases "remainder \<le> 0")
    case True
    then show ?thesis by (simp add: option.map_ident)
  next
    case False
    then have t: "take (nat remainder) (outcome # rest) = outcome # take (nat (remainder - 1)) rest"
      by (simp add: take_Cons' nat_diff_distrib)
    have notin: "outcome \<notin> set (take (nat (remainder - 1)) rest)"
      using 2(2) by (auto dest: in_set_takeD)
    have "map_of (award (dict_incr rounded outcome) (remainder - 1) rest) k =
          map_option (\<lambda>v. if k \<in> set (take (nat (remainder - 1)) rest) then v + 1 else v)
            (map_of (dict_incr rounded outcome) k)"
      using 2 False by simp
    then show ?thesis using False notin
      unfolding t by (auto simp: map_of_dict_incr option.map_comp comp_def intro!: option.map_cong)
  qed
qed

lemma award_eq_map:
  "distinct ks \<Longrightarrow>
   award d r ks = map (\<lambda>(k, v). (k, if k \<in> set (take (nat r) ks) then v + 1 else v)) d"
proof (induction d r ks rule: award.induct)
  case (1 rounded remainder)
  have "map (\<lambda>(k, v). (k, v)) rounded = rounded" by (induction rounded) auto
  then show ?case by simp
next
  case (2 rounded remainder outcome rest)
  have idm: "map (\<lambda>(k, v). (k, v)) rounded = rounded" by (induction rounded) auto
  show ?case
  proof (cases "remainder \<le> 0")
    case True
    then show ?thesis using idm by simp
  next
    case False
    then have t: "take (nat remainder) (outcome # rest) = outcome # take (nat (remainder - 1)) rest"
      by (simp add: take_Cons' nat_diff_distrib)
    have notin: "outcome \<notin> set (take (nat (remainder - 1)) rest)"
      using 2(2) by (auto dest: in_set_takeD)
    have "award (dict_incr rounded outcome) (remainder - 1) rest =
          map (\<lambda>(k, v). (k, if k \<in> set (take (nat (remainder - 1)) rest) then v + 1 else v))
            (dict_incr rounded outcome)"
      using 2 False by simp
    also have "\<dots> = map (\<lambda>(k, v). (k, if k \<in> set (outcome # take (nat (remainder - 1)) rest)
                                          then v + 1 else v)) rounded"
      unfolding dict_incr_def using notin by (induction rounded) auto
    finally show ?thesis using False unfolding t by simp
  qed
qed

lemma ranking_mset: "mset (ranking d) = mset (map fst d)"
  by (simp add: ranking_def)

lemma ranking_set: "set (ranking d) = set (map fst d)"
  using ranking_mset[of d] by (metis set_mset_mset)

lemma ranking_length: "length (ranking d) = length d"
  using ranking_mset[of d] by (metis length_map size_mset)

lemma ranking_distinct: "distinct (map fst d) \<Longrightarrow> distinct (ranking d)"
  using ranking_mset[of d] by (metis distinct_count_atmost_1 count_mset_0_iff mset_eq_setD)

lemma list_all2_keys:
  "list_all2 (\<lambda>x y. fst y = fst x) xs ys \<Longrightarrow> map fst ys = map fst xs"
  by (induction rule: list_all2_induct) auto

lemma inverse_odds_keys: "inverse_odds od = Inr ws \<Longrightarrow> map fst ws = map fst od"
  unfolding inverse_odds_def
  by (drule map_err_Inr, rule list_all2_keys, erule list_all2_mono) (auto split: sum.splits)

lemma ideal_stakes_keys: "ideal_stakes sm ws S = Inr ideal \<Longrightarrow> map fst ideal = map fst ws"
  unfolding ideal_stakes_def Let_def
  by (drule map_err_Inr, rule list_all2_keys, erule list_all2_mono) (auto split: sum.splits)

lemma rounded_stakes_keys: "rounded_stakes ideal = Inr rs \<Longrightarrow> map fst rs = map fst ideal"
  unfolding rounded_stakes_def
  by (drule map_err_Inr, rule list_all2_keys, erule list_all2_mono) (auto split: sum.splits)

lemma stake_diffs_keys: "stake_diffs ideal rs = Inr ds \<Longrightarrow> map fst ds = map fst rs"
  unfolding stake_diffs_def
  by (drule map_err_Inr, rule list_all2_keys, erule list_all2_mono) (auto split: sum.splits)

lemma adjust_stakes_keys: "adjust_stakes ideal rs S = Inr fin \<Longrightarrow> map fst fin = map fst rs"
  unfolding adjust_stakes_def Let_def by (auto split: if_splits sum.splits)

lemma adjust_stakes_sum:
  assumes "distinct (map fst rs)" "adjust_stakes ideal rs S = Inr fin"
  shows "sum_list (map snd fin) =
         sum_list (map snd rs) + min (max (remainder_of rs S) 0) (int (length rs))"
proof (cases "0 < remainder_of rs S")
  case True
  then obtain ds where ds: "stake_diffs ideal rs = Inr ds"
    and fin: "fin = award rs (remainder_of rs S) (ranking ds)"
    using assms(2) unfolding adjust_stakes_def Let_def by (auto split: sum.splits)
  have k: "map fst ds = map fst rs" using ds by (rule stake_diffs_keys)
  have "set (ranking ds) \<subseteq> set (map fst rs)" using ranking_set[of ds] k by simp
  moreover have "length (ranking ds) = length rs" using ranking_length[of ds] k
    by (metis length_map)
  ultimately show ?thesis using sum_award[OF assms(1), of "ranking ds" "remainder_of rs S"] fin
    by simp
next
  case False
  then have "fin = rs" using assms(2) unfolding adjust_stakes_def Let_def by simp
  then show ?thesis using False by simp
qed

lemma adjust_stakes_lookup:
  assumes "distinct (map fst rs)" "adjust_stakes ideal rs S = Inr fin" "map_of rs k = Some v"
  shows "map_of fin k = Some v \<or> map_of fin k = Some (v + 1)"
proof (cases "0 < remainder_of rs S")
  case True
  then obtain ds where ds: "stake_diffs ideal rs = Inr ds"
    and fin: "fin = award rs (remainder_of rs S) (ranking ds)"
    using assms(2) unfolding adjust_stakes_def Let_def by (auto split: sum.splits)
  have "distinct (ranking ds)" using stake_diffs_keys[OF ds] assms(1) by (simp add: ranking_distinct)
  then show ?thesis unfolding fin using assms(3) by (simp add: map_of_award)
next
  case False
  then have "fin = rs" using assms(2) unfolding adjust_stakes_def Let_def by simp
  then show ?thesis using assms(3) by simp
qed

lemma profits_rows:
  "profits od fin S = Inr res \<Longrightarrow>
   list_all2 (\<lambda>(k, (b, p)) (k', (b', p', stake, pr)).
                k' = k \<and> b' = b \<and> p' = p \<and> map_of fin k = Some stake) od res"
  unfolding profits_def
  by (drule map_err_Inr, erule list_all2_mono)
     (auto simp: dict_get_def split: sum.splits option.splits)

lemma map_of_keys_values:
  "distinct (map fst d) \<Longrightarrow> list_all2 (\<lambda>k v. map_of d k = Some v) (map fst d) (map snd d)"
proof (induction d)
  case Nil
  then show ?case by simp
next
  case (Cons a d)
  have "list_all2 (\<lambda>k v. map_of d k = Some v) (map fst d) (map snd d)" using Cons by simp
  then have "list_all2 (\<lambda>k v. map_of (a # d) k = Some v) (map fst d) (map snd d)"
    by (rule list.rel_mono_strong) (use Cons.prems in \<open>auto simp: image_iff\<close>)
  then show ?case by (cases a) simp
qed

lemma list_all2_right_unique:
  assumes "list_all2 R xs ys" "list_all2 R xs zs" "\<And>x y z. R x y \<Longrightarrow> R x z \<Longrightarrow> y = z"
  shows "ys = zs"
proof (rule nth_equalityI)
  show len: "length ys = length zs"
    using assms(1,2) by (simp add: list_all2_lengthD[symmetric])
  fix i assume i: "i < length ys"
  then have "R (xs ! i) (ys ! i)" using assms(1) by (simp add: list_all2_conv_all_nth)
  moreover have "R (xs ! i) (zs ! i)" using assms(2) i len by (simp add: list_all2_conv_all_nth)
  ultimately show "ys ! i = zs ! i" by (rule assms(3))
qed

lemma stakes_of_profits:
  assumes "distinct (map fst od)" "map fst fin = map fst od" "profits od fin S = Inr res"
  shows "stakes_of res = map snd fin"
proof -
  have "list_all2 (\<lambda>(k, (b, p)) (k', (b', p', stake, pr)).
                k' = k \<and> b' = b \<and> p' = p \<and> map_of fin k = Some stake) od res"
    using assms(3) by (rule profits_rows)
  then have "list_all2 (\<lambda>k stake. map_of fin k = Some stake) (map fst od) (stakes_of res)"
    unfolding stakes_of_def list_all2_map1 list_all2_map2
    by (rule list_all2_mono) auto
  moreover have "list_all2 (\<lambda>k v. map_of fin k = Some v) (map fst od) (map snd fin)"
    using map_of_keys_values[of fin] assms(1,2) by simp
  ultimately show ?thesis by (rule list_all2_right_unique) simp
qed

lemma profits_keys: "profits od fin S = Inr res \<Longrightarrow> map fst res = map fst od"
  by (drule profits_rows, rule list_all2_keys, erule list_all2_mono) auto

lemma final_stakes_cases:
  assumes "final_stakes sm od S = Inr fin"
  obtains ws ideal rs where "inverse_odds od = Inr ws" "ideal_stakes sm ws S = Inr ideal"
    "rounded_stakes ideal = Inr rs" "adjust_stakes ideal rs S = Inr fin"
  using assms unfolding final_stakes_def by (auto split: sum.splits)

lemma calculate_stakes_cases:
  assumes "calculate_stakes sm od S = Inr res"
  obtains fin where "final_stakes sm od S = Inr fin" "profits od fin S = Inr res"
  using assms unfolding calculate_stakes_def by (auto split: sum.splits)

lemma calculate_stakes_sum:
  assumes "distinct (map fst od)"
    and "inverse_odds od = Inr ws" "ideal_stakes sm ws S = Inr ideal" "rounded_stakes ideal = Inr rs"
    and "calculate_stakes sm od S = Inr res"
  shows "sum_list (stakes_of res) =
         S - remainder_of rs S + min (max (remainder_of rs S) 0) (int (length od))"
proof -
  obtain fin where fin: "final_stakes sm od S = Inr fin" and res: "profits od fin S = Inr res"
    using assms(5) by (rule calculate_stakes_cases)
  have adj: "adjust_stakes ideal rs S = Inr fin"
    using fin assms(2-4) unfolding final_stakes_def by simp
  have k: "map fst rs = map fst od"
    using inverse_odds_keys[OF assms(2)] ideal_stakes_keys[OF assms(3)]
      rounded_stakes_keys[OF assms(4)] by simp
  then have d: "distinct (map fst rs)" using assms(1) by simp
  have kf: "map fst fin = map fst od" using adjust_stakes_keys[OF adj] k by simp
  have len: "length rs = length od" using k by (metis length_map)
  have "sum_list (stakes_of res) = sum_list (map snd fin)"
    using stakes_of_profits[OF assms(1) kf res] by simp
  also have "\<dots> = sum_list (map snd rs) + min (max (remainder_of rs S) 0) (int (length rs))"
    using d adj by (rule adjust_stakes_sum)
  finally show ?thesis unfolding len by (simp add: remainder_of_def)
qed

section \<open>Signs of the computed floats\<close>

lemma round_half_even_nonneg: "0 \<le> q \<Longrightarrow> 0 \<le> round_half_even q"
  unfolding round_half_even_def Let_def by (auto simp: zero_le_floor)

lemma round_double_nonneg: "0 \<le> x \<Longrightarrow> py_nonneg (round_double x)"
proof (cases "x = 0")
  case True
  then show ?thesis by (simp add: round_double_def py_nonneg_def)
next
  case False
  assume "0 \<le> x"
  with False have x: "0 < x" by simp
  have "0 \<le> round_half_even (x / 2 powi (max (ilog2 x) (- 1022) - 52))"
    using x by (intro round_half_even_nonneg) simp
  then show ?thesis unfolding round_double_pos[OF x] Let_def
    by (simp add: py_nonneg_def)
qed

lemma py_add_nonneg: "py_nonneg a \<Longrightarrow> py_nonneg b \<Longrightarrow> py_nonneg (py_add a b)"
  by (cases a; cases b) (auto simp: py_nonneg_def[of "Fin _"] py_nonneg_def[of PInf] py_nonneg_def[of NInf]
      py_nonneg_def[of NaN] intro: round_double_nonneg)

lemma py_sum_nonneg_aux:
  "py_nonneg a \<Longrightarrow> \<forall>w \<in> set ws. py_nonneg w \<Longrightarrow> py_nonneg (foldl py_add a ws)"
  by (induction ws arbitrary: a) (auto intro: py_add_nonneg)

section \<open>Rounding of small numbers\<close>

lemma round_double_subnormal:
  assumes "0 < x" "x < 2 powi (- 1022)"
  obtains r where "round_double x = Fin r" "0 \<le> r" "\<bar>r - x\<bar> \<le> 2 powi (- 1075)"
proof -
  have e: "max (ilog2 x) (- 1022) = - 1022"
  proof (rule exponent_cert[OF assms(1)])
    have "(2::rat) powi (- 1022) \<le> 2 powi (- 1022 + 1)" unfolding powi2_le_iff by simp
    with assms(2) show "x < 2 powi (- 1022 + 1)" by linarith
  qed simp_all
  define ulp :: rat where "ulp = 2 powi (- 1022 - 52)"
  have ulp0: "0 < ulp" by (simp add: ulp_def)
  define m where "m = round_half_even (x / ulp)"
  define r where "r = of_int m * ulp"
  have m0: "0 \<le> m" unfolding m_def using assms(1) ulp0 by (intro round_half_even_nonneg) simp
  have "\<bar>of_int m - x / ulp\<bar> \<le> 1 / 2" unfolding m_def by (rule round_half_even_bounds)
  then have "\<bar>of_int m - x / ulp\<bar> * ulp \<le> 1 / 2 * ulp"
    using ulp0 by (intro mult_right_mono) simp_all
  moreover have "\<bar>of_int m - x / ulp\<bar> * ulp = \<bar>r - x\<bar>"
  proof -
    have "\<bar>of_int m - x / ulp\<bar> * ulp = \<bar>(of_int m - x / ulp) * ulp\<bar>"
      using ulp0 by (simp add: abs_mult)
    also have "(of_int m - x / ulp) * ulp = r - x"
      using ulp0 by (simp add: r_def field_simps)
    finally show ?thesis .
  qed
  ultimately have d: "\<bar>r - x\<bar> \<le> ulp / 2" by simp
  have half: "ulp / 2 = 2 powi (- 1075)"
  proof -
    have "(2::rat) powi (- 1022 - 52) = 2 powi (- 1075 + 1)" by simp
    also have "\<dots> = 2 powi (- 1075) * 2 powi 1" by (rule powi2_add)
    finally show ?thesis by (simp add: ulp_def)
  qed
  have "(2::rat) powi (- 1075) \<le> 2 powi 0" unfolding powi2_le_iff by simp
  then have small: "(2::rat) powi (- 1075) \<le> 1" by simp
  have "(2::rat) powi (- 1022) \<le> 2 powi 0" unfolding powi2_le_iff by simp
  then have "x < 1" using assms(2) by simp
  then have "r < 2" using d half small by linarith
  also have "(2::rat) \<le> 2 powi 1024" by simp
  finally have fin: "r < 2 powi 1024" .
  have nle: "\<not> 2 powi 1024 \<le> r" using fin by (simp only: not_le)
  have "round_double x = (if 2 powi 1024 \<le> r then PInf else Fin r)"
    unfolding round_double_pos[OF assms(1)] Let_def e r_def m_def ulp_def ..
  then have "round_double x = Fin r" by (simp only: nle if_False)
  moreover have "0 \<le> r" unfolding r_def using m0 ulp0 by simp
  ultimately show ?thesis using d half that by simp
qed

lemma round_double_unit_interval:
  assumes "0 < x" "x < 1"
  obtains r where "round_double x = Fin r" "0 \<le> r" "\<bar>r - x\<bar> \<le> 1 / 2 ^ 53"
proof (cases "2 powi (- 1022) \<le> x")
  case True
  have "(1::rat) \<le> 2 powi 1023" by simp
  then have "x \<le> 2 powi 1023" using assms(2) by linarith
  with True obtain r where r: "round_double x = Fin r" "\<bar>r - x\<bar> \<le> x / 2 ^ 53"
    by (rule round_double_normal)
  have "x / 2 ^ 53 \<le> 1 / 2 ^ 53" using assms(2) by (intro divide_right_mono) simp_all
  then have b: "\<bar>r - x\<bar> \<le> 1 / 2 ^ 53" using r(2) by linarith
  have "py_nonneg (round_double x)" using assms(1) by (intro round_double_nonneg) simp
  then have "0 \<le> r" using r(1) by (simp add: py_nonneg_def)
  then show ?thesis using r(1) b that by blast
next
  case False
  then have "x < 2 powi (- 1022)" by simp
  with assms(1) obtain r where r: "round_double x = Fin r" "0 \<le> r" "\<bar>r - x\<bar> \<le> 2 powi (- 1075)"
    by (rule round_double_subnormal)
  have "(2::rat) powi (- 1075) \<le> 2 powi (- 53)" unfolding powi2_le_iff by simp
  also have "(2::rat) powi (- 53) = 1 / 2 ^ 53" by (simp add: power_int_minus field_simps)
  finally have "\<bar>r - x\<bar> \<le> 1 / 2 ^ 53" using r(3) by linarith
  then show ?thesis using r(1,2) that by blast
qed

section \<open>Rounding error of the allocator's arithmetic\<close>

lemma bernoulli_lower:
  fixes u :: rat
  assumes "0 \<le> u" "u \<le> 1"
  shows "1 - of_nat n * u \<le> (1 - u) ^ n"
proof (induction n)
  case 0
  then show ?case by simp
next
  case (Suc n)
  have "1 - of_nat (Suc n) * u \<le> (1 - u) * (1 - of_nat n * u)"
  proof -
    have "(1 - u) * (1 - of_nat n * u) = 1 - of_nat (Suc n) * u + of_nat n * (u * u)"
      by (simp add: algebra_simps)
    moreover have "0 \<le> of_nat n * (u * u)" using assms(1) by simp
    ultimately show ?thesis by linarith
  qed
  also have "\<dots> \<le> (1 - u) * (1 - u) ^ n"
    using Suc assms(2) by (intro mult_left_mono) simp_all
  finally show ?case by simp
qed

lemma power_upper:
  fixes u :: rat
  assumes "0 \<le> u" "of_nat n * u < 1"
  shows "(1 + u) ^ n \<le> 1 / (1 - of_nat n * u)"
proof (cases "n = 0")
  case True
  then show ?thesis by simp
next
  case False
  then have "u \<le> of_nat n * u" using assms(1) by (simp add: mult_le_cancel_right1)
  then have u1: "u \<le> 1" using assms(2) by linarith
  have pos: "0 < 1 - of_nat n * u" using assms(2) by simp
  have low: "1 - of_nat n * u \<le> (1 - u) ^ n" using assms(1) u1 by (rule bernoulli_lower)
  then have p1: "0 < (1 - u) ^ n" using pos by linarith
  have "(1 + u) ^ n * (1 - u) ^ n = ((1 + u) * (1 - u)) ^ n" by (simp add: power_mult_distrib)
  also have "(1 + u) * (1 - u) = 1 - u * u" by (simp add: algebra_simps)
  also have "(1 - u * u) ^ n \<le> 1"
    using assms(1) u1 by (intro power_le_one) (simp_all add: mult_le_one)
  finally have "(1 + u) ^ n * (1 - u) ^ n \<le> 1" .
  then have "(1 + u) ^ n \<le> 1 / (1 - u) ^ n" using p1 by (simp add: pos_le_divide_eq)
  also have "\<dots> \<le> 1 / (1 - of_nat n * u)" using low pos by (intro divide_left_mono) simp_all
  finally show ?thesis .
qed

lemma round_double_rel:
  assumes "2 powi (- 1022) \<le> x" "x \<le> 2 powi 1023"
  obtains r where "round_double x = Fin r"
    "x * (1 - unit_roundoff) \<le> r" "r \<le> x * (1 + unit_roundoff)"
proof -
  obtain r where r: "round_double x = Fin r" "\<bar>r - x\<bar> \<le> x / 2 ^ 53"
    using assms by (rule round_double_normal)
  define d where "d = x / 2 ^ 53"
  have "x * (1 - unit_roundoff) = x - d" "x * (1 + unit_roundoff) = x + d"
    by (simp_all add: unit_roundoff_def d_def algebra_simps)
  moreover have "r - x \<le> d" "- (r - x) \<le> d"
    using r(2) unfolding d_def abs_le_iff by blast+
  ultimately have "x * (1 - unit_roundoff) \<le> r" "r \<le> x * (1 + unit_roundoff)"
    by simp_all
  then show ?thesis using r(1) that by blast
qed

lemma unit_roundoff_pos: "0 < unit_roundoff" and unit_roundoff_small: "unit_roundoff \<le> 1 / 2"
  by (simp_all add: unit_roundoff_def)

lemma rdv_rel:
  assumes "2 powi (- 1022) \<le> x" "x \<le> 2 powi 1023"
  shows "round_double x = Fin (rdv x)"
    and "x * (1 - unit_roundoff) \<le> rdv x" and "rdv x \<le> x * (1 + unit_roundoff)"
proof -
  obtain r where r: "round_double x = Fin r"
    "x * (1 - unit_roundoff) \<le> r" "r \<le> x * (1 + unit_roundoff)"
    using assms by (rule round_double_rel)
  then have "rdv x = r" by (simp add: rdv_def)
  with r show "round_double x = Fin (rdv x)"
    and "x * (1 - unit_roundoff) \<le> rdv x" and "rdv x \<le> x * (1 + unit_roundoff)"
    by simp_all
qed

lemma powi2_le: "a \<le> b \<Longrightarrow> (2::rat) powi a \<le> 2 powi b"
  by (simp only: powi2_le_iff)

lemma powi2_double: "(2::rat) * 2 powi a = 2 powi (a + 1)"
  by (simp add: powi2_succ)

lemma powi2_half: "(2::rat) powi a / 2 = 2 powi (a - 1)"
  using powi2_succ[of "a - 1"] by simp

lemma powi2_inverse: "1 / (2::rat) powi a = 2 powi (- a)"
  by (simp add: power_int_minus field_simps)

lemma weight_bounds:
  assumes "2 powi (- e) \<le> p" "p \<le> 2 powi e" "0 \<le> e" "e \<le> 1021"
  shows "round_double (1 / p) = Fin (rdv (1 / p))"
    and "2 powi (- e - 1) \<le> rdv (1 / p)" and "rdv (1 / p) \<le> 2 powi (e + 1)"
proof -
  have p0: "0 < p" using assms(1) powi2_pos[of "- e"] by linarith
  then have ip0: "0 \<le> 1 / p" by simp
  have lo: "2 powi (- e) \<le> 1 / p"
  proof -
    have "1 / (2::rat) powi e \<le> 1 / p" using assms(2) p0 by (intro divide_left_mono) simp_all
    then show ?thesis unfolding powi2_inverse .
  qed
  have hi: "1 / p \<le> 2 powi e"
  proof -
    have "1 / p \<le> 1 / (2::rat) powi (- e)"
      using assms(1) p0 by (intro divide_left_mono) simp_all
    then show ?thesis unfolding powi2_inverse by simp
  qed
  have n1: "(2::rat) powi (- 1022) \<le> 1 / p"
    using lo powi2_le[of "- 1022" "- e"] assms(4) by linarith
  have n2: "1 / p \<le> (2::rat) powi 1023"
    using hi powi2_le[of e 1023] assms(4) by linarith
  show "round_double (1 / p) = Fin (rdv (1 / p))" using n1 n2 by (rule rdv_rel)
  have u1: "1 / 2 \<le> 1 - unit_roundoff" "1 + unit_roundoff \<le> 2" "0 \<le> 1 + unit_roundoff"
    using unit_roundoff_small unit_roundoff_pos by linarith+
  have "1 / p * (1 - unit_roundoff) \<le> rdv (1 / p)" using n1 n2 by (rule rdv_rel)
  moreover have "2 powi (- e) * (1 / 2) \<le> 1 / p * (1 - unit_roundoff)"
    using lo u1(1) ip0 by (intro mult_mono) simp_all
  moreover have "(2::rat) powi (- e) * (1 / 2) = 2 powi (- e - 1)"
    using powi2_half[of "- e"] by simp
  ultimately show "2 powi (- e - 1) \<le> rdv (1 / p)" by linarith
  have "rdv (1 / p) \<le> 1 / p * (1 + unit_roundoff)" using n1 n2 by (rule rdv_rel)
  moreover have "1 / p * (1 + unit_roundoff) \<le> 2 powi e * 2"
    using hi u1(2,3) ip0 by (intro mult_mono) simp_all
  moreover have "(2::rat) powi e * 2 = 2 powi (e + 1)"
    using powi2_double[of e] by (simp add: mult.commute)
  ultimately show "rdv (1 / p) \<le> 2 powi (e + 1)" by linarith
qed

lemma roundoff_count:
  assumes "k \<le> 2 ^ 50"
  shows "of_nat k * unit_roundoff \<le> 1 / 8"
proof -
  have "(of_nat k :: rat) \<le> of_nat (2 ^ 50)" using assms by (simp only: of_nat_le_iff)
  then have "(of_nat k :: rat) \<le> 2 ^ 50" by simp
  then have "of_nat k * unit_roundoff \<le> 2 ^ 50 * unit_roundoff"
    using unit_roundoff_pos by (intro mult_right_mono) simp_all
  also have "\<dots> = 1 / 8" by (simp add: unit_roundoff_def)
  finally show ?thesis .
qed

lemma power_up_bounds:
  assumes "k \<le> 2 ^ 50"
  shows "1 \<le> (1 + unit_roundoff) ^ k" and "(1 + unit_roundoff) ^ k \<le> 2"
proof -
  show "1 \<le> (1 + unit_roundoff) ^ k" using unit_roundoff_pos by (intro one_le_power) simp
  have c: "of_nat k * unit_roundoff \<le> 1 / 8" using assms by (rule roundoff_count)
  then have "(1 + unit_roundoff) ^ k \<le> 1 / (1 - of_nat k * unit_roundoff)"
    using unit_roundoff_pos by (intro power_upper) simp_all
  also have "\<dots> \<le> 1 / (7 / 8)" using c by (intro divide_left_mono) simp_all
  also have "\<dots> \<le> 2" by simp
  finally show "(1 + unit_roundoff) ^ k \<le> 2" .
qed

lemma power_down_bounds:
  shows "0 \<le> (1 - unit_roundoff) ^ k" and "(1 - unit_roundoff) ^ k \<le> 1"
proof -
  have "0 \<le> 1 - unit_roundoff" "1 - unit_roundoff \<le> 1"
    using unit_roundoff_small unit_roundoff_pos by linarith+
  then show "0 \<le> (1 - unit_roundoff) ^ k" and "(1 - unit_roundoff) ^ k \<le> 1"
    by (simp_all add: power_le_one)
qed

lemma sum_list_bounded:
  fixes ws :: "rat list"
  assumes "\<forall>w \<in> set ws. lo \<le> w \<and> w \<le> hi"
  shows "of_nat (length ws) * lo \<le> sum_list ws" and "sum_list ws \<le> of_nat (length ws) * hi"
  using assms by (induction ws) (auto simp: algebra_simps)

section \<open>Floats as dyadic numbers\<close>

lemma round_half_even_of_int [simp]: "round_half_even (of_int m) = m"
  by (rule round_half_even_unique) simp

lemma powi2_nat: "0 \<le> d \<Longrightarrow> (2::rat) powi d = of_int (2 ^ nat d)"
  by (simp add: power_int_def)

lemma dyadic_exact:
  assumes x: "x = of_int k * 2 powi j" and k: "0 < k" "k < 2 ^ 53" and j: "- 1074 \<le> j"
    and fin: "x < 2 powi 1024"
  shows "round_double x = Fin x"
proof -
  have x0: "0 < x" unfolding x using k(1) by simp
  define E where "E = max (ilog2 x) (- 1022)"
  have "x < of_int (2 ^ 53) * 2 powi j"
    unfolding x using k(2) by (intro mult_strict_right_mono) (simp_all only: of_int_less_iff powi2_pos)
  also have "(of_int (2 ^ 53) :: rat) = 2 powi 53" by simp
  also have "(2::rat) powi 53 * 2 powi j = 2 powi (53 + j)" by (rule powi2_add[symmetric])
  finally have xu: "x < 2 powi (53 + j)" .
  have "2 powi (ilog2 x) \<le> x" using ilog2_bounds[OF x0] by simp
  then have "(2::rat) powi (ilog2 x) < 2 powi (53 + j)" using xu by linarith
  then have "ilog2 x < 53 + j" by (simp only: powi2_less_iff)
  then have Ej: "E \<le> j + 52" unfolding E_def using j by simp
  define d where "d = j + 52 - E"
  have d0: "0 \<le> d" unfolding d_def using Ej by simp
  have "x / 2 powi (E - 52) = of_int k * (2 powi j / 2 powi (E - 52))" unfolding x by simp
  also have "(2::rat) powi j / 2 powi (E - 52) = 2 powi d"
  proof -
    have e: "j = d + (E - 52)" unfolding d_def by simp
    have "(2::rat) powi j = 2 powi (d + (E - 52))" by (rule arg_cong[OF e])
    also have "\<dots> = 2 powi d * 2 powi (E - 52)" by (rule powi2_add)
    finally show ?thesis by simp
  qed
  also have "(2::rat) powi d = of_int (2 ^ nat d)" using d0 by (rule powi2_nat)
  finally have q: "x / 2 powi (E - 52) = of_int (k * 2 ^ nat d)" by simp
  have rt: "of_int (k * 2 ^ nat d) * 2 powi (E - 52) = x"
  proof -
    have "of_int (k * 2 ^ nat d) * 2 powi (E - 52) = x / 2 powi (E - 52) * 2 powi (E - 52)"
      by (simp only: q)
    then show ?thesis by simp
  qed
  have nle: "\<not> 2 powi 1024 \<le> x" using fin by (simp only: not_le)
  have "round_double x =
      (if (2::rat) powi 1024 \<le> of_int (round_half_even (x / 2 powi (E - 52))) * 2 powi (E - 52) then PInf
       else Fin (of_int (round_half_even (x / 2 powi (E - 52))) * 2 powi (E - 52)))"
    unfolding round_double_pos[OF x0] Let_def E_def ..
  also have "\<dots> = (if 2 powi 1024 \<le> x then PInf else Fin x)"
    unfolding q round_half_even_of_int rt ..
  finally show ?thesis by (simp only: nle if_False)
qed

lemma round_double_int_exact:
  assumes "0 \<le> n" "n \<le> 2 ^ 53"
  shows "round_double (of_int n) = Fin (of_int n)"
proof -
  consider "n = 0" | "0 < n" "n < 2 ^ 53" | "n = 2 ^ 53" using assms by linarith
  then show ?thesis
  proof cases
    case 1
    then show ?thesis by simp
  next
    case 2
    have "(of_int n :: rat) < of_int (2 ^ 53)" using 2(2) by (simp only: of_int_less_iff)
    also have "(of_int (2 ^ 53) :: rat) \<le> 2 powi 1024" by simp
    finally have "(of_int n :: rat) < 2 powi 1024" .
    then show ?thesis using 2 by (intro dyadic_exact[where k = n and j = 0]) simp_all
  next
    case 3
    have "round_double (2 powi 53) = Fin (2 powi 53)"
      by (rule dyadic_exact[where k = 1 and j = 53]) (simp_all only: of_int_1 mult_1, simp_all add: powi2_less_iff)
    then show ?thesis unfolding 3 by simp
  qed
qed

lemma round_double_is_dyadic:
  assumes "0 < x" "round_double x = Fin r"
  shows "r < 2 powi 1024"
    and "r = 0 \<or> (\<exists>k j. r = of_int k * 2 powi j \<and> 0 < k \<and> k < 2 ^ 53 \<and> - 1074 \<le> j)"
proof -
  define E where "E = max (ilog2 x) (- 1022)"
  define ulp :: rat where "ulp = 2 powi (E - 52)"
  define m where "m = round_half_even (x / ulp)"
  have ulp0: "0 < ulp" by (simp add: ulp_def)
  have rd: "round_double x = (if 2 powi 1024 \<le> of_int m * ulp then PInf else Fin (of_int m * ulp))"
    unfolding round_double_pos[OF assms(1)] Let_def E_def ulp_def m_def ..
  have nle: "\<not> 2 powi 1024 \<le> of_int m * ulp" and r: "r = of_int m * ulp"
    using rd assms(2) by (auto split: if_splits)
  show "r < 2 powi 1024" using nle r by simp
  have m0: "0 \<le> m" unfolding m_def using assms(1) ulp0 by (intro round_half_even_nonneg) simp
  have E1: "- 1022 \<le> E" "ilog2 x \<le> E" unfolding E_def by simp_all
  have "x < 2 powi (ilog2 x + 1)" using ilog2_bounds[OF assms(1)] by simp
  also have "\<dots> \<le> 2 powi (E + 1)" using E1(2) by (intro powi2_le) simp
  also have "(2::rat) powi (E + 1) = 2 powi (53 + (E - 52))"
    by (rule arg_cong[where f = "\<lambda>i. 2 powi i"]) simp
  also have "\<dots> = 2 powi 53 * ulp" unfolding ulp_def by (rule powi2_add)
  finally have "x / ulp < 2 powi 53" using ulp0 by (simp add: pos_divide_less_eq)
  then have q53: "x / ulp < 2 ^ 53" by simp
  have "\<bar>of_int m - x / ulp\<bar> \<le> 1 / 2" unfolding m_def by (rule round_half_even_bounds)
  then have "(of_int m :: rat) < 2 ^ 53 + 1" using q53 by linarith
  then have "(of_int m :: rat) < of_int (2 ^ 53 + 1)" by simp
  then have "m < 2 ^ 53 + 1" by (simp only: of_int_less_iff)
  then have m53: "m \<le> 2 ^ 53" by simp
  consider "m = 0" | "0 < m" "m < 2 ^ 53" | "m = 2 ^ 53" using m0 m53 by linarith
  then show "r = 0 \<or> (\<exists>k j. r = of_int k * 2 powi j \<and> 0 < k \<and> k < 2 ^ 53 \<and> - 1074 \<le> j)"
  proof cases
    case 1
    then show ?thesis using r by simp
  next
    case 2
    have "- 1074 \<le> E - 52" using E1(1) by simp
    then show ?thesis using 2 r unfolding ulp_def by blast
  next
    case 3
    have "r = 2 powi 53 * 2 powi (E - 52)" unfolding r 3 ulp_def by simp
    also have "\<dots> = 2 powi (53 + (E - 52))" by (rule powi2_add[symmetric])
    also have "\<dots> = 2 powi (E + 1)" by (rule arg_cong[where f = "\<lambda>i. 2 powi i"]) simp
    finally have "r = of_int 1 * 2 powi (E + 1)" by simp
    moreover have "- 1074 \<le> E + 1" using E1(1) by simp
    moreover have "(0::int) < 1" "(1::int) < 2 ^ 53" by simp_all
    ultimately show ?thesis by blast
  qed
qed

lemma dyadic_floor_frac:
  assumes x: "x = of_int k * 2 powi j" and k: "0 < k" "k < 2 ^ 53" and j: "- 1074 \<le> j"
    and fin: "x < 2 powi 1024"
  shows "round_double (of_int \<lfloor>x\<rfloor>) = Fin (of_int \<lfloor>x\<rfloor>)"
    and "round_double (x - of_int \<lfloor>x\<rfloor>) = Fin (x - of_int \<lfloor>x\<rfloor>)"
proof -
  have ex: "round_double x = Fin x" using x k j fin by (rule dyadic_exact)
  have "round_double (of_int \<lfloor>x\<rfloor>) = Fin (of_int \<lfloor>x\<rfloor>) \<and>
        round_double (x - of_int \<lfloor>x\<rfloor>) = Fin (x - of_int \<lfloor>x\<rfloor>)"
  proof (cases "0 \<le> j")
    case True
    have "x = of_int (k * 2 ^ nat j)" unfolding x using powi2_nat[OF True] by simp
    then have fx: "of_int \<lfloor>x\<rfloor> = x" by (metis floor_of_int)
    show ?thesis unfolding fx using ex by simp
  next
    case False
    define D :: int where "D = 2 ^ nat (- j)"
    have D0: "0 < D" by (simp add: D_def)
    have "(2::rat) powi j = 1 / 2 powi (- j)" by (simp only: powi2_inverse) simp
    also have "(2::rat) powi (- j) = of_int D" unfolding D_def using False by (intro powi2_nat) simp
    finally have pj: "(2::rat) powi j = 1 / of_int D" .
    have xq: "x = of_int k / of_int D" unfolding x pj by simp
    have fl: "\<lfloor>x\<rfloor> = k div D" unfolding xq by (rule floor_divide_of_int_eq)
    have n: "0 \<le> k div D" "k div D \<le> k"
    proof -
      show "0 \<le> k div D" using k(1) D0 by (simp add: pos_imp_zdiv_nonneg_iff)
      have "k div D \<le> k div 1" using k(1) D0 by (intro zdiv_mono2) simp_all
      then show "k div D \<le> k" by simp
    qed
    have "round_double (of_int (k div D)) = Fin (of_int (k div D))"
      using n k(2) by (intro round_double_int_exact) simp_all
    then have 1: "round_double (of_int \<lfloor>x\<rfloor>) = Fin (of_int \<lfloor>x\<rfloor>)" by (simp only: fl)
    have "x - of_int (k div D) = (of_int k - of_int (k div D) * of_int D) / of_int D"
      unfolding xq using D0 by (simp add: field_simps)
    also have "of_int k - of_int (k div D) * of_int D = (of_int (k mod D) :: rat)"
    proof -
      have "k - k div D * D = k mod D" by (simp add: minus_div_mult_eq_mod)
      then have "(of_int (k - k div D * D) :: rat) = of_int (k mod D)" by simp
      then show ?thesis by simp
    qed
    finally have fr: "x - of_int \<lfloor>x\<rfloor> = of_int (k mod D) * 2 powi j" unfolding fl pj by simp
    have md: "0 \<le> k mod D" "k mod D < D" "k mod D \<le> k"
      using D0 k(1) by (simp_all add: zmod_le_nonneg_dividend)
    have 2: "round_double (x - of_int \<lfloor>x\<rfloor>) = Fin (x - of_int \<lfloor>x\<rfloor>)"
    proof (cases "k mod D = 0")
      case True
      then show ?thesis unfolding fr by simp
    next
      case nz: False
      have "x - of_int \<lfloor>x\<rfloor> < 1" by linarith
      also have "(1::rat) \<le> 2 powi 1024" by simp
      finally have "x - of_int \<lfloor>x\<rfloor> < 2 powi 1024" .
      then show ?thesis using fr md nz k(2) j
        by (intro dyadic_exact[where k = "k mod D" and j = j]) simp_all
    qed
    from 1 2 show ?thesis by simp
  qed
  then show "round_double (of_int \<lfloor>x\<rfloor>) = Fin (of_int \<lfloor>x\<rfloor>)"
    and "round_double (x - of_int \<lfloor>x\<rfloor>) = Fin (x - of_int \<lfloor>x\<rfloor>)" by simp_all
qed

lemma stake_diff_exact:
  assumes "0 \<le> y" "round_double y = Fin x"
  shows "float_of_int \<lfloor>x\<rfloor> = Inr (Fin (of_int \<lfloor>x\<rfloor>))"
    and "py_sub (Fin x) (Fin (of_int \<lfloor>x\<rfloor>)) = Fin (frac x)"
proof -
  have "round_double (of_int \<lfloor>x\<rfloor>) = Fin (of_int \<lfloor>x\<rfloor>) \<and>
        round_double (x - of_int \<lfloor>x\<rfloor>) = Fin (x - of_int \<lfloor>x\<rfloor>)"
  proof (cases "y = 0")
    case True
    then have "x = 0" using assms(2) by simp
    then show ?thesis by simp
  next
    case False
    then have y0: "0 < y" using assms(1) by simp
    have fin: "x < 2 powi 1024" using y0 assms(2) by (rule round_double_is_dyadic)
    have "x = 0 \<or> (\<exists>k j. x = of_int k * 2 powi j \<and> 0 < k \<and> k < 2 ^ 53 \<and> - 1074 \<le> j)"
      using y0 assms(2) by (rule round_double_is_dyadic)
    then show ?thesis
    proof
      assume "x = 0"
      then show ?thesis by simp
    next
      assume "\<exists>k j. x = of_int k * 2 powi j \<and> 0 < k \<and> k < 2 ^ 53 \<and> - 1074 \<le> j"
      then obtain k j where "x = of_int k * 2 powi j" "0 < k" "k < 2 ^ 53" "- 1074 \<le> j" by blast
      then show ?thesis using fin dyadic_floor_frac by blast
    qed
  qed
  then show "float_of_int \<lfloor>x\<rfloor> = Inr (Fin (of_int \<lfloor>x\<rfloor>))"
    and "py_sub (Fin x) (Fin (of_int \<lfloor>x\<rfloor>)) = Fin (frac x)"
    by (simp_all add: float_of_int_def py_sub_def frac_def)
qed

section \<open>Binary64 values and the error of an addition\<close>

lemma is_double_0 [simp]: "is_double 0"
  by (simp add: is_double_def)

lemma is_double_neg: "is_double (- x) = is_double x"
  unfolding is_double_def round_double_neg by (cases "round_double x") auto

lemma round_double_pos_double:
  assumes "0 < x" "round_double x = Fin r"
  shows "is_double r"
proof -
  have fin: "r < 2 powi 1024" using assms by (rule round_double_is_dyadic)
  have "r = 0 \<or> (\<exists>k j. r = of_int k * 2 powi j \<and> 0 < k \<and> k < 2 ^ 53 \<and> - 1074 \<le> j)"
    using assms by (rule round_double_is_dyadic)
  then show ?thesis
  proof
    assume "r = 0"
    then show ?thesis by simp
  next
    assume "\<exists>k j. r = of_int k * 2 powi j \<and> 0 < k \<and> k < 2 ^ 53 \<and> - 1074 \<le> j"
    then obtain k j where "r = of_int k * 2 powi j" "0 < k" "k < 2 ^ 53" "- 1074 \<le> j" by blast
    then have "round_double r = Fin r" using fin by (rule dyadic_exact)
    then show ?thesis by (simp add: is_double_def)
  qed
qed

lemma round_double_is_double:
  assumes "round_double x = Fin r"
  shows "is_double r"
proof (cases "0 < x")
  case True
  then show ?thesis using assms by (rule round_double_pos_double)
next
  case False
  show ?thesis
  proof (cases "x = 0")
    case True
    then show ?thesis using assms by simp
  next
    case nz: False
    with False have "0 < - x" by simp
    moreover have "round_double (- x) = Fin (- r)" using assms by (simp add: round_double_neg)
    ultimately have "is_double (- r)" by (rule round_double_pos_double)
    then show ?thesis by (simp only: is_double_neg)
  qed
qed

lemma is_double_grid_pos:
  assumes "is_double r" "0 < r"
  shows "\<exists>K. r = of_int K * 2 powi (- 1074)"
proof -
  have rr: "round_double r = Fin r" using assms(1) by (simp add: is_double_def)
  have "r = 0 \<or> (\<exists>k j. r = of_int k * 2 powi j \<and> 0 < k \<and> k < 2 ^ 53 \<and> - 1074 \<le> j)"
    using assms(2) rr by (rule round_double_is_dyadic)
  then obtain k j where kj: "r = of_int k * 2 powi j" "- 1074 \<le> j" using assms(2) by auto
  have "(2::rat) powi j = 2 powi ((j + 1074) + (- 1074))" by simp
  also have "\<dots> = 2 powi (j + 1074) * 2 powi (- 1074)" by (rule powi2_add)
  also have "(2::rat) powi (j + 1074) = of_int (2 ^ nat (j + 1074))"
    using kj(2) by (intro powi2_nat) simp
  finally have "r = of_int (k * 2 ^ nat (j + 1074)) * 2 powi (- 1074)"
    unfolding kj(1) by simp
  then show ?thesis by blast
qed

lemma is_double_grid:
  assumes "is_double r"
  shows "\<exists>K. r = of_int K * 2 powi (- 1074)"
proof -
  consider "r = 0" | "0 < r" | "0 < - r" by linarith
  then show ?thesis
  proof cases
    case 1
    then have "r = of_int 0 * 2 powi (- 1074)" by simp
    then show ?thesis by blast
  next
    case 2
    with assms show ?thesis by (rule is_double_grid_pos)
  next
    case 3
    have "is_double (- r)" using assms by (simp only: is_double_neg)
    then obtain K where "- r = of_int K * 2 powi (- 1074)" using 3 is_double_grid_pos by blast
    then have "r = of_int (- K) * 2 powi (- 1074)" by simp
    then show ?thesis by blast
  qed
qed

lemma grid_small_exact_pos:
  assumes y: "y = of_int K * 2 powi (- 1074)" and y0: "0 < y" and small: "y < 2 powi (- 1022)"
  shows "round_double y = Fin y"
proof -
  have K0: "0 < K"
  proof (rule ccontr)
    assume "\<not> 0 < K"
    then have "(of_int K :: rat) \<le> 0" by simp
    then have "of_int K * (2::rat) powi (- 1074) \<le> 0"
      by (intro mult_nonpos_nonneg) simp_all
    with y y0 show False by simp
  qed
  have "(2::rat) powi (- 1022) = 2 powi (52 + (- 1074))" by simp
  also have "\<dots> = 2 powi 52 * 2 powi (- 1074)" by (rule powi2_add)
  finally have "of_int K * (2::rat) powi (- 1074) < 2 powi 52 * 2 powi (- 1074)"
    using small y by simp
  then have "(of_int K :: rat) < 2 powi 52" by (simp only: mult_less_cancel_right_pos powi2_pos)
  then have "(of_int K :: rat) < of_int (2 ^ 52)" by simp
  then have "K < 2 ^ 52" by (simp only: of_int_less_iff)
  then have K53: "K < 2 ^ 53" by simp
  have "(2::rat) powi (- 1022) \<le> 2 powi 1024" by (intro powi2_le) simp
  then have fin: "y < 2 powi 1024" using small by linarith
  show ?thesis using y K0 K53 _ fin by (rule dyadic_exact) simp
qed

lemma grid_small_exact:
  assumes y: "y = of_int K * 2 powi (- 1074)" and small: "\<bar>y\<bar> < 2 powi (- 1022)"
  shows "round_double y = Fin y"
proof -
  consider "y = 0" | "0 < y" | "0 < - y" by linarith
  then show ?thesis
  proof cases
    case 1
    then show ?thesis by simp
  next
    case 2
    then show ?thesis using y small by (intro grid_small_exact_pos[where K = K]) simp_all
  next
    case 3
    have "- y = of_int (- K) * 2 powi (- 1074)" using y by simp
    moreover have "- y < 2 powi (- 1022)" using small 3 by simp
    ultimately have "round_double (- y) = Fin (- y)" using 3 by (intro grid_small_exact_pos[where K = "- K"])
    then show ?thesis unfolding round_double_neg by (cases "round_double y") auto
  qed
qed

lemma round_double_error_pos:
  assumes "2 powi (- 1022) \<le> x" "round_double x = Fin r"
  shows "\<bar>r - x\<bar> \<le> x * unit_roundoff"
proof -
  have x0: "0 < x" using assms(1) powi2_pos[of "- 1022"] by linarith
  define e where "e = ilog2 x"
  have eb: "2 powi e \<le> x" "x < 2 powi (e + 1)" using ilog2_bounds[OF x0] by (simp_all add: e_def)
  have "(2::rat) powi (- 1022) < 2 powi (e + 1)" using assms(1) eb(2) by simp
  then have "- 1022 < e + 1" by (simp only: powi2_less_iff)
  then have e1: "max e (- 1022) = e" by simp
  define ulp :: rat where "ulp = 2 powi (e - 52)"
  have ulp0: "0 < ulp" by (simp add: ulp_def)
  define m where "m = round_half_even (x / ulp)"
  have rd: "round_double x = (if 2 powi 1024 \<le> of_int m * ulp then PInf else Fin (of_int m * ulp))"
    unfolding round_double_pos[OF x0] Let_def e_def[symmetric] e1 ulp_def m_def ..
  have r: "r = of_int m * ulp" using rd assms(2) by (auto split: if_splits)
  have "\<bar>of_int m - x / ulp\<bar> \<le> 1 / 2" unfolding m_def by (rule round_half_even_bounds)
  then have "\<bar>of_int m - x / ulp\<bar> * ulp \<le> 1 / 2 * ulp"
    using ulp0 by (intro mult_right_mono) simp_all
  moreover have "\<bar>of_int m - x / ulp\<bar> * ulp = \<bar>r - x\<bar>"
  proof -
    have "\<bar>of_int m - x / ulp\<bar> * ulp = \<bar>(of_int m - x / ulp) * ulp\<bar>"
      using ulp0 by (simp add: abs_mult)
    also have "(of_int m - x / ulp) * ulp = r - x"
      using ulp0 by (simp add: r field_simps)
    finally show ?thesis .
  qed
  ultimately have d: "\<bar>r - x\<bar> \<le> ulp / 2" by simp
  have half: "ulp / 2 = 2 powi e / 2 ^ 53"
  proof -
    have "(2::rat) powi e = 2 powi ((e - 52) + 52)" by simp
    also have "\<dots> = 2 powi (e - 52) * 2 powi 52" by (rule powi2_add)
    finally show ?thesis by (simp add: ulp_def)
  qed
  have "ulp / 2 \<le> x / 2 ^ 53" unfolding half using eb(1) by (simp add: divide_right_mono)
  with d show ?thesis by (simp add: unit_roundoff_def)
qed

lemma round_double_error:
  assumes "2 powi (- 1022) \<le> \<bar>x\<bar>" "round_double x = Fin r"
  shows "\<bar>r - x\<bar> \<le> \<bar>x\<bar> * unit_roundoff"
proof (cases "0 \<le> x")
  case True
  then show ?thesis using assms round_double_error_pos[of x r] by simp
next
  case False
  then have a: "\<bar>x\<bar> = - x" by simp
  have "round_double (- x) = Fin (- r)" using assms(2) by (simp add: round_double_neg)
  moreover have "2 powi (- 1022) \<le> - x" using assms(1) a by simp
  ultimately have "\<bar>- r - (- x)\<bar> \<le> (- x) * unit_roundoff" by (intro round_double_error_pos)
  moreover have "\<bar>- r - (- x)\<bar> = \<bar>r - x\<bar>" by simp
  ultimately show ?thesis using a by simp
qed

lemma add_rel:
  assumes "is_double p" "is_double q" "round_double (p + q) = Fin r"
  shows "\<bar>r - (p + q)\<bar> \<le> \<bar>p + q\<bar> * unit_roundoff"
proof (cases "2 powi (- 1022) \<le> \<bar>p + q\<bar>")
  case True
  then show ?thesis using assms(3) by (rule round_double_error)
next
  case False
  obtain Kp where Kp: "p = of_int Kp * 2 powi (- 1074)" using is_double_grid[OF assms(1)] by blast
  obtain Kq where Kq: "q = of_int Kq * 2 powi (- 1074)" using is_double_grid[OF assms(2)] by blast
  have "p + q = of_int (Kp + Kq) * 2 powi (- 1074)" unfolding Kp Kq by (simp add: algebra_simps)
  moreover have "\<bar>p + q\<bar> < 2 powi (- 1022)" using False by simp
  ultimately have "round_double (p + q) = Fin (p + q)" by (rule grid_small_exact)
  then have "r = p + q" using assms(3) by simp
  then show ?thesis using unit_roundoff_pos by simp
qed

lemma round_double_total:
  assumes "\<bar>y\<bar> \<le> 2 powi 1023"
  shows "\<exists>r. round_double y = Fin r"
proof -
  have pos: "\<exists>r. round_double x = Fin r" if "0 < x" "x \<le> 2 powi 1023" for x
  proof (cases "2 powi (- 1022) \<le> x")
    case True
    then show ?thesis using that(2) round_double_normal by blast
  next
    case False
    then have "x < 2 powi (- 1022)" by simp
    with that(1) show ?thesis using round_double_subnormal by blast
  qed
  consider "y = 0" | "0 < y" | "0 < - y" by linarith
  then show ?thesis
  proof cases
    case 1
    then show ?thesis by simp
  next
    case 2
    then show ?thesis using assms pos by simp
  next
    case 3
    then have "\<exists>r. round_double (- y) = Fin r" using assms by (intro pos) simp_all
    then show ?thesis unfolding round_double_neg by (cases "round_double y") auto
  qed
qed

section \<open>The compensated sum\<close>

lemma py_add_Fin:
  assumes "py_add a b = Fin r"
  obtains x y where "a = Fin x" "b = Fin y" "round_double (x + y) = Fin r"
  using assms by (cases a; cases b) simp_all

lemma py_sub_Fin:
  assumes "py_sub a b = Fin r"
  obtains x y where "a = Fin x" "b = Fin y" "round_double (x - y) = Fin r"
  using assms unfolding py_sub_def by (cases a; cases b) simp_all

lemma compensated_Fin:
  "compensated f c ys = (Fin T, Fin cc) \<Longrightarrow> (\<exists>fv. f = Fin fv) \<and> (\<exists>cv. c = Fin cv)"
proof (induction ys arbitrary: f c)
  case Nil
  then show ?case by simp
next
  case (Cons y ys)
  define t where "t = py_add f y"
  define c' where "c' = (if py_ge (py_fabs f) (py_fabs y)
                then py_add c (py_add (py_sub f t) y)
                else py_add c (py_add (py_sub y t) f))"
  have "compensated t c' ys = (Fin T, Fin cc)"
    using Cons.prems unfolding t_def c'_def by (simp add: Let_def)
  then have ih: "(\<exists>fv. t = Fin fv) \<and> (\<exists>cv. c' = Fin cv)" by (rule Cons.IH)
  then obtain tv where "py_add f y = Fin tv" unfolding t_def by blast
  then have 1: "\<exists>fv. f = Fin fv" by (rule py_add_Fin) blast
  obtain cv' where "c' = Fin cv'" using ih by blast
  then have "\<exists>z. py_add c z = Fin cv'" unfolding c'_def by (auto split: if_splits)
  then obtain z where "py_add c z = Fin cv'" by blast
  then have 2: "\<exists>cv. c = Fin cv" by (rule py_add_Fin) blast
  from 1 2 show ?case by simp
qed

lemma compensated_fst: "fst (compensated f c xs) = foldl py_add f xs"
  by (induction xs arbitrary: f c) (simp_all add: Let_def)

lemma abs_err_bounds:
  fixes r y :: rat
  assumes "\<bar>r - y\<bar> \<le> \<bar>y\<bar> * unit_roundoff"
  shows "\<bar>r\<bar> \<le> \<bar>y\<bar> * (1 + unit_roundoff)"
proof -
  have "\<bar>r\<bar> \<le> \<bar>y\<bar> + \<bar>r - y\<bar>" by linarith
  then show ?thesis using assms by (simp add: algebra_simps)
qed

lemma comp_branch:
  assumes q: "py_add (py_sub (Fin a) (Fin t)) (Fin b) = Fin q"
    and t: "round_double (a + b) = Fin t"
    and da: "is_double a" and db: "is_double b" and a0: "0 \<le> a" and b0: "0 \<le> b"
  shows "\<bar>q\<bar> \<le> 3 * unit_roundoff * (a + b)" and "is_double q"
proof -
  let ?u = unit_roundoff
  obtain d y where d: "py_sub (Fin a) (Fin t) = Fin d" and y: "Fin b = Fin y"
    and rq: "round_double (d + y) = Fin q"
    using q by (rule py_add_Fin)
  have yb: "y = b" using y by simp
  have rd: "round_double (a + (- t)) = Fin d" using d by (simp add: py_sub_def)
  have dt: "is_double t" using t by (rule round_double_is_double)
  then have dnt: "is_double (- t)" by (simp only: is_double_neg)
  have dd: "is_double d" using rd by (rule round_double_is_double)
  show "is_double q" using rq by (rule round_double_is_double)
  have s0: "0 \<le> a + b" using a0 b0 by simp
  have e1: "\<bar>t - (a + b)\<bar> \<le> (a + b) * ?u" using add_rel[OF da db t] s0 by simp
  have e2: "\<bar>d - (a - t)\<bar> \<le> \<bar>a - t\<bar> * ?u" using add_rel[OF da dnt rd] by simp
  have e3: "\<bar>q - (d + b)\<bar> \<le> \<bar>d + b\<bar> * ?u" using add_rel[OF dd db] rq yb by simp
  have u0: "0 \<le> ?u" "?u \<le> 1 / 2" using unit_roundoff_pos unit_roundoff_small by simp_all
  have at: "\<bar>a - t\<bar> \<le> (a + b) * (1 + ?u)"
  proof -
    have "\<bar>a - t\<bar> \<le> b + \<bar>t - (a + b)\<bar>" using b0 by linarith
    also have "\<dots> \<le> b + (a + b) * ?u" using e1 by simp
    also have "\<dots> \<le> (a + b) + (a + b) * ?u" using a0 by simp
    finally show ?thesis by (simp add: algebra_simps)
  qed
  have "\<bar>a - t\<bar> * ?u \<le> (a + b) * (1 + ?u) * ?u" using at u0(1) by (rule mult_right_mono)
  then have e2': "\<bar>d - (a - t)\<bar> \<le> (a + b) * (1 + ?u) * ?u" using e2 by linarith
  have db': "\<bar>d + b\<bar> \<le> (a + b) * ((2 + ?u) * ?u)"
  proof -
    have "\<bar>d + b\<bar> \<le> \<bar>d - (a - t)\<bar> + \<bar>t - (a + b)\<bar>" by linarith
    also have "\<dots> \<le> (a + b) * (1 + ?u) * ?u + (a + b) * ?u" using e2' e1 by linarith
    also have "\<dots> = (a + b) * ((2 + ?u) * ?u)" by (simp add: algebra_simps)
    finally show ?thesis .
  qed
  have "\<bar>q\<bar> \<le> \<bar>d + b\<bar> * (1 + ?u)" using e3 by (rule abs_err_bounds)
  also have "\<dots> \<le> (a + b) * ((2 + ?u) * ?u) * (1 + ?u)"
    using db' u0(1) by (intro mult_right_mono) simp_all
  also have "\<dots> = (a + b) * ?u * ((2 + ?u) * (1 + ?u))" by (simp add: algebra_simps)
  also have "\<dots> \<le> (a + b) * ?u * 3"
  proof -
    have "(2 + ?u) * (1 + ?u) \<le> 3" by (simp add: unit_roundoff_def)
    then show ?thesis using s0 u0(1) by (intro mult_left_mono) simp_all
  qed
  finally show "\<bar>q\<bar> \<le> 3 * ?u * (a + b)" by (simp add: algebra_simps)
qed

lemma comp_step:
  assumes "(if py_ge (py_fabs (Fin a)) (py_fabs (Fin x))
            then py_add (Fin c0) (py_add (py_sub (Fin a) (Fin t)) (Fin x))
            else py_add (Fin c0) (py_add (py_sub (Fin x) (Fin t)) (Fin a))) = Fin c1"
    and t: "round_double (a + x) = Fin t"
    and da: "is_double a" and dx: "is_double x" and dc: "is_double c0"
    and a0: "0 \<le> a" and x0: "0 \<le> x"
  shows "\<bar>c1\<bar> \<le> (\<bar>c0\<bar> + 3 * unit_roundoff * (a + x)) * (1 + unit_roundoff)" and "is_double c1"
proof -
  let ?u = unit_roundoff
  have "\<exists>q. round_double (c0 + q) = Fin c1 \<and> \<bar>q\<bar> \<le> 3 * ?u * (a + x) \<and> is_double q"
  proof (cases "py_ge (py_fabs (Fin a)) (py_fabs (Fin x))")
    case True
    then have "py_add (Fin c0) (py_add (py_sub (Fin a) (Fin t)) (Fin x)) = Fin c1"
      using assms(1) by simp
    then obtain p q where p: "Fin c0 = Fin p"
      and q: "py_add (py_sub (Fin a) (Fin t)) (Fin x) = Fin q"
      and r: "round_double (p + q) = Fin c1" by (rule py_add_Fin)
    have "\<bar>q\<bar> \<le> 3 * ?u * (a + x)" and "is_double q"
      using q t da dx a0 x0 by (rule comp_branch)+
    then show ?thesis using r p by auto
  next
    case False
    then have "py_add (Fin c0) (py_add (py_sub (Fin x) (Fin t)) (Fin a)) = Fin c1"
      using assms(1) by simp
    then obtain p q where p: "Fin c0 = Fin p"
      and q: "py_add (py_sub (Fin x) (Fin t)) (Fin a) = Fin q"
      and r: "round_double (p + q) = Fin c1" by (rule py_add_Fin)
    have t': "round_double (x + a) = Fin t" using t by (simp add: add.commute)
    have "\<bar>q\<bar> \<le> 3 * ?u * (x + a)" and "is_double q"
      using q t' dx da x0 a0 by (rule comp_branch)+
    then show ?thesis using r p by (auto simp: add.commute)
  qed
  then obtain q where r: "round_double (c0 + q) = Fin c1"
    and qb: "\<bar>q\<bar> \<le> 3 * ?u * (a + x)" and dq: "is_double q" by blast
  show "is_double c1" using r by (rule round_double_is_double)
  have "\<bar>c1\<bar> \<le> \<bar>c0 + q\<bar> * (1 + ?u)" using add_rel[OF dc dq r] by (rule abs_err_bounds)
  also have "\<dots> \<le> (\<bar>c0\<bar> + 3 * ?u * (a + x)) * (1 + ?u)"
  proof -
    have "\<bar>c0 + q\<bar> \<le> \<bar>c0\<bar> + 3 * ?u * (a + x)" using qb by linarith
    then show ?thesis using unit_roundoff_pos by (intro mult_right_mono) simp_all
  qed
  finally show "\<bar>c1\<bar> \<le> (\<bar>c0\<bar> + 3 * ?u * (a + x)) * (1 + ?u)" .
qed

lemma add_step_bounds:
  assumes t: "round_double (a + x) = Fin t" and da: "is_double a" and dx: "is_double x"
    and x0: "0 \<le> x" and A0: "0 \<le> A"
    and lo: "A * (1 - unit_roundoff) ^ k \<le> a" and hi: "a \<le> A * (1 + unit_roundoff) ^ k"
  shows "(A + x) * (1 - unit_roundoff) ^ Suc k \<le> t" and "t \<le> (A + x) * (1 + unit_roundoff) ^ Suc k"
    and "is_double t" and "0 \<le> a" and "a + x \<le> (A + x) * (1 + unit_roundoff) ^ k"
proof -
  let ?u = unit_roundoff
  have dn: "0 \<le> (1 - ?u) ^ k" "(1 - ?u) ^ k \<le> 1" by (rule power_down_bounds)+
  have up: "1 \<le> (1 + ?u) ^ k" using unit_roundoff_pos by (intro one_le_power) simp
  have u1: "0 \<le> 1 - ?u" "0 \<le> 1 + ?u" using unit_roundoff_small unit_roundoff_pos by linarith+
  show a0: "0 \<le> a"
  proof -
    have "0 \<le> A * (1 - ?u) ^ k" using A0 dn(1) by simp
    with lo show ?thesis by linarith
  qed
  show "is_double t" using t by (rule round_double_is_double)
  have s0: "0 \<le> a + x" using a0 x0 by simp
  have "\<bar>t - (a + x)\<bar> \<le> (a + x) * ?u" using add_rel[OF da dx t] s0 by simp
  then have r: "(a + x) * (1 - ?u) \<le> t" "t \<le> (a + x) * (1 + ?u)"
    unfolding abs_le_iff by (simp_all add: algebra_simps)
  have "x * (1 - ?u) ^ k \<le> x * 1" using dn(2) x0 by (intro mult_left_mono) simp_all
  then have "(A + x) * (1 - ?u) ^ k \<le> a + x" using lo by (simp add: algebra_simps)
  then have "(A + x) * (1 - ?u) ^ k * (1 - ?u) \<le> (a + x) * (1 - ?u)"
    using u1(1) by (intro mult_right_mono)
  with r(1) show "(A + x) * (1 - ?u) ^ Suc k \<le> t"
    by (simp add: mult.assoc mult.commute[of "1 - ?u"])
  have "x * 1 \<le> x * (1 + ?u) ^ k" using up x0 by (intro mult_left_mono) simp_all
  then show ax: "a + x \<le> (A + x) * (1 + ?u) ^ k" using hi by (simp add: algebra_simps)
  then have "(a + x) * (1 + ?u) \<le> (A + x) * (1 + ?u) ^ k * (1 + ?u)"
    using u1(2) by (intro mult_right_mono)
  with r(2) show "t \<le> (A + x) * (1 + ?u) ^ Suc k"
    by (simp add: mult.assoc mult.commute[of "1 + ?u"])
qed

lemma compensated_bounds:
  fixes xs :: "rat list"
  assumes "compensated (Fin a) (Fin c0) (map Fin xs) = (Fin T, Fin c)"
    and "\<forall>x \<in> set xs. 0 \<le> x \<and> is_double x" and "is_double a" and "is_double c0" and "0 \<le> A"
    and "A * (1 - unit_roundoff) ^ k \<le> a" and "a \<le> A * (1 + unit_roundoff) ^ k"
    and "(A + sum_list xs) * (1 + unit_roundoff) ^ (k + length xs) \<le> M"
  shows "(A + sum_list xs) * (1 - unit_roundoff) ^ (k + length xs) \<le> T \<and>
         T \<le> (A + sum_list xs) * (1 + unit_roundoff) ^ (k + length xs) \<and>
         \<bar>c\<bar> \<le> (\<bar>c0\<bar> + of_nat (length xs) * (3 * unit_roundoff * M)) * (1 + unit_roundoff) ^ length xs \<and>
         is_double T \<and> is_double c"
  using assms
proof (induction xs arbitrary: a c0 A k)
  case Nil
  then show ?case by simp
next
  case (Cons x xs)
  let ?u = unit_roundoff
  let ?n = "length xs"
  have xb: "0 \<le> x" "is_double x" using Cons.prems(2) by simp_all
  have rest: "\<forall>x \<in> set xs. 0 \<le> x \<and> is_double x" using Cons.prems(2) by simp
  have sum0: "0 \<le> sum_list xs" using rest by (intro sum_list_nonneg) simp
  define t where "t = py_add (Fin a) (Fin x)"
  define c' where "c' = (if py_ge (py_fabs (Fin a)) (py_fabs (Fin x))
                then py_add (Fin c0) (py_add (py_sub (Fin a) t) (Fin x))
                else py_add (Fin c0) (py_add (py_sub (Fin x) t) (Fin a)))"
  have run: "compensated t c' (map Fin xs) = (Fin T, Fin c)"
    using Cons.prems(1) unfolding t_def c'_def by (simp only: list.map compensated.simps Let_def)
  then have "(\<exists>fv. t = Fin fv) \<and> (\<exists>cv. c' = Fin cv)" by (rule compensated_Fin)
  then obtain tv c1 where tv: "t = Fin tv" and c1: "c' = Fin c1" by blast
  have rt: "round_double (a + x) = Fin tv" using tv unfolding t_def by simp
  have step: "(if py_ge (py_fabs (Fin a)) (py_fabs (Fin x))
            then py_add (Fin c0) (py_add (py_sub (Fin a) (Fin tv)) (Fin x))
            else py_add (Fin c0) (py_add (py_sub (Fin x) (Fin tv)) (Fin a))) = Fin c1"
    using c1 unfolding c'_def tv .
  have t1: "(A + x) * (1 - ?u) ^ Suc k \<le> tv" and t2: "tv \<le> (A + x) * (1 + ?u) ^ Suc k"
    and dt: "is_double tv" and a0: "0 \<le> a" and ax: "a + x \<le> (A + x) * (1 + ?u) ^ k"
    using rt Cons.prems(3) xb(2) xb(1) Cons.prems(5,6,7) by (rule add_step_bounds)+
  have cb: "\<bar>c1\<bar> \<le> (\<bar>c0\<bar> + 3 * ?u * (a + x)) * (1 + ?u)" and dc1: "is_double c1"
    using step rt Cons.prems(3) xb(2) Cons.prems(4) a0 xb(1) by (rule comp_step)+
  have M': "(A + x + sum_list xs) * (1 + ?u) ^ (Suc k + ?n) \<le> M"
    using Cons.prems(8) by (simp add: add.assoc)
  have u1: "1 \<le> 1 + ?u" "0 \<le> ?u" using unit_roundoff_pos by simp_all
  have axM: "a + x \<le> M"
  proof -
    have p: "(1 + ?u) ^ k \<le> (1 + ?u) ^ (Suc k + ?n)" using u1(1) by (intro power_increasing) simp_all
    have p0: "0 \<le> (1 + ?u) ^ k" using u1(2) by simp
    have Ax: "0 \<le> A + x" using Cons.prems(5) xb(1) by simp
    have "(A + x) * (1 + ?u) ^ k \<le> (A + x + sum_list xs) * (1 + ?u) ^ (Suc k + ?n)"
      using p p0 Ax sum0 by (intro mult_mono) simp_all
    with ax M' show ?thesis by linarith
  qed
  have M0: "0 \<le> M" using axM a0 xb(1) by linarith
  have ih: "(A + x + sum_list xs) * (1 - ?u) ^ (Suc k + ?n) \<le> T \<and>
         T \<le> (A + x + sum_list xs) * (1 + ?u) ^ (Suc k + ?n) \<and>
         \<bar>c\<bar> \<le> (\<bar>c1\<bar> + of_nat ?n * (3 * ?u * M)) * (1 + ?u) ^ ?n \<and>
         is_double T \<and> is_double c"
  proof (rule Cons.IH)
    show "compensated (Fin tv) (Fin c1) (map Fin xs) = (Fin T, Fin c)" using run tv c1 by simp
    show "0 \<le> A + x" using Cons.prems(5) xb(1) by simp
  qed (use rest dt dc1 t1 t2 M' in simp_all)
  have c1M: "\<bar>c1\<bar> \<le> (\<bar>c0\<bar> + 3 * ?u * M) * (1 + ?u)"
  proof -
    have "3 * ?u * (a + x) \<le> 3 * ?u * M" using axM u1(2) by (intro mult_left_mono) simp_all
    then have "(\<bar>c0\<bar> + 3 * ?u * (a + x)) * (1 + ?u) \<le> (\<bar>c0\<bar> + 3 * ?u * M) * (1 + ?u)"
      using u1(2) by (intro mult_right_mono) simp_all
    with cb show ?thesis by linarith
  qed
  have nM: "0 \<le> of_nat ?n * (3 * ?u * M)" using M0 u1(2) by simp
  have "\<bar>c1\<bar> + of_nat ?n * (3 * ?u * M)
        \<le> (\<bar>c0\<bar> + 3 * ?u * M) * (1 + ?u) + of_nat ?n * (3 * ?u * M) * (1 + ?u)"
  proof -
    define z where "z = of_nat ?n * (3 * ?u * M)"
    have "z * 1 \<le> z * (1 + ?u)"
      using nM u1(1) unfolding z_def by (intro mult_left_mono)
    with c1M show ?thesis unfolding z_def[symmetric] by linarith
  qed
  also have "\<dots> = (\<bar>c0\<bar> + of_nat (Suc ?n) * (3 * ?u * M)) * (1 + ?u)"
    by (simp add: algebra_simps)
  finally have "(\<bar>c1\<bar> + of_nat ?n * (3 * ?u * M)) * (1 + ?u) ^ ?n
        \<le> (\<bar>c0\<bar> + of_nat (Suc ?n) * (3 * ?u * M)) * (1 + ?u) * (1 + ?u) ^ ?n"
    using u1(2) by (intro mult_right_mono) simp_all
  then have "\<bar>c\<bar> \<le> (\<bar>c0\<bar> + of_nat (Suc ?n) * (3 * ?u * M)) * (1 + ?u) ^ Suc ?n"
    using ih by (simp add: mult.assoc)
  then show ?case using ih by (simp add: add.assoc)
qed

lemma power_up_sharp:
  assumes "k \<le> 2 ^ 50"
  shows "(1 + unit_roundoff) ^ k \<le> 8 / 7"
proof -
  have c: "of_nat k * unit_roundoff \<le> 1 / 8" using assms by (rule roundoff_count)
  then have "(1 + unit_roundoff) ^ k \<le> 1 / (1 - of_nat k * unit_roundoff)"
    using unit_roundoff_pos by (intro power_upper) simp_all
  also have "\<dots> \<le> 1 / (7 / 8)" using c by (intro divide_left_mono) simp_all
  finally show ?thesis by simp
qed

lemma power_down_sharp:
  assumes "k \<le> 2 ^ 50"
  shows "7 / 8 \<le> (1 - unit_roundoff) ^ k"
proof -
  have c: "of_nat k * unit_roundoff \<le> 1 / 8" using assms by (rule roundoff_count)
  have "1 - of_nat k * unit_roundoff \<le> (1 - unit_roundoff) ^ k"
    using unit_roundoff_pos unit_roundoff_small by (intro bernoulli_lower) simp_all
  with c show ?thesis by linarith
qed

lemma foldl_add_Fin:
  "foldl py_add a ys = Fin T \<Longrightarrow> (\<exists>v. a = Fin v) \<and> (\<forall>y \<in> set ys. \<exists>v. y = Fin v)"
proof (induction ys arbitrary: a)
  case Nil
  then show ?case by simp
next
  case (Cons y ys)
  have "foldl py_add (py_add a y) ys = Fin T" using Cons.prems by simp
  then have ih: "(\<exists>v. py_add a y = Fin v) \<and> (\<forall>y \<in> set ys. \<exists>v. y = Fin v)" by (rule Cons.IH)
  then obtain v where "py_add a y = Fin v" by blast
  then have "(\<exists>v. a = Fin v) \<and> (\<exists>v. y = Fin v)" by (rule py_add_Fin) blast
  with ih show ?case by simp
qed

lemma compensated_nonneg:
  fixes xr :: "rat list"
  assumes comp: "compensated (Fin v0) (Fin 0) (map Fin xr) = (Fin fv, Fin cv)"
    and xs: "\<forall>x \<in> set xr. 0 \<le> x \<and> is_double x" and d0: "is_double v0" and v0: "0 \<le> v0"
    and len: "length xr \<le> 2 ^ 50"
  shows "0 \<le> fv + cv"
proof -
  let ?u = unit_roundoff
  let ?n = "length xr"
  define W where "W = v0 + sum_list xr"
  define P where "P = (1 + ?u) ^ ?n"
  have W0: "0 \<le> W" unfolding W_def using v0 xs by (intro add_nonneg_nonneg sum_list_nonneg) simp_all
  have P1: "0 \<le> P" "P \<le> 8 / 7"
  proof -
    show "0 \<le> P" unfolding P_def using unit_roundoff_pos by simp
    show "P \<le> 8 / 7" unfolding P_def using len by (rule power_up_sharp)
  qed
  have b: "(v0 + sum_list xr) * (1 - ?u) ^ (0 + ?n) \<le> fv \<and>
         fv \<le> (v0 + sum_list xr) * (1 + ?u) ^ (0 + ?n) \<and>
         \<bar>cv\<bar> \<le> (\<bar>0\<bar> + of_nat ?n * (3 * ?u * (W * P))) * (1 + ?u) ^ ?n \<and>
         is_double fv \<and> is_double cv"
    using comp xs d0 by (rule compensated_bounds) (simp_all add: v0 W_def P_def)
  have lo: "W * (7 / 8) \<le> fv"
  proof -
    have "W * (7 / 8) \<le> W * (1 - ?u) ^ ?n"
      using W0 power_down_sharp[OF len] by (intro mult_left_mono)
    with b show ?thesis by (simp add: W_def)
  qed
  have nu: "of_nat ?n * ?u \<le> 1 / 8" using len by (rule roundoff_count)
  have "\<bar>cv\<bar> \<le> of_nat ?n * (3 * ?u * (W * P)) * P" using b by (simp add: P_def)
  also have "\<dots> = (of_nat ?n * ?u) * (3 * (W * (P * P)))" by (simp add: algebra_simps)
  also have "\<dots> \<le> (1 / 8) * (3 * (W * (P * P)))"
    using nu W0 P1(1) by (intro mult_right_mono) simp_all
  also have "\<dots> \<le> (1 / 8) * (3 * (W * (8 / 7 * (8 / 7))))"
    using P1 W0 by (intro mult_left_mono mult_mono) simp_all
  also have "\<dots> = W * (24 / 49)" by simp
  finally have "\<bar>cv\<bar> \<le> W * (24 / 49)" .
  moreover have "W * (24 / 49) \<le> W * (7 / 8)" using W0 by (intro mult_left_mono) simp_all
  ultimately show ?thesis using lo by linarith
qed

lemma add_total:
  assumes dp: "is_double p" and dq: "is_double q"
    and p: "\<bar>p\<bar> \<le> 2 powi e" and q: "\<bar>q\<bar> \<le> 2 powi e" and e: "e \<le> 1021"
  obtains r where "round_double (p + q) = Fin r" "\<bar>r\<bar> \<le> 2 powi (e + 2)" "is_double r"
proof -
  have "\<bar>p + q\<bar> \<le> 2 powi e + 2 powi e" using p q by linarith
  also have "\<dots> = 2 * 2 powi e" by simp
  also have "\<dots> = 2 powi (e + 1)" by (rule powi2_double)
  finally have s: "\<bar>p + q\<bar> \<le> 2 powi (e + 1)" .
  have "(2::rat) powi (e + 1) \<le> 2 powi 1023" using e by (intro powi2_le) simp
  then have "\<bar>p + q\<bar> \<le> 2 powi 1023" using s by linarith
  then obtain r where r: "round_double (p + q) = Fin r" using round_double_total by blast
  have "\<bar>r\<bar> \<le> \<bar>p + q\<bar> * (1 + unit_roundoff)" using add_rel[OF dp dq r] by (rule abs_err_bounds)
  also have "\<dots> \<le> 2 powi (e + 1) * 2"
    using s unit_roundoff_small unit_roundoff_pos by (intro mult_mono) simp_all
  also have "\<dots> = 2 powi (e + 1 + 1)" using powi2_double[of "e + 1"] by (simp add: mult.commute)
  also have "\<dots> = 2 powi (e + 2)" by (rule arg_cong[where f = "\<lambda>i. 2 powi i"]) simp
  finally have "\<bar>r\<bar> \<le> 2 powi (e + 2)" .
  moreover have "is_double r" using r by (rule round_double_is_double)
  ultimately show ?thesis using r that by blast
qed

lemma comp_branch_total:
  assumes da: "is_double a" and db: "is_double b" and dt: "is_double t" and dc: "is_double c0"
    and a: "\<bar>a\<bar> \<le> 2 powi e" and b: "\<bar>b\<bar> \<le> 2 powi e" and t: "\<bar>t\<bar> \<le> 2 powi (e + 2)"
    and c: "\<bar>c0\<bar> \<le> 2 powi e" and e: "e \<le> 1015"
  shows "\<exists>c1. py_add (Fin c0) (py_add (py_sub (Fin a) (Fin t)) (Fin b)) = Fin c1"
proof -
  have m: "(2::rat) powi e \<le> 2 powi (e + 2)" "(2::rat) powi e \<le> 2 powi (e + 4)"
    "(2::rat) powi e \<le> 2 powi (e + 6)" by (intro powi2_le; simp)+
  have dnt: "is_double (- t)" using dt by (simp only: is_double_neg)
  obtain d where d: "round_double (a + (- t)) = Fin d" "\<bar>d\<bar> \<le> 2 powi (e + 2 + 2)" "is_double d"
    using da dnt _ _ _ by (rule add_total[where e = "e + 2"]) (use a t m e in simp_all)
  have d4: "\<bar>d\<bar> \<le> 2 powi (e + 4)"
  proof -
    have "(2::rat) powi (e + 2 + 2) = 2 powi (e + 4)" by (rule arg_cong[where f = "\<lambda>i. 2 powi i"]) simp
    with d(2) show ?thesis by simp
  qed
  have b4: "\<bar>b\<bar> \<le> 2 powi (e + 4)" using b m(2) by linarith
  obtain q where q: "round_double (d + b) = Fin q" "\<bar>q\<bar> \<le> 2 powi (e + 4 + 2)" "is_double q"
    using d(3) db d4 b4 by (rule add_total) (use e in simp)
  have q6: "\<bar>q\<bar> \<le> 2 powi (e + 6)"
  proof -
    have "(2::rat) powi (e + 4 + 2) = 2 powi (e + 6)" by (rule arg_cong[where f = "\<lambda>i. 2 powi i"]) simp
    with q(2) show ?thesis by simp
  qed
  have c6: "\<bar>c0\<bar> \<le> 2 powi (e + 6)" using c m(3) by linarith
  obtain c1 where "round_double (c0 + q) = Fin c1"
    using dc q(3) c6 q6 by (rule add_total) (use e in simp)
  then show ?thesis using d(1) q(1) by (simp add: py_sub_def)
qed

lemma comp_step_total:
  assumes da: "is_double a" and dx: "is_double x" and dc: "is_double c0"
    and a: "\<bar>a\<bar> \<le> 2 powi e" and x: "\<bar>x\<bar> \<le> 2 powi e" and c: "\<bar>c0\<bar> \<le> 2 powi e" and e: "e \<le> 1015"
  shows "\<exists>t c1. compensated (Fin a) (Fin c0) [Fin x] = (Fin t, Fin c1)"
proof -
  obtain t where t: "round_double (a + x) = Fin t" "\<bar>t\<bar> \<le> 2 powi (e + 2)" "is_double t"
    using da dx a x by (rule add_total) (use e in simp)
  have 1: "\<exists>c1. py_add (Fin c0) (py_add (py_sub (Fin a) (Fin t)) (Fin x)) = Fin c1"
    using da dx t(3) dc a x t(2) c e by (rule comp_branch_total)
  have 2: "\<exists>c1. py_add (Fin c0) (py_add (py_sub (Fin x) (Fin t)) (Fin a)) = Fin c1"
    using dx da t(3) dc x a t(2) c e by (rule comp_branch_total)
  show ?thesis
  proof (cases "py_ge (py_fabs (Fin a)) (py_fabs (Fin x))")
    case True
    obtain c1 where "py_add (Fin c0) (py_add (py_sub (Fin a) (Fin t)) (Fin x)) = Fin c1"
      using 1 by blast
    then have "compensated (Fin a) (Fin c0) [Fin x] = (Fin t, Fin c1)"
      using True t(1) by (simp add: Let_def)
    then show ?thesis by blast
  next
    case False
    obtain c1 where "py_add (Fin c0) (py_add (py_sub (Fin x) (Fin t)) (Fin a)) = Fin c1"
      using 2 by blast
    then have "compensated (Fin a) (Fin c0) [Fin x] = (Fin t, Fin c1)"
      using False t(1) by (simp add: Let_def)
    then show ?thesis by blast
  qed
qed

lemma compensated_snoc:
  "compensated f c (xs @ [x]) = (case compensated f c xs of (f', c') \<Rightarrow> compensated f' c' [x])"
proof (induction xs arbitrary: f c)
  case Nil
  show ?case by (simp only: append_Nil compensated.simps prod.case)
next
  case (Cons y ys)
  show ?case unfolding append_Cons compensated.simps(2)[of f c y] Let_def by (rule Cons.IH)
qed

lemma bernoulli_upper:
  fixes u :: rat
  assumes "0 \<le> u"
  shows "1 + of_nat n * u \<le> (1 + u) ^ n"
proof (induction n)
  case 0
  then show ?case by simp
next
  case (Suc n)
  have "1 + of_nat (Suc n) * u \<le> (1 + of_nat n * u) * (1 + u)"
  proof -
    have "(1 + of_nat n * u) * (1 + u) = 1 + of_nat (Suc n) * u + of_nat n * (u * u)"
      by (simp add: algebra_simps)
    moreover have "0 \<le> of_nat n * (u * u)" using assms by simp
    ultimately show ?thesis by linarith
  qed
  also have "\<dots> \<le> (1 + u) ^ n * (1 + u)" using Suc assms by (intro mult_right_mono) simp_all
  finally show ?case by (simp add: mult.commute)
qed

lemma power_down_inverse:
  shows "(1 - unit_roundoff) ^ k \<le> 1 / (1 + of_nat k * unit_roundoff)"
proof -
  let ?u = unit_roundoff
  have u: "0 \<le> ?u" "?u \<le> 1" using unit_roundoff_pos unit_roundoff_small by linarith+
  have p: "0 < (1 + ?u) ^ k" using u(1) by (intro zero_less_power) simp
  have "(1 - ?u) ^ k * (1 + ?u) ^ k = ((1 - ?u) * (1 + ?u)) ^ k" by (simp add: power_mult_distrib)
  also have "(1 - ?u) * (1 + ?u) = 1 - ?u * ?u" by (simp add: algebra_simps)
  also have "(1 - ?u * ?u) ^ k \<le> 1" using u by (intro power_le_one) (simp_all add: mult_le_one)
  finally have "(1 - ?u) ^ k \<le> 1 / (1 + ?u) ^ k" using p by (simp add: pos_le_divide_eq)
  also have "\<dots> \<le> 1 / (1 + of_nat k * ?u)"
    using bernoulli_upper[OF u(1), of k] u(1) by (intro divide_left_mono) (simp_all add: add_pos_nonneg)
  finally show ?thesis .
qed

lemma compensated_state:
  fixes xr :: "rat list"
  assumes comp: "compensated (Fin v0) (Fin 0) (map Fin xr) = (Fin fv, Fin cv)"
    and xs: "\<forall>x \<in> set xr. 0 \<le> x \<and> is_double x" and d0: "is_double v0" and v0: "0 \<le> v0"
    and len: "length xr \<le> 2 ^ 50"
  shows "(v0 + sum_list xr) * (1 - unit_roundoff) ^ length xr \<le> fv"
    and "fv \<le> (v0 + sum_list xr) * (1 + unit_roundoff) ^ length xr"
    and "\<bar>cv\<bar> \<le> of_nat (length xr) * unit_roundoff * (4 * (v0 + sum_list xr))"
    and "is_double fv" and "is_double cv"
proof -
  let ?u = unit_roundoff
  let ?n = "length xr"
  define W where "W = v0 + sum_list xr"
  define P where "P = (1 + ?u) ^ ?n"
  have W0: "0 \<le> W" unfolding W_def using v0 xs by (intro add_nonneg_nonneg sum_list_nonneg) simp_all
  have P1: "0 \<le> P" "P \<le> 8 / 7"
  proof -
    show "0 \<le> P" unfolding P_def using unit_roundoff_pos by simp
    show "P \<le> 8 / 7" unfolding P_def using len by (rule power_up_sharp)
  qed
  have b: "(v0 + sum_list xr) * (1 - ?u) ^ (0 + ?n) \<le> fv \<and>
         fv \<le> (v0 + sum_list xr) * (1 + ?u) ^ (0 + ?n) \<and>
         \<bar>cv\<bar> \<le> (\<bar>0\<bar> + of_nat ?n * (3 * ?u * (W * P))) * (1 + ?u) ^ ?n \<and>
         is_double fv \<and> is_double cv"
    using comp xs d0 by (rule compensated_bounds) (simp_all add: v0 W_def P_def)
  then show "(v0 + sum_list xr) * (1 - ?u) ^ ?n \<le> fv" "fv \<le> (v0 + sum_list xr) * (1 + ?u) ^ ?n"
    "is_double fv" "is_double cv" by simp_all
  have nu: "0 \<le> of_nat ?n * ?u" using unit_roundoff_pos by simp
  have "\<bar>cv\<bar> \<le> of_nat ?n * (3 * ?u * (W * P)) * P" using b by (simp add: P_def)
  also have "\<dots> = (of_nat ?n * ?u) * (3 * (W * (P * P)))" by (simp add: algebra_simps)
  also have "\<dots> \<le> (of_nat ?n * ?u) * (3 * (W * (8 / 7 * (8 / 7))))"
    using P1 W0 nu by (intro mult_left_mono mult_mono) simp_all
  also have "\<dots> \<le> (of_nat ?n * ?u) * (4 * W)"
    using W0 nu by (intro mult_left_mono) simp_all
  finally show "\<bar>cv\<bar> \<le> of_nat ?n * ?u * (4 * (v0 + sum_list xr))" unfolding W_def .
qed

lemma compensated_total:
  fixes xr :: "rat list"
  assumes "\<forall>x \<in> set xr. 0 \<le> x \<and> x \<le> 2 powi g \<and> is_double x"
    and "is_double v0" and "0 \<le> v0" and "v0 \<le> 2 powi g" and "g \<le> 960"
    and "Suc (length xr) \<le> 2 ^ 50"
  shows "\<exists>T c. compensated (Fin v0) (Fin 0) (map Fin xr) = (Fin T, Fin c)"
  using assms
proof (induction xr rule: rev_induct)
  case Nil
  then show ?case by simp
next
  case (snoc x xs)
  let ?u = unit_roundoff
  let ?n = "length xs"
  have xsb: "\<forall>x \<in> set xs. 0 \<le> x \<and> x \<le> 2 powi g \<and> is_double x" using snoc.prems(1) by simp
  have xb: "0 \<le> x" "x \<le> 2 powi g" "is_double x" using snoc.prems(1) by simp_all
  have len: "Suc ?n \<le> 2 ^ 50" "?n \<le> 2 ^ 50" using snoc.prems(6) by simp_all
  obtain T c where Tc: "compensated (Fin v0) (Fin 0) (map Fin xs) = (Fin T, Fin c)"
    using snoc.IH[OF xsb snoc.prems(2,3,4,5) len(1)] by blast
  define W where "W = v0 + sum_list xs"
  have nn: "\<forall>x \<in> set xs. 0 \<le> x \<and> is_double x" using xsb by simp
  have st: "W * (1 - ?u) ^ ?n \<le> T" "T \<le> W * (1 + ?u) ^ ?n"
    "\<bar>c\<bar> \<le> of_nat ?n * ?u * (4 * W)" "is_double T" "is_double c"
    unfolding W_def using Tc nn snoc.prems(2,3) len(2) by (rule compensated_state)+
  have W0: "0 \<le> W" unfolding W_def using snoc.prems(3) nn
    by (intro add_nonneg_nonneg sum_list_nonneg) simp_all
  have WN: "W \<le> 2 powi (g + 50)"
  proof -
    have "sum_list xs \<le> of_nat ?n * 2 powi g"
      using sum_list_bounded(2)[of xs 0 "2 powi g"] xsb by simp
    then have "W \<le> of_nat (Suc ?n) * 2 powi g"
      unfolding W_def using snoc.prems(4) by (simp add: algebra_simps)
    also have "\<dots> \<le> 2 ^ 50 * 2 powi g"
    proof -
      have "(of_nat (Suc ?n) :: rat) \<le> of_nat (2 ^ 50)" using len(1) by (simp only: of_nat_le_iff)
      then show ?thesis by (intro mult_right_mono) simp_all
    qed
    also have "\<dots> = 2 powi 50 * 2 powi g" by simp
    also have "\<dots> = 2 powi (50 + g)" by (rule powi2_add[symmetric])
    also have "\<dots> = 2 powi (g + 50)" by (rule arg_cong[where f = "\<lambda>i. 2 powi i"]) simp
    finally show ?thesis .
  qed
  have dbl: "2 * (2::rat) powi (g + 50) = 2 powi (g + 51)"
    using powi2_double[of "g + 50"] by (simp add: add.assoc)
  have T0: "0 \<le> T"
  proof -
    have "0 \<le> W * (1 - ?u) ^ ?n" using W0 power_down_bounds(1) by simp
    with st(1) show ?thesis by linarith
  qed
  have Tb: "\<bar>T\<bar> \<le> 2 powi (g + 51)"
  proof -
    have "W * (1 + ?u) ^ ?n \<le> W * 2" using W0 power_up_bounds(2)[OF len(2)] by (intro mult_left_mono)
    then have "T \<le> 2 * W" using st(2) by linarith
    then show ?thesis using T0 WN dbl by linarith
  qed
  have cb: "\<bar>c\<bar> \<le> 2 powi (g + 51)"
  proof -
    have "of_nat ?n * ?u * (4 * W) \<le> 1 / 8 * (4 * W)"
      using roundoff_count[OF len(2)] W0 by (intro mult_right_mono) simp_all
    then have "\<bar>c\<bar> \<le> W" using st(3) W0 by linarith
    then show ?thesis using WN dbl W0 by linarith
  qed
  have xb': "\<bar>x\<bar> \<le> 2 powi (g + 51)"
  proof -
    have "(2::rat) powi g \<le> 2 powi (g + 51)" by (intro powi2_le) simp
    then show ?thesis using xb by linarith
  qed
  have "\<exists>t c1. compensated (Fin T) (Fin c) [Fin x] = (Fin t, Fin c1)"
    using st(4) xb(3) st(5) Tb xb' cb by (rule comp_step_total) (use snoc.prems(5) in simp)
  then obtain t c1 where "compensated (Fin T) (Fin c) [Fin x] = (Fin t, Fin c1)" by blast
  then have "compensated (Fin v0) (Fin 0) (map Fin (xs @ [x])) = (Fin t, Fin c1)"
    unfolding map_append list.map compensated_snoc Tc by simp
  then show ?case by blast
qed

lemma compensated_sum_bounds:
  fixes ws :: "rat list"
  assumes wb: "\<forall>w \<in> set ws. 0 \<le> w \<and> w \<le> 2 powi g \<and> is_double w"
    and g: "g \<le> 960" and len: "8 * length ws \<le> 2 ^ 50"
  shows "\<exists>T. py_sum Compensated (map Fin ws) = Fin T \<and>
             sum_list ws * (1 - unit_roundoff) ^ (8 * length ws) \<le> T \<and>
             T \<le> sum_list ws * (1 + unit_roundoff) ^ (8 * length ws)"
proof (cases ws)
  case Nil
  then show ?thesis by simp
next
  case (Cons v0 xr)
  let ?u = unit_roundoff
  let ?n = "length xr"
  define y where "y = of_nat ?n * ?u"
  define W where "W = v0 + sum_list xr"
  have v: "0 \<le> v0" "v0 \<le> 2 powi g" "is_double v0" using wb Cons by simp_all
  have xb: "\<forall>x \<in> set xr. 0 \<le> x \<and> x \<le> 2 powi g \<and> is_double x" using wb Cons by simp
  have nn: "\<forall>x \<in> set xr. 0 \<le> x \<and> is_double x" using xb by simp
  have l8: "8 * Suc ?n \<le> 2 ^ 50" using len Cons by simp
  then have l1: "Suc ?n \<le> 2 ^ 50" "?n \<le> 2 ^ 50" by simp_all
  have u: "0 \<le> ?u" "0 < ?u" "?u \<le> 1" "0 \<le> 1 - ?u" "1 \<le> 1 + ?u" "1 - ?u \<le> 1"
    using unit_roundoff_pos unit_roundoff_small by linarith+
  have y0: "0 \<le> y" unfolding y_def using u(1) by simp
  have y64: "y \<le> 1 / 64"
  proof -
    have "8 * ?n \<le> 2 ^ 50" using l8 by simp
    then have "of_nat (8 * ?n) * ?u \<le> 1 / 8" by (rule roundoff_count)
    then show ?thesis unfolding y_def by simp
  qed
  obtain fv cv where fc: "compensated (Fin v0) (Fin 0) (map Fin xr) = (Fin fv, Fin cv)"
    using compensated_total[OF xb v(3,1,2) g l1(1)] by blast
  have st: "W * (1 - ?u) ^ ?n \<le> fv" "fv \<le> W * (1 + ?u) ^ ?n"
    "\<bar>cv\<bar> \<le> y * (4 * W)" "is_double fv" "is_double cv"
    unfolding W_def y_def using fc nn v(3,1) l1(2) by (rule compensated_state)+
  have W0: "0 \<le> W" unfolding W_def using v(1) nn
    by (intro add_nonneg_nonneg sum_list_nonneg) simp_all
  have Wsum: "sum_list ws = W" unfolding W_def Cons by simp
  \<comment> \<open>the sum before the last rounding\<close>
  have lo: "W * (1 - ?u) ^ (7 * ?n) \<le> fv + cv"
  proof -
    have "(1 - ?u) ^ (7 * ?n) \<le> 1 / (1 + of_nat (7 * ?n) * ?u)" by (rule power_down_inverse)
    also have "\<dots> = 1 / (1 + 7 * y)" by (simp add: y_def)
    also have "\<dots> \<le> 1 - 5 * y"
    proof -
      have "(1 - 5 * y) * (1 + 7 * y) - 1 = y * (2 - 35 * y)" by (simp add: algebra_simps)
      moreover have "0 \<le> y * (2 - 35 * y)" using y0 y64 by (intro mult_nonneg_nonneg) simp_all
      ultimately have "1 \<le> (1 - 5 * y) * (1 + 7 * y)" by linarith
      moreover have "0 < 1 + 7 * y" using y0 by simp
      ultimately show ?thesis by (simp add: pos_divide_le_eq)
    qed
    finally have p: "(1 - ?u) ^ (7 * ?n) \<le> 1 - 5 * y" .
    have "1 - y \<le> (1 - ?u) ^ ?n" unfolding y_def using u by (intro bernoulli_lower) simp_all
    then have "W * (1 - y) \<le> W * (1 - ?u) ^ ?n" using W0 by (intro mult_left_mono)
    then have "W * (1 - y) \<le> fv" using st(1) by linarith
    moreover have "- (y * (4 * W)) \<le> cv" using st(3) by linarith
    ultimately have "W * (1 - 5 * y) \<le> fv + cv" by (simp add: algebra_simps)
    moreover have "W * (1 - ?u) ^ (7 * ?n) \<le> W * (1 - 5 * y)" using p W0 by (intro mult_left_mono)
    ultimately show ?thesis by linarith
  qed
  have hi: "fv + cv \<le> W * (1 + ?u) ^ (5 * ?n)"
  proof -
    define P where "P = (1 + ?u) ^ ?n"
    have P1: "1 \<le> P" unfolding P_def using u(5) by (rule one_le_power)
    have "1 + of_nat (4 * ?n) * ?u \<le> (1 + ?u) ^ (4 * ?n)" using u(1) by (rule bernoulli_upper)
    then have b4: "1 + 4 * y \<le> (1 + ?u) ^ (4 * ?n)" by (simp add: y_def)
    have "P + 4 * y \<le> P * (1 + 4 * y)"
    proof -
      have "4 * y * 1 \<le> 4 * y * P" using P1 y0 by (intro mult_left_mono) simp_all
      then show ?thesis by (simp add: algebra_simps)
    qed
    also have "\<dots> \<le> P * (1 + ?u) ^ (4 * ?n)" using b4 P1 by (intro mult_left_mono) simp_all
    also have "\<dots> = (1 + ?u) ^ (5 * ?n)" unfolding P_def by (simp add: power_add[symmetric])
    finally have q: "P + 4 * y \<le> (1 + ?u) ^ (5 * ?n)" .
    have "fv + cv \<le> W * P + y * (4 * W)" using st(2,3) unfolding P_def by linarith
    also have "\<dots> = W * (P + 4 * y)" by (simp add: algebra_simps)
    also have "\<dots> \<le> W * (1 + ?u) ^ (5 * ?n)" using q W0 by (intro mult_left_mono)
    finally show ?thesis .
  qed
  have s0: "0 \<le> fv + cv"
  proof -
    have "0 \<le> W * (1 - ?u) ^ (7 * ?n)" using W0 u(4) by simp
    with lo show ?thesis by linarith
  qed
  \<comment> \<open>the result\<close>
  have res: "py_sum Compensated (map Fin ws)
      = (if Fin cv \<noteq> Fin 0 \<and> py_isfinite (Fin cv) then py_add (Fin fv) (Fin cv) else Fin fv)"
    using v(3) fc unfolding Cons by (simp add: is_double_def)
  have "\<exists>T. py_sum Compensated (map Fin ws) = Fin T \<and>
             (fv + cv) * (1 - ?u) \<le> T \<and> T \<le> (fv + cv) * (1 + ?u)"
  proof (cases "cv = 0")
    case True
    have "fv * (1 - ?u) \<le> fv * 1" "fv * 1 \<le> fv * (1 + ?u)"
      using s0 True u by (intro mult_left_mono; simp)+
    then show ?thesis using res True by simp
  next
    case False
    have fb: "fv + cv \<le> 2 powi 1023"
    proof -
      have "W \<le> of_nat (Suc ?n) * 2 powi g"
      proof -
        have "sum_list xr \<le> of_nat ?n * 2 powi g"
          using sum_list_bounded(2)[of xr 0 "2 powi g"] xb by simp
        then show ?thesis unfolding W_def using v(2) by (simp add: algebra_simps)
      qed
      also have "\<dots> \<le> 2 ^ 50 * 2 powi g"
      proof -
        have "(of_nat (Suc ?n) :: rat) \<le> of_nat (2 ^ 50)" using l1(1) by (simp only: of_nat_le_iff)
        then show ?thesis by (intro mult_right_mono) simp_all
      qed
      also have "\<dots> = 2 powi 50 * 2 powi g" by simp
      also have "\<dots> = 2 powi (50 + g)" by (rule powi2_add[symmetric])
      finally have WN: "W \<le> 2 powi (50 + g)" .
      have "5 * ?n \<le> 2 ^ 50" using l8 by simp
      then have "(1 + ?u) ^ (5 * ?n) \<le> 2" by (rule power_up_bounds)
      then have "W * (1 + ?u) ^ (5 * ?n) \<le> W * 2" using W0 by (intro mult_left_mono)
      then have "fv + cv \<le> 2 * 2 powi (50 + g)" using hi WN by linarith
      also have "\<dots> = 2 powi (50 + g + 1)" by (rule powi2_double)
      also have "\<dots> \<le> 2 powi 1023" using g by (intro powi2_le) simp
      finally show ?thesis .
    qed
    then have "\<bar>fv + cv\<bar> \<le> 2 powi 1023" using s0 by simp
    then obtain T where T: "round_double (fv + cv) = Fin T" using round_double_total by blast
    have "\<bar>T - (fv + cv)\<bar> \<le> (fv + cv) * ?u" using add_rel[OF st(4,5) T] s0 by simp
    then have "(fv + cv) * (1 - ?u) \<le> T" "T \<le> (fv + cv) * (1 + ?u)"
      unfolding abs_le_iff by (simp_all add: algebra_simps)
    then show ?thesis using res False T by simp
  qed
  then obtain T where T: "py_sum Compensated (map Fin ws) = Fin T"
    and T1: "(fv + cv) * (1 - ?u) \<le> T" and T2: "T \<le> (fv + cv) * (1 + ?u)" by blast
  have "W * (1 - ?u) ^ (8 * length ws) \<le> W * (1 - ?u) ^ Suc (7 * ?n)"
  proof -
    have "(1 - ?u) ^ (8 * length ws) \<le> (1 - ?u) ^ Suc (7 * ?n)"
      using u(4,6) unfolding Cons by (intro power_decreasing) simp_all
    then show ?thesis using W0 by (intro mult_left_mono)
  qed
  also have "\<dots> = W * (1 - ?u) ^ (7 * ?n) * (1 - ?u)" by simp
  also have "\<dots> \<le> (fv + cv) * (1 - ?u)" using lo u(4) by (intro mult_right_mono)
  also have "\<dots> \<le> T" by (rule T1)
  finally have L: "sum_list ws * (1 - ?u) ^ (8 * length ws) \<le> T" unfolding Wsum .
  have "T \<le> (fv + cv) * (1 + ?u)" by (rule T2)
  also have "\<dots> \<le> W * (1 + ?u) ^ (5 * ?n) * (1 + ?u)" using hi u(1) by (intro mult_right_mono) simp_all
  also have "\<dots> = W * (1 + ?u) ^ Suc (5 * ?n)" by simp
  also have "\<dots> \<le> W * (1 + ?u) ^ (8 * length ws)"
  proof -
    have "(1 + ?u) ^ Suc (5 * ?n) \<le> (1 + ?u) ^ (8 * length ws)"
      using u(5) unfolding Cons by (intro power_increasing) simp_all
    then show ?thesis using W0 by (intro mult_left_mono)
  qed
  finally have U: "T \<le> sum_list ws * (1 + ?u) ^ (8 * length ws)" unfolding Wsum .
  show ?thesis using T L U by blast
qed

section \<open>Signs of the sum and of the ideal shares\<close>

lemma py_sum_nonneg:
  assumes nn: "\<forall>w \<in> set ws. py_nonneg w \<and> py_is_double w" and len: "length ws \<le> 2 ^ 50"
  shows "py_nonneg (py_sum sm ws)"
proof (cases sm)
  case Left_to_right
  have "py_nonneg (foldl py_add (Fin 0) ws)"
    using nn by (intro py_sum_nonneg_aux) (simp_all add: py_nonneg_def)
  then show ?thesis using Left_to_right by simp
next
  case Compensated
  show ?thesis
  proof (cases ws)
    case Nil
    then show ?thesis using Compensated by (simp add: py_nonneg_def)
  next
    case (Cons x xs)
    have x: "py_nonneg x" "py_is_double x" using nn Cons by simp_all
    have rest: "\<forall>w \<in> set xs. py_nonneg w" "\<forall>w \<in> set xs. py_is_double w" using nn Cons by simp_all
    have first: "py_add (Fin 0) x = x"
      using x by (cases x) (simp_all add: is_double_def py_nonneg_def)
    obtain f c where fc: "compensated x (Fin 0) xs = (f, c)" by force
    have f: "f = foldl py_add x xs" using compensated_fst[of x "Fin 0" xs] fc by simp
    have fn: "py_nonneg f" unfolding f using x(1) rest(1) by (rule py_sum_nonneg_aux)
    have res: "py_sum sm ws = (if c \<noteq> Fin 0 \<and> py_isfinite c then py_add f c else f)"
      using Compensated Cons first fc by simp
    show ?thesis
    proof (cases "c \<noteq> Fin 0 \<and> py_isfinite c")
      case False
      have "py_sum sm ws = f" unfolding res using False by (rule if_not_P)
      then show ?thesis using fn by simp
    next
      case True
      have res': "py_sum sm ws = py_add f c" unfolding res using True by (rule if_P)
      obtain cv where cv: "c = Fin cv" using True by (cases c) simp_all
      show ?thesis
      proof (cases f)
        case (Fin fv)
        have "foldl py_add x xs = Fin fv" using f Fin by simp
        then have "(\<exists>v. x = Fin v) \<and> (\<forall>y \<in> set xs. \<exists>v. y = Fin v)" by (rule foldl_add_Fin)
        then obtain v0 where v0: "x = Fin v0" and allfin: "\<forall>y \<in> set xs. \<exists>v. y = Fin v" by blast
        define xr where "xr = map fin_val xs"
        have xs_eq: "xs = map Fin xr" unfolding xr_def using allfin
          by (induction xs) auto
        have xr: "\<forall>v \<in> set xr. 0 \<le> v \<and> is_double v"
          using rest unfolding xs_eq by (auto simp: py_nonneg_def)
        have lenr: "length xr \<le> 2 ^ 50" using len Cons by (simp add: xr_def)
        have "0 \<le> fv + cv"
        proof (rule compensated_nonneg)
          show "compensated (Fin v0) (Fin 0) (map Fin xr) = (Fin fv, Fin cv)"
            using fc v0 xs_eq Fin cv by simp
          show "is_double v0" "0 \<le> v0" using x v0 by (simp_all add: py_nonneg_def)
        qed (use xr lenr in simp_all)
        then have "py_nonneg (round_double (fv + cv))" by (rule round_double_nonneg)
        then show ?thesis using res' Fin cv by simp
      next
        case PInf
        then show ?thesis using res' cv by (simp add: py_nonneg_def)
      qed (use fn in \<open>simp_all add: py_nonneg_def\<close>)
    qed
  qed
qed

lemma py_truediv_nonneg:
  "py_nonneg a \<Longrightarrow> py_nonneg b \<Longrightarrow> py_truediv a b = Inr (Fin q) \<Longrightarrow> 0 \<le> q"
proof (cases b)
  case (Fin y)
  assume a: "py_nonneg a" and b: "py_nonneg b" and d: "py_truediv a b = Inr (Fin q)"
  have y: "0 < y" using b d Fin by (auto simp: py_nonneg_def split: if_splits)
  show ?thesis
  proof (cases a)
    case (Fin x)
    then have "0 \<le> x / y" using a y by (simp add: py_nonneg_def)
    then have "py_nonneg (round_double (x / y))" by (rule round_double_nonneg)
    moreover have "round_double (x / y) = Fin q" using d Fin \<open>b = Fin y\<close> y by simp
    ultimately show ?thesis by (simp add: py_nonneg_def)
  qed (use a d Fin y in \<open>auto simp: py_nonneg_def split: if_splits\<close>)
next
  case PInf
  assume "py_truediv a b = Inr (Fin q)"
  then show ?thesis using PInf by (cases a) auto
qed (auto simp: py_nonneg_def)

lemma py_mul_nonneg:
  "0 \<le> q \<Longrightarrow> 0 \<le> s \<Longrightarrow> py_mul (Fin q) (Fin s) = Fin x \<Longrightarrow> 0 \<le> x"
  using round_double_nonneg[of "q * s"] by (simp add: py_nonneg_def)

lemma weight_nonneg:
  assumes "py_lt (Fin 0) p" "py_truediv (Fin 1) p = Inr w"
  shows "py_nonneg w"
proof (cases p)
  case (Fin x)
  then have x: "0 < x" using assms(1) by simp
  then have "w = round_double (1 / x)" using assms(2) Fin by simp
  then show ?thesis using x round_double_nonneg[of "1 / x"] by simp
qed (use assms in \<open>auto simp: py_nonneg_def\<close>)

lemma float_of_int_pos:
  assumes "0 < n" "float_of_int n = Inr f"
  obtains s where "f = Fin s" "0 \<le> s"
proof -
  have "py_nonneg (round_double (of_int n))" using assms(1) by (intro round_double_nonneg) simp
  then show ?thesis using assms(2) that unfolding float_of_int_def
    by (auto simp: py_nonneg_def split: pyfloat.splits)
qed

lemma map_of_rel:
  "list_all2 (\<lambda>(k, x) (k', y). k' = k \<and> R k x y) xs ys \<Longrightarrow> map_of ys k = Some y \<Longrightarrow>
   \<exists>x. map_of xs k = Some x \<and> R k x y"
  by (induction rule: list_all2_induct) (auto split: if_splits)

lemma map_of_rel':
  "list_all2 (\<lambda>(k, x) (k', y). k' = k \<and> R k x y) xs ys \<Longrightarrow> map_of xs k = Some x \<Longrightarrow>
   \<exists>y. map_of ys k = Some y \<and> R k x y"
  by (induction rule: list_all2_induct) (auto split: if_splits)

lemma inverse_odds_rel:
  "inverse_odds od = Inr ws \<Longrightarrow>
   list_all2 (\<lambda>(k, d) (k', w). k' = k \<and> py_truediv (Fin 1) (snd d) = Inr w) od ws"
  unfolding inverse_odds_def
  by (drule map_err_Inr, erule list_all2_mono) (auto split: sum.splits)

lemma ideal_stakes_rel:
  "ideal_stakes sm ws S = Inr ideal \<Longrightarrow>
   list_all2 (\<lambda>(k, w) (k', x). k' = k \<and>
      (\<exists>q s. py_truediv w (py_sum sm (map snd ws)) = Inr q \<and> float_of_int S = Inr s \<and> x = py_mul q s))
     ws ideal"
  unfolding ideal_stakes_def Let_def
  by (drule map_err_Inr, erule list_all2_mono) (auto split: sum.splits)

lemma rounded_stakes_rel:
  "rounded_stakes ideal = Inr rs \<Longrightarrow>
   list_all2 (\<lambda>(k, x) (k', n). k' = k \<and> py_int x = Inr n) ideal rs"
  unfolding rounded_stakes_def
  by (drule map_err_Inr, erule list_all2_mono) (auto split: sum.splits)

lemma py_truediv_double: "py_truediv a b = Inr w \<Longrightarrow> py_is_double w"
proof (cases b)
  case (Fin y)
  assume d: "py_truediv a b = Inr w"
  show ?thesis
  proof (cases a)
    case a: (Fin x)
    have w: "w = round_double (x / y)" using d Fin a by (simp split: if_splits)
    show ?thesis
    proof (cases w)
      case r: (Fin r)
      then have "is_double r" using w round_double_is_double[of "x / y" r] by simp
      then show ?thesis using r by simp
    qed simp_all
  qed (use d Fin in \<open>auto split: if_splits\<close>)
qed (cases a; auto)+

lemma weights_nonneg:
  assumes "\<forall>(outcome, bookie, odd) \<in> set od. py_lt (Fin 0) odd" "inverse_odds od = Inr ws"
  shows "\<forall>w \<in> set (map snd ws). py_nonneg w \<and> py_is_double w"
proof -
  have "list_all2 (\<lambda>(k, d) (k', w). k' = k \<and> py_truediv (Fin 1) (snd d) = Inr w) od ws"
    using assms(2) by (rule inverse_odds_rel)
  then have "list_all2 (\<lambda>d w. py_nonneg (snd w) \<and> py_is_double (snd w)) od ws"
    by (rule list.rel_mono_strong) (use assms(1) in \<open>auto intro: weight_nonneg py_truediv_double\<close>)
  then show ?thesis by (induction rule: list_all2_induct) auto
qed

lemma ideal_share_nonneg:
  assumes "\<forall>(outcome, bookie, odd) \<in> set od. py_lt (Fin 0) odd" "0 < S"
    and "inverse_odds od = Inr ws" "ideal_stakes sm ws S = Inr ideal"
    and "(k, Fin share) \<in> set ideal" and "length od \<le> 2 ^ 50"
  shows "0 \<le> share"
proof -
  have wn: "\<forall>w \<in> set (map snd ws). py_nonneg w \<and> py_is_double w"
    using assms(1,3) by (rule weights_nonneg)
  have "length (map snd ws) \<le> 2 ^ 50"
    using arg_cong[OF inverse_odds_keys[OF assms(3)], of length] assms(6) by simp
  with wn have tn: "py_nonneg (py_sum sm (map snd ws))" by (rule py_sum_nonneg)
  have "list_all2 (\<lambda>(k, w) (k', x). k' = k \<and>
      (\<exists>q s. py_truediv w (py_sum sm (map snd ws)) = Inr q \<and> float_of_int S = Inr s \<and> x = py_mul q s))
     ws ideal" using assms(4) by (rule ideal_stakes_rel)
  then obtain kw where kw: "kw \<in> set ws"
    and r: "(\<lambda>(k, w) (k', x). k' = k \<and>
      (\<exists>q s. py_truediv w (py_sum sm (map snd ws)) = Inr q \<and> float_of_int S = Inr s \<and> x = py_mul q s))
       kw (k, Fin share)"
    using assms(5) by (metis (no_types, lifting) in_set_conv_nth list_all2_conv_all_nth)
  obtain k' w where kw': "kw = (k', w)" by (cases kw)
  obtain q s where q: "py_truediv w (py_sum sm (map snd ws)) = Inr q"
    and s: "float_of_int S = Inr s" and x: "Fin share = py_mul q s"
    using r kw' by auto
  have w: "py_nonneg w" using wn kw kw' by force
  obtain sv where sv: "s = Fin sv" "0 \<le> sv" using assms(2) s by (rule float_of_int_pos)
  obtain qv where qv: "q = Fin qv" using x sv by (cases q) (auto split: if_splits)
  have "0 \<le> qv" using w tn q qv by (auto intro: py_truediv_nonneg)
  then show ?thesis using x sv qv py_mul_nonneg[of qv sv share] by simp
qed

section \<open>Rounding error of the shares\<close>

lemma fold_sum_bounds:
  fixes ws :: "rat list"
  assumes "\<forall>w \<in> set ws. 2 powi (- g) \<le> w \<and> w \<le> 2 powi g"
    and "0 \<le> g" "g \<le> 971"
    and "0 \<le> A" "A * (1 - unit_roundoff) ^ k \<le> a" "a \<le> A * (1 + unit_roundoff) ^ k"
    and "A \<le> of_nat k * 2 powi g"
    and "k + length ws \<le> 2 ^ 50"
  shows "\<exists>T. foldl py_add (Fin a) (map Fin ws) = Fin T \<and>
             (A + sum_list ws) * (1 - unit_roundoff) ^ (k + length ws) \<le> T \<and>
             T \<le> (A + sum_list ws) * (1 + unit_roundoff) ^ (k + length ws)"
  using assms
proof (induction ws arbitrary: a A k)
  case Nil
  then show ?case by simp
next
  case (Cons w ws)
  let ?u = unit_roundoff
  have wb: "2 powi (- g) \<le> w" "w \<le> 2 powi g" using Cons.prems(1) by simp_all
  have w0: "0 < w" using wb(1) powi2_pos[of "- g"] by linarith
  have k50: "k \<le> 2 ^ 50" using Cons.prems(8) by simp
  have up: "1 \<le> (1 + ?u) ^ k" "(1 + ?u) ^ k \<le> 2" using k50 by (rule power_up_bounds)+
  have dn: "0 \<le> (1 - ?u) ^ k" "(1 - ?u) ^ k \<le> 1" by (rule power_down_bounds)+
  have a0: "0 \<le> a"
  proof -
    have "0 \<le> A * (1 - ?u) ^ k" using Cons.prems(4) dn(1) by simp
    with Cons.prems(5) show ?thesis by linarith
  qed
  have a2: "a \<le> 2 * A"
  proof -
    have "A * (1 + ?u) ^ k \<le> A * 2" using up(2) Cons.prems(4) by (intro mult_left_mono)
    with Cons.prems(6) show ?thesis by linarith
  qed
  have n1: "2 powi (- 1022) \<le> a + w"
    using wb(1) a0 powi2_le[of "- 1022" "- g"] Cons.prems(3) by linarith
  have n2: "a + w \<le> 2 powi 1023"
  proof -
    have kk: "(of_nat k :: rat) \<le> 2 ^ 50"
    proof -
      have "(of_nat k :: rat) \<le> of_nat (2 ^ 50)" using k50 by (simp only: of_nat_le_iff)
      then show ?thesis by simp
    qed
    have "a + w \<le> 2 * (of_nat k * 2 powi g) + 2 powi g" using a2 Cons.prems(7) wb(2) by linarith
    also have "\<dots> = (2 * of_nat k + 1) * 2 powi g" by (simp add: algebra_simps)
    also have "\<dots> \<le> 2 ^ 52 * 2 powi g" using kk by (intro mult_right_mono) simp_all
    also have "\<dots> = 2 powi 52 * 2 powi g" by simp
    also have "\<dots> = 2 powi (52 + g)" by (rule powi2_add[symmetric])
    also have "\<dots> \<le> 2 powi 1023" using Cons.prems(3) by (intro powi2_le) simp
    finally show ?thesis .
  qed
  define a' where "a' = rdv (a + w)"
  have r: "round_double (a + w) = Fin a'" "(a + w) * (1 - ?u) \<le> a'" "a' \<le> (a + w) * (1 + ?u)"
    unfolding a'_def using n1 n2 by (rule rdv_rel)+
  have u1: "0 \<le> 1 - ?u" "0 \<le> 1 + ?u" using unit_roundoff_small unit_roundoff_pos by linarith+
  have lo': "(A + w) * (1 - ?u) ^ Suc k \<le> a'"
  proof -
    have "w * (1 - ?u) ^ k \<le> w * 1" using dn(2) w0 by (intro mult_left_mono) simp_all
    then have "(A + w) * (1 - ?u) ^ k \<le> a + w" using Cons.prems(5) by (simp add: algebra_simps)
    then have "(A + w) * (1 - ?u) ^ k * (1 - ?u) \<le> (a + w) * (1 - ?u)"
      using u1(1) by (intro mult_right_mono)
    with r(2) show ?thesis by (simp add: mult.assoc mult.commute[of "1 - ?u"])
  qed
  have hi': "a' \<le> (A + w) * (1 + ?u) ^ Suc k"
  proof -
    have "w * 1 \<le> w * (1 + ?u) ^ k" using up(1) w0 by (intro mult_left_mono) simp_all
    then have "a + w \<le> (A + w) * (1 + ?u) ^ k" using Cons.prems(6) by (simp add: algebra_simps)
    then have "(a + w) * (1 + ?u) \<le> (A + w) * (1 + ?u) ^ k * (1 + ?u)"
      using u1(2) by (intro mult_right_mono)
    with r(3) show ?thesis by (simp add: mult.assoc mult.commute[of "1 + ?u"])
  qed
  have A': "A + w \<le> of_nat (Suc k) * 2 powi g"
    using Cons.prems(7) wb(2) by (simp add: algebra_simps)
  have "\<exists>T. foldl py_add (Fin a') (map Fin ws) = Fin T \<and>
             ((A + w) + sum_list ws) * (1 - ?u) ^ (Suc k + length ws) \<le> T \<and>
             T \<le> ((A + w) + sum_list ws) * (1 + ?u) ^ (Suc k + length ws)"
  proof (rule Cons.IH)
    show "\<forall>w \<in> set ws. 2 powi (- g) \<le> w \<and> w \<le> 2 powi g" using Cons.prems(1) by simp
    show "0 \<le> A + w" using Cons.prems(4) w0 by simp
    show "Suc k + length ws \<le> 2 ^ 50" using Cons.prems(8) by simp
  qed (use Cons.prems(2,3) lo' hi' A' in simp_all)
  then show ?case using r(1) by (simp add: add.assoc)
qed

lemma py_sum_bounds:
  fixes ws :: "rat list"
  assumes wb: "\<forall>w \<in> set ws. 2 powi (- g) \<le> w \<and> w \<le> 2 powi g \<and> is_double w"
    and g: "0 \<le> g" "g \<le> 960" and len: "8 * length ws \<le> 2 ^ 50"
  obtains T where "py_sum sm (map Fin ws) = Fin T"
    "sum_list ws * (1 - unit_roundoff) ^ (8 * length ws) \<le> T"
    "T \<le> sum_list ws * (1 + unit_roundoff) ^ (8 * length ws)"
proof (cases sm)
  case Left_to_right
  let ?u = unit_roundoff
  have b: "\<forall>w \<in> set ws. 2 powi (- g) \<le> w \<and> w \<le> 2 powi g" using wb by simp
  have "\<exists>T. foldl py_add (Fin 0) (map Fin ws) = Fin T \<and>
             (0 + sum_list ws) * (1 - ?u) ^ (0 + length ws) \<le> T \<and>
             T \<le> (0 + sum_list ws) * (1 + ?u) ^ (0 + length ws)"
    using b g len by (intro fold_sum_bounds[where g = g]) simp_all
  then obtain T where T: "py_sum sm (map Fin ws) = Fin T"
    and lo: "sum_list ws * (1 - ?u) ^ length ws \<le> T"
    and hi: "T \<le> sum_list ws * (1 + ?u) ^ length ws"
    using Left_to_right by auto
  have W0: "0 \<le> sum_list ws"
  proof (rule sum_list_nonneg)
    fix w assume "w \<in> set ws"
    then have "2 powi (- g) \<le> w" using b by simp
    then show "0 \<le> w" using powi2_pos[of "- g"] by linarith
  qed
  have u: "0 \<le> 1 - ?u" "1 - ?u \<le> 1" "1 \<le> 1 + ?u"
    using unit_roundoff_pos unit_roundoff_small by linarith+
  have "(1 - ?u) ^ (8 * length ws) \<le> (1 - ?u) ^ length ws"
    using u(1,2) by (intro power_decreasing) simp_all
  then have "sum_list ws * (1 - ?u) ^ (8 * length ws) \<le> sum_list ws * (1 - ?u) ^ length ws"
    using W0 by (intro mult_left_mono)
  then have L: "sum_list ws * (1 - ?u) ^ (8 * length ws) \<le> T" using lo by linarith
  have "(1 + ?u) ^ length ws \<le> (1 + ?u) ^ (8 * length ws)"
    using u(3) by (intro power_increasing) simp_all
  then have "sum_list ws * (1 + ?u) ^ length ws \<le> sum_list ws * (1 + ?u) ^ (8 * length ws)"
    using W0 by (intro mult_left_mono)
  then have U: "T \<le> sum_list ws * (1 + ?u) ^ (8 * length ws)" using hi by linarith
  show ?thesis using that T L U by blast
next
  case Compensated
  have "\<forall>w \<in> set ws. 0 \<le> w \<and> w \<le> 2 powi g \<and> is_double w"
  proof
    fix w assume w: "w \<in> set ws"
    then have "2 powi (- g) \<le> w" using wb by simp
    then have "0 \<le> w" using powi2_pos[of "- g"] by linarith
    then show "0 \<le> w \<and> w \<le> 2 powi g \<and> is_double w" using wb w by simp
  qed
  then have "\<exists>T. py_sum Compensated (map Fin ws) = Fin T \<and>
             sum_list ws * (1 - unit_roundoff) ^ (8 * length ws) \<le> T \<and>
             T \<le> sum_list ws * (1 + unit_roundoff) ^ (8 * length ws)"
    using g(2) len by (rule compensated_sum_bounds)
  then show ?thesis using that Compensated by auto
qed

lemma ratio_upper:
  fixes W T :: rat
  assumes "0 < W" "W * (1 - unit_roundoff) ^ n \<le> T" "n \<le> 2 ^ 50"
  shows "0 < T" and "W / T \<le> 1 / (1 - of_nat n * unit_roundoff)"
proof -
  let ?t = "of_nat n * unit_roundoff"
  have c: "?t \<le> 1 / 8" using assms(3) by (rule roundoff_count)
  have b: "1 - ?t \<le> (1 - unit_roundoff) ^ n"
    using unit_roundoff_pos unit_roundoff_small by (intro bernoulli_lower) simp_all
  have pos: "0 < 1 - ?t" using c by linarith
  have "W * (1 - ?t) \<le> W * (1 - unit_roundoff) ^ n" using b assms(1) by (intro mult_left_mono) simp_all
  then have wt: "W * (1 - ?t) \<le> T" using assms(2) by linarith
  moreover have "0 < W * (1 - ?t)" using assms(1) pos by simp
  ultimately show T0: "0 < T" by linarith
  have "0 < T * (W * (1 - ?t))" using T0 assms(1) pos by simp
  then have "W / T \<le> W / (W * (1 - ?t))"
    using wt assms(1) by (intro divide_left_mono) simp_all
  also have "\<dots> = 1 / (1 - ?t)" using assms(1) by simp
  finally show "W / T \<le> 1 / (1 - ?t)" .
qed

lemma ratio_lower:
  fixes W T :: rat
  assumes "0 < W" "0 < T" "T \<le> W * (1 + unit_roundoff) ^ n" "n \<le> 2 ^ 50"
  shows "1 - of_nat n * unit_roundoff \<le> W / T"
proof -
  let ?t = "of_nat n * unit_roundoff"
  have c: "?t \<le> 1 / 8" using assms(4) by (rule roundoff_count)
  have pos: "0 < 1 - ?t" using c by linarith
  have "(1 + unit_roundoff) ^ n \<le> 1 / (1 - ?t)"
    using unit_roundoff_pos c by (intro power_upper) simp_all
  then have "W * (1 + unit_roundoff) ^ n \<le> W * (1 / (1 - ?t))"
    using assms(1) by (intro mult_left_mono) simp_all
  then have "T \<le> W / (1 - ?t)" using assms(3) by simp
  then have "T * (1 - ?t) \<le> W" using pos by (simp add: pos_le_divide_eq)
  then show ?thesis using assms(2) by (simp add: pos_le_divide_eq mult.commute)
qed

lemma total_upper:
  fixes s R :: rat
  assumes "1 \<le> s" "(of_nat n + 2) * s \<le> 2 ^ 50" "0 \<le> R"
    and "R \<le> 1 / (1 - of_nat n * unit_roundoff)"
  shows "R * s * (1 + unit_roundoff)\<^sup>2 < s + 1"
proof -
  let ?u = unit_roundoff
  let ?n = "of_nat n :: rat"
  have n0: "0 \<le> ?n" by simp
  have ns: "?n * s \<le> 2 ^ 50" "2 * s \<le> 2 ^ 50"
  proof -
    have "(?n + 2) * s = ?n * s + 2 * s" by (simp add: algebra_simps)
    moreover have "0 \<le> ?n * s" "0 \<le> 2 * s" using assms(1) by simp_all
    ultimately show "?n * s \<le> 2 ^ 50" "2 * s \<le> 2 ^ 50" using assms(2) by linarith+
  qed
  have nn: "?n \<le> ?n * s" using assms(1) n0 by (simp add: mult_le_cancel_left1)
  have t: "?n * ?u \<le> 1 / 8"
  proof -
    have "?n * ?u \<le> 2 ^ 50 * ?u" using nn ns(1) unit_roundoff_pos by (intro mult_right_mono) simp_all
    then show ?thesis by (simp add: unit_roundoff_def)
  qed
  have pos: "0 < 1 - ?n * ?u" using t by linarith
  have sq: "(1 + ?u)\<^sup>2 \<le> 1 + 3 * ?u"
  proof -
    have "?u * ?u \<le> ?u * 1" using unit_roundoff_small unit_roundoff_pos by (intro mult_left_mono) simp_all
    moreover have "(1 + ?u)\<^sup>2 = 1 + 2 * ?u + ?u * ?u" by (simp add: power2_eq_square algebra_simps)
    ultimately show ?thesis by linarith
  qed
  have s0: "0 \<le> s" using assms(1) by simp
  have key: "s * (1 + 3 * ?u) < (s + 1) * (1 - ?n * ?u)"
  proof -
    have e: "(s + 1) * (1 - ?n * ?u) - s * (1 + 3 * ?u) = 1 - (3 * s + ?n * s + ?n) * ?u"
      by (simp add: algebra_simps)
    have "(2::rat) ^ 52 = 4 * 2 ^ 50" by simp
    then have "3 * s + ?n * s + ?n \<le> 2 ^ 52" using ns nn by linarith
    then have "(3 * s + ?n * s + ?n) * ?u \<le> 2 ^ 52 * ?u"
      using unit_roundoff_pos by (intro mult_right_mono) simp_all
    also have "\<dots> = 1 / 2" by (simp add: unit_roundoff_def)
    finally show ?thesis using e by linarith
  qed
  have "R * s * (1 + ?u)\<^sup>2 \<le> R * s * (1 + 3 * ?u)"
    using sq assms(3) s0 by (intro mult_left_mono) simp_all
  also have "\<dots> = R * (s * (1 + 3 * ?u))" by (simp add: mult.assoc)
  also have "\<dots> \<le> 1 / (1 - ?n * ?u) * (s * (1 + 3 * ?u))"
    using assms(4) s0 unit_roundoff_pos by (intro mult_right_mono) simp_all
  also have "\<dots> = s * (1 + 3 * ?u) / (1 - ?n * ?u)" by simp
  also have "\<dots> < s + 1" using key pos by (simp add: pos_divide_less_eq)
  finally show ?thesis .
qed

lemma total_lower:
  fixes s R :: rat
  assumes "1 \<le> s" "(of_nat n + 2) * s \<le> 2 ^ 50"
    and "1 - of_nat n * unit_roundoff \<le> R"
  shows "s - 1 < R * s * (1 - unit_roundoff)\<^sup>2"
proof -
  let ?u = unit_roundoff
  let ?n = "of_nat n :: rat"
  have n0: "0 \<le> ?n" by simp
  have s0: "0 \<le> s" using assms(1) by simp
  have ns: "?n * s \<le> 2 ^ 50" "2 * s \<le> 2 ^ 50"
  proof -
    have "(?n + 2) * s = ?n * s + 2 * s" by (simp add: algebra_simps)
    moreover have "0 \<le> ?n * s" "0 \<le> 2 * s" using assms(1) by simp_all
    ultimately show "?n * s \<le> 2 ^ 50" "2 * s \<le> 2 ^ 50" using assms(2) by linarith+
  qed
  have nn: "?n \<le> ?n * s" using assms(1) n0 by (simp add: mult_le_cancel_left1)
  have t: "?n * ?u \<le> 1 / 8"
  proof -
    have "?n * ?u \<le> 2 ^ 50 * ?u" using nn ns(1) unit_roundoff_pos by (intro mult_right_mono) simp_all
    then show ?thesis by (simp add: unit_roundoff_def)
  qed
  have pos: "0 \<le> 1 - ?n * ?u" using t by linarith
  have sq: "1 - 2 * ?u \<le> (1 - ?u)\<^sup>2"
  proof -
    have "(1 - ?u)\<^sup>2 = 1 - 2 * ?u + ?u * ?u" by (simp add: power2_eq_square algebra_simps)
    moreover have "0 \<le> ?u * ?u" by simp
    ultimately show ?thesis by linarith
  qed
  have sq0: "0 \<le> 1 - 2 * ?u" using unit_roundoff_small by (simp add: unit_roundoff_def)
  have "(1 - ?n * ?u) * s * (1 - 2 * ?u) = s - (?n * s + 2 * s) * ?u + 2 * (?n * s) * (?u * ?u)"
    by (simp add: algebra_simps)
  moreover have "0 \<le> 2 * (?n * s) * (?u * ?u)" using s0 by simp
  moreover have "(?n * s + 2 * s) * ?u \<le> 2 ^ 50 * ?u"
  proof -
    have "?n * s + 2 * s = (?n + 2) * s" by (simp add: algebra_simps)
    then show ?thesis using assms(2) unit_roundoff_pos by (intro mult_right_mono) simp_all
  qed
  moreover have "2 ^ 50 * ?u = 1 / 8" by (simp add: unit_roundoff_def)
  ultimately have "s - 1 < (1 - ?n * ?u) * s * (1 - 2 * ?u)" by linarith
  also have "\<dots> \<le> R * s * (1 - 2 * ?u)"
    using assms(3) s0 sq0 by (intro mult_right_mono) simp_all
  also have "\<dots> \<le> R * s * (1 - ?u)\<^sup>2"
  proof -
    have "0 \<le> R" using assms(3) pos by linarith
    then show ?thesis using sq s0 by (intro mult_left_mono) simp_all
  qed
  finally show ?thesis .
qed

lemma powi2_half_eq: "a = b + 1 \<Longrightarrow> (2::rat) powi a * (1 / 2) = 2 powi b"
  using powi2_succ[of b] by simp

lemma square_split: "a * s * b\<^sup>2 = (a * b) * (s * b)" for a s b :: rat
  by (simp add: power2_eq_square mult_ac)

lemma share_bounds:
  fixes w W T :: rat and S :: int
  assumes w: "2 powi (- g) \<le> w" "w \<le> W" and W: "W \<le> of_nat n * 2 powi g"
    and T: "W * (1 - unit_roundoff) ^ n \<le> T" "T \<le> W * (1 + unit_roundoff) ^ n"
    and n: "n \<le> 2 ^ 50" and g: "0 \<le> g" "g \<le> 485" and S: "1 \<le> S" "S \<le> 2 ^ 50"
  shows "T \<noteq> 0"
    and "round_double (w / T) = Fin (rdv (w / T))"
    and "round_double (rdv (w / T) * of_int S) = Fin (rdv (rdv (w / T) * of_int S))"
    and "w / T * of_int S * (1 - unit_roundoff)\<^sup>2 \<le> rdv (rdv (w / T) * of_int S)"
    and "rdv (rdv (w / T) * of_int S) \<le> w / T * of_int S * (1 + unit_roundoff)\<^sup>2"
    and "rdv (rdv (w / T) * of_int S) \<le> 3 * 2 ^ 51"
proof -
  let ?u = unit_roundoff
  let ?s = "of_int S :: rat"
  have w0: "0 < w" using w(1) powi2_pos[of "- g"] by linarith
  then have W0: "0 < W" using w(2) by linarith
  have T0: "0 < T" and RU: "W / T \<le> 1 / (1 - of_nat n * ?u)"
    using W0 T(1) n by (rule ratio_upper)+
  show "T \<noteq> 0" using T0 by simp
  have c: "of_nat n * ?u \<le> 1 / 8" using n by (rule roundoff_count)
  have "1 / (1 - of_nat n * ?u) \<le> 1 / (7 / 8)" using c by (intro divide_left_mono) simp_all
  then have R2: "W / T \<le> 2" using RU by simp
  have q_hi: "w / T \<le> 2"
  proof -
    have "w / T \<le> W / T" using w(2) T0 by (intro divide_right_mono) simp_all
    with R2 show ?thesis by linarith
  qed
  have s1: "1 \<le> ?s" "?s \<le> 2 ^ 50"
  proof -
    have "(of_int 1 :: rat) \<le> of_int S" using S(1) by (simp only: of_int_le_iff)
    then show "1 \<le> ?s" by simp
    have "(of_int S :: rat) \<le> of_int (2 ^ 50)" using S(2) by (simp only: of_int_le_iff)
    then show "?s \<le> 2 ^ 50" by simp
  qed
  have T_hi: "T \<le> 2 powi (g + 51)"
  proof -
    have nn: "(of_nat n :: rat) \<le> 2 ^ 50"
    proof -
      have "(of_nat n :: rat) \<le> of_nat (2 ^ 50)" using n by (simp only: of_nat_le_iff)
      then show ?thesis by simp
    qed
    have "(1 + ?u) ^ n \<le> 2" using n by (rule power_up_bounds)
    then have "W * (1 + ?u) ^ n \<le> W * 2" using W0 by (intro mult_left_mono) simp_all
    then have "T \<le> 2 * W" using T(2) by linarith
    also have "\<dots> \<le> 2 * (of_nat n * 2 powi g)" using W by simp
    also have "\<dots> \<le> 2 * (2 ^ 50 * 2 powi g)" using nn by (intro mult_left_mono mult_right_mono) simp_all
    also have "\<dots> = 2 powi 51 * 2 powi g" by simp
    also have "\<dots> = 2 powi (51 + g)" by (rule powi2_add[symmetric])
    also have "\<dots> = 2 powi (g + 51)" by (rule arg_cong[where f = "\<lambda>i. 2 powi i"]) simp
    finally show ?thesis .
  qed
  have q_lo: "2 powi (- 2 * g - 51) \<le> w / T"
  proof -
    have "2 powi (- 2 * g - 51) * T \<le> 2 powi (- 2 * g - 51) * 2 powi (g + 51)"
      using T_hi by (intro mult_left_mono) simp_all
    also have "\<dots> = 2 powi ((- 2 * g - 51) + (g + 51))" by (rule powi2_add[symmetric])
    also have "\<dots> = 2 powi (- g)" by (rule arg_cong[where f = "\<lambda>i. 2 powi i"]) simp
    also have "\<dots> \<le> w" by (rule w(1))
    finally show ?thesis using T0 by (simp add: pos_le_divide_eq)
  qed
  have n1: "2 powi (- 1022) \<le> w / T"
  proof -
    have "(2::rat) powi (- 1022) \<le> 2 powi (- 2 * g - 51)" using g(2) by (intro powi2_le) simp
    with q_lo show ?thesis by linarith
  qed
  have n2: "w / T \<le> 2 powi 1023"
  proof -
    have "(2::rat) powi 1 \<le> 2 powi 1023" by (intro powi2_le) simp
    then have "(2::rat) \<le> 2 powi 1023" by simp
    with q_hi show ?thesis by linarith
  qed
  define q where "q = rdv (w / T)"
  show rq: "round_double (w / T) = Fin (rdv (w / T))" using n1 n2 by (rule rdv_rel)
  have q1: "w / T * (1 - ?u) \<le> q" and q2: "q \<le> w / T * (1 + ?u)"
    unfolding q_def using n1 n2 by (rule rdv_rel)+
  have u1: "1 / 2 \<le> 1 - ?u" "1 + ?u \<le> 2" "0 \<le> 1 + ?u" "0 \<le> 1 - ?u"
    using unit_roundoff_small unit_roundoff_pos by linarith+
  have wT0: "0 \<le> w / T" using w0 T0 by simp
  have q_lo': "2 powi (- 2 * g - 52) \<le> q"
  proof -
    have "2 powi (- 2 * g - 51) * (1 / 2) \<le> w / T * (1 - ?u)"
      using q_lo u1(1) wT0 by (intro mult_mono) simp_all
    moreover have "(2::rat) powi (- 2 * g - 51) * (1 / 2) = 2 powi (- 2 * g - 52)"
      by (rule powi2_half_eq) simp
    ultimately show ?thesis using q1 by linarith
  qed
  have q0: "0 < q" using q_lo' powi2_pos[of "- 2 * g - 52"] by linarith
  have q_hi': "q \<le> 4"
  proof -
    have "w / T * (1 + ?u) \<le> 2 * 2" using q_hi u1(2,3) wT0 by (intro mult_mono) simp_all
    with q2 show ?thesis by linarith
  qed
  have m1: "2 powi (- 1022) \<le> q * ?s"
  proof -
    have "(2::rat) powi (- 1022) \<le> 2 powi (- 2 * g - 52)" using g(2) by (intro powi2_le) simp
    also have "\<dots> \<le> q" by (rule q_lo')
    also have "q = q * 1" by simp
    also have "q * 1 \<le> q * ?s" using s1(1) q0 by (intro mult_left_mono) simp_all
    finally show ?thesis .
  qed
  have xs: "q * ?s \<le> 2 ^ 52"
  proof -
    have "q * ?s \<le> 4 * 2 ^ 50" using q_hi' s1 q0 by (intro mult_mono) simp_all
    then show ?thesis by simp
  qed
  have m2: "q * ?s \<le> 2 powi 1023"
  proof -
    have "(2::rat) powi 52 \<le> 2 powi 1023" by (intro powi2_le) simp
    then have "(2::rat) ^ 52 \<le> 2 powi 1023" by simp
    with xs show ?thesis by linarith
  qed
  define f where "f = rdv (q * ?s)"
  show "round_double (rdv (w / T) * of_int S) = Fin (rdv (rdv (w / T) * of_int S))"
    unfolding q_def[symmetric] using m1 m2 by (rule rdv_rel)
  have f1: "q * ?s * (1 - ?u) \<le> f" and f2: "f \<le> q * ?s * (1 + ?u)"
    unfolding f_def using m1 m2 by (rule rdv_rel)+
  have s0: "0 \<le> ?s" using s1(1) by linarith
  have "w / T * ?s * (1 - ?u)\<^sup>2 = (w / T * (1 - ?u)) * (?s * (1 - ?u))"
    by (rule square_split)
  also have "\<dots> \<le> q * (?s * (1 - ?u))" using q1 s0 u1(4) by (intro mult_right_mono) simp_all
  also have "\<dots> = q * ?s * (1 - ?u)" by (simp add: mult.assoc)
  also have "\<dots> \<le> f" by (rule f1)
  finally show "w / T * of_int S * (1 - ?u)\<^sup>2 \<le> rdv (rdv (w / T) * of_int S)"
    unfolding f_def q_def .
  have "f \<le> q * ?s * (1 + ?u)" by (rule f2)
  also have "\<dots> = q * (?s * (1 + ?u))" by (simp add: mult.assoc)
  also have "\<dots> \<le> (w / T * (1 + ?u)) * (?s * (1 + ?u))"
    using q2 s0 u1(3) by (intro mult_right_mono) simp_all
  also have "\<dots> = w / T * ?s * (1 + ?u)\<^sup>2" by (rule square_split[symmetric])
  finally show "rdv (rdv (w / T) * of_int S) \<le> w / T * of_int S * (1 + ?u)\<^sup>2"
    unfolding f_def q_def .
  have "f \<le> q * ?s * (1 + ?u)" by (rule f2)
  also have "\<dots> \<le> 2 ^ 52 * (3 / 2)"
  proof -
    have "1 + ?u \<le> 3 / 2" using unit_roundoff_small by linarith
    then show ?thesis using xs u1(3) q0 s0 by (intro mult_mono) simp_all
  qed
  also have "\<dots> = 3 * 2 ^ 51" by simp
  finally show "rdv (rdv (w / T) * of_int S) \<le> 3 * 2 ^ 51" unfolding f_def q_def .
qed

lemma map_err_all_Inr:
  "(\<And>x. x \<in> set xs \<Longrightarrow> \<exists>y. f x = Inr y) \<Longrightarrow> \<exists>ys. map_err f xs = Inr ys"
proof (induction xs)
  case Nil
  then show ?case by simp
next
  case (Cons a xs)
  obtain y where y: "f a = Inr y" using Cons.prems[of a] by auto
  obtain ys where ys: "map_err f xs = Inr ys" using Cons by force
  show ?case using y ys by simp
qed

lemma sum_list_floor_bounds:
  fixes fs :: "rat list"
  shows "of_int (sum_list (map floor fs)) \<le> sum_list fs"
    and "sum_list fs - of_nat (length fs) \<le> of_int (sum_list (map floor fs))"
proof -
  show "of_int (sum_list (map floor fs)) \<le> sum_list fs"
  proof (induction fs)
    case Nil
    then show ?case by simp
  next
    case (Cons a fs)
    show ?case using add_mono[OF of_int_floor_le[of a] Cons] by simp
  qed
  show "sum_list fs - of_nat (length fs) \<le> of_int (sum_list (map floor fs))"
  proof (induction fs)
    case Nil
    then show ?case by simp
  next
    case (Cons a fs)
    have h: "a - 1 \<le> of_int \<lfloor>a\<rfloor>" by linarith
    show ?case using add_mono[OF h Cons] by simp
  qed
qed

lemma sum_list_scaled_upper:
  fixes ws :: "rat list"
  assumes "\<forall>w \<in> set ws. h w \<le> w * c"
  shows "sum_list (map h ws) \<le> sum_list ws * c"
  using assms by (induction ws) (auto simp: algebra_simps)

lemma sum_list_scaled_lower:
  fixes ws :: "rat list"
  assumes "\<forall>w \<in> set ws. w * c \<le> h w"
  shows "sum_list ws * c \<le> sum_list (map h ws)"
  using assms by (induction ws) (auto simp: algebra_simps)

lemma member_le_sum_list_pos:
  fixes ws :: "rat list"
  assumes "\<forall>w \<in> set ws. 0 \<le> w" "w \<in> set ws"
  shows "w \<le> sum_list ws"
  using assms
proof (induction ws)
  case Nil
  then show ?case by simp
next
  case (Cons a ws)
  have s0: "0 \<le> sum_list ws" using Cons.prems(1) by (intro sum_list_nonneg) simp
  show ?case
  proof (cases "w = a")
    case True
    then show ?thesis using s0 by simp
  next
    case False
    then have "w \<le> sum_list ws" using Cons by simp
    moreover have "0 \<le> a" using Cons.prems(1) by simp
    ultimately show ?thesis by simp
  qed
qed

lemma allocation_bounds:
  assumes H: "\<forall>(k, b, p) \<in> set od. \<exists>x. p = Fin x \<and> 2 powi (- 400) \<le> x \<and> x \<le> 2 powi 400"
    and ne: "od \<noteq> []" and S: "0 < S" and B: "(int (length od) + 1) * S \<le> 2 ^ 47"
  obtains ws ideal rs where
    "inverse_odds od = Inr ws" "ideal_stakes sm ws S = Inr ideal" "rounded_stakes ideal = Inr rs"
    "0 \<le> remainder_of rs S" "remainder_of rs S \<le> int (length od)"
    "\<forall>(k, v) \<in> set rs. 0 \<le> v \<and> v \<le> 3 * 2 ^ 51"
    "float_of_int S = Inr (Fin (of_int S))"
proof -
  let ?u = unit_roundoff
  let ?s = "of_int S :: rat"
  define n where "n = length od"
  define m where "m = 8 * n"
  have n1: "1 \<le> n" using ne unfolding n_def by (cases od) simp_all
  have S1: "1 \<le> S" using S by simp
  have B': "(int n + 1) * S \<le> 2 ^ 47" using B unfolding n_def .
  have S50: "S \<le> 2 ^ 50"
  proof -
    have "1 * S \<le> (int n + 1) * S" using S by (intro mult_right_mono) simp_all
    with B' show ?thesis by simp
  qed
  have n47: "int n \<le> 2 ^ 47"
  proof -
    have "int n * 1 \<le> (int n + 1) * S" using S1 by (intro mult_mono) simp_all
    with B' show ?thesis by simp
  qed
  have m50: "m \<le> 2 ^ 50"
  proof -
    have "int m \<le> int (2 ^ 50)" unfolding m_def using n47 by simp
    then show ?thesis by (simp only: of_nat_le_iff)
  qed
  have nm: "n \<le> m" unfolding m_def by simp
  have Br: "(of_nat m + 2) * ?s \<le> 2 ^ 50"
  proof -
    have "(int m + 2) * S \<le> 8 * ((int n + 1) * S)"
    proof -
      have "(int m + 2) * S \<le> (8 * int n + 8) * S"
        unfolding m_def using S by (intro mult_right_mono) simp_all
      then show ?thesis by (simp add: algebra_simps)
    qed
    then have "(int m + 2) * S \<le> 2 ^ 50" using B' by simp
    then have "(of_int ((int m + 2) * S) :: rat) \<le> of_int (2 ^ 50)" by (simp only: of_int_le_iff)
    then show ?thesis by simp
  qed
  have s1: "1 \<le> ?s"
  proof -
    have "(of_int 1 :: rat) \<le> of_int S" using S1 by (simp only: of_int_le_iff)
    then show ?thesis by simp
  qed
  \<comment> \<open>Step 1: the weights\<close>
  define wv where "wv = (\<lambda>e :: string \<times> string \<times> pyfloat. rdv (1 / fin_val (snd (snd e))))"
  define ws where "ws = map (\<lambda>e. (fst e, Fin (wv e))) od"
  define wl where "wl = map wv od"
  have price: "\<exists>x. snd (snd e) = Fin x \<and> 2 powi (- 400) \<le> x \<and> x \<le> 2 powi 400"
    if "e \<in> set od" for e using H that by (cases e) auto
  have wb: "round_double (1 / fin_val (snd (snd e))) = Fin (wv e) \<and>
            2 powi (- 401) \<le> wv e \<and> wv e \<le> 2 powi 401 \<and> is_double (wv e)"
    if eod: "e \<in> set od" for e
  proof -
    obtain x where x: "snd (snd e) = Fin x" "2 powi (- 400) \<le> x" "x \<le> 2 powi 400"
      using price[OF eod] by blast
    have a: "round_double (1 / x) = Fin (rdv (1 / x))"
      and b: "2 powi (- 400 - 1) \<le> rdv (1 / x)" and c: "rdv (1 / x) \<le> 2 powi (400 + 1)"
      using x(2,3) by (rule weight_bounds; simp)+
    have "(2::rat) powi (- 400 - 1) = 2 powi (- 401)" "(2::rat) powi (400 + 1) = 2 powi 401"
      by (rule arg_cong[where f = "\<lambda>i. 2 powi i"]; simp)+
    moreover have "is_double (rdv (1 / x))" using a by (rule round_double_is_double)
    ultimately show ?thesis using a b c x(1) unfolding wv_def by simp
  qed
  have inv: "inverse_odds od = Inr ws"
    unfolding inverse_odds_def ws_def
  proof (rule map_err_total)
    fix e assume e: "e \<in> set od"
    obtain x where x: "snd (snd e) = Fin x" "2 powi (- 400) \<le> x" using price[OF e] by blast
    have "0 < x" using x(2) powi2_pos[of "- 400"] by linarith
    then have "py_truediv (Fin 1) (snd (snd e)) = Inr (round_double (1 / x))" using x(1) by simp
    also have "round_double (1 / x) = Fin (wv e)" using wb[OF e] x(1) by simp
    finally show "(case e of (outcome, data) \<Rightarrow>
                    (case py_truediv (Fin 1) (snd data) of Inl e \<Rightarrow> Inl e
                     | Inr weight \<Rightarrow> Inr (outcome, weight))) = Inr (fst e, Fin (wv e))"
      by (cases e) simp
  qed
  have wl_doubles: "\<forall>w \<in> set wl. 2 powi (- 401) \<le> w \<and> w \<le> 2 powi 401 \<and> is_double w"
    unfolding wl_def using wb by auto
  then have wl_bounds: "\<forall>w \<in> set wl. 2 powi (- 401) \<le> w \<and> w \<le> 2 powi 401" by simp
  have wl_len: "length wl = n" unfolding wl_def n_def by simp
  have snd_ws: "map snd ws = map Fin wl" unfolding ws_def wl_def by simp
  \<comment> \<open>Step 2: their sum\<close>
  define W where "W = sum_list wl"
  obtain T where T: "py_sum sm (map Fin wl) = Fin T"
    "W * (1 - ?u) ^ m \<le> T" "T \<le> W * (1 + ?u) ^ m"
    using py_sum_bounds[OF wl_doubles, unfolded wl_len, of sm] m50 unfolding W_def m_def by auto
  have W_hi: "W \<le> of_nat m * 2 powi 401"
  proof -
    have "W \<le> of_nat n * 2 powi 401"
      using sum_list_bounded(2)[OF wl_bounds] unfolding W_def wl_len .
    also have "\<dots> \<le> of_nat m * 2 powi 401" using nm by (intro mult_right_mono) simp_all
    finally show ?thesis .
  qed
  have wl_pos: "\<forall>w \<in> set wl. 0 \<le> w"
  proof
    fix w assume "w \<in> set wl"
    then have "2 powi (- 401) \<le> w" using wl_bounds by simp
    then show "0 \<le> w" using powi2_pos[of "- 401"] by linarith
  qed
  have w_le_W: "w \<le> W" if "w \<in> set wl" for w
    unfolding W_def using wl_pos that by (rule member_le_sum_list_pos)
  obtain w0 where w0: "w0 \<in> set wl" using n1 wl_len by (cases wl) auto
  have W0: "0 < W"
  proof -
    have "2 powi (- 401) \<le> w0" using wl_bounds w0 by simp
    then have "0 < w0" using powi2_pos[of "- 401"] by linarith
    then show ?thesis using w_le_W[OF w0] by linarith
  qed
  \<comment> \<open>Step 3: the ideal shares\<close>
  define share where "share = (\<lambda>w. rdv (rdv (w / T) * ?s))"
  have sh: "T \<noteq> 0 \<and> round_double (w / T) = Fin (rdv (w / T)) \<and>
            round_double (rdv (w / T) * ?s) = Fin (share w) \<and>
            w / T * ?s * (1 - ?u)\<^sup>2 \<le> share w \<and>
            share w \<le> w / T * ?s * (1 + ?u)\<^sup>2 \<and> share w \<le> 3 * 2 ^ 51"
    if "w \<in> set wl" for w
  proof -
    have a: "2 powi (- 401) \<le> w" using wl_bounds that by simp
    show ?thesis unfolding share_def
      using share_bounds[OF a w_le_W[OF that] W_hi T(2,3) m50 _ _ S1 S50] by simp
  qed
  have fS: "float_of_int S = Inr (Fin ?s)"
  proof -
    have "round_double (of_int S) = Fin (of_int S)"
      using S S50 by (intro round_double_int_exact) simp_all
    then show ?thesis by (simp add: float_of_int_def)
  qed
  define ideal where "ideal = map (\<lambda>e. (fst e, Fin (share (wv e)))) od"
  have ideal_eq: "ideal = map (\<lambda>(k, w). (k, Fin (share (fin_val w)))) ws"
    unfolding ideal_def ws_def by simp
  have ide: "ideal_stakes sm ws S = Inr ideal"
    unfolding ideal_stakes_def Let_def ideal_eq snd_ws T(1)
  proof (rule map_err_total)
    fix kw assume "kw \<in> set ws"
    then obtain e where e: "e \<in> set od" "kw = (fst e, Fin (wv e))" unfolding ws_def by auto
    have m: "wv e \<in> set wl" unfolding wl_def using e(1) by simp
    have "py_truediv (Fin (wv e)) (Fin T) = Inr (Fin (rdv (wv e / T)))" using sh[OF m] by simp
    moreover have "py_mul (Fin (rdv (wv e / T))) (Fin ?s) = Fin (share (wv e))"
      using sh[OF m] by simp
    ultimately show "(case kw of (outcome, weight) \<Rightarrow>
            (case py_truediv weight (Fin T) of Inl e \<Rightarrow> Inl e
             | Inr q \<Rightarrow> (case float_of_int S of Inl e \<Rightarrow> Inl e | Inr s \<Rightarrow> Inr (outcome, py_mul q s))))
          = Inr (case kw of (k, w) \<Rightarrow> (k, Fin (share (fin_val w))))"
      unfolding e(2) using fS by simp
  qed
  \<comment> \<open>Step 4: their floors\<close>
  have share0: "0 \<le> share w" if "w \<in> set wl" for w
  proof -
    have "0 < T" using W0 T(2) m50 by (rule ratio_upper)
    moreover have "0 \<le> w" using wl_pos that by simp
    ultimately have "0 \<le> w / T * ?s * (1 - ?u)\<^sup>2" using s1 by simp
    then show ?thesis using sh[OF that] by linarith
  qed
  define rs where "rs = map (\<lambda>e. (fst e, \<lfloor>share (wv e)\<rfloor>)) od"
  have rs_eq: "rs = map (\<lambda>(k, x). (k, \<lfloor>fin_val x\<rfloor>)) ideal" unfolding rs_def ideal_def by simp
  have rnd: "rounded_stakes ideal = Inr rs"
    unfolding rounded_stakes_def rs_eq
  proof (rule map_err_total)
    fix kx assume "kx \<in> set ideal"
    then obtain e where e: "e \<in> set od" "kx = (fst e, Fin (share (wv e)))" unfolding ideal_def by auto
    have "0 \<le> share (wv e)" using e(1) by (intro share0) (simp add: wl_def)
    then show "(case kx of (outcome, stake) \<Rightarrow>
                  (case py_int stake of Inl e \<Rightarrow> Inl e | Inr n \<Rightarrow> Inr (outcome, n)))
               = Inr (case kx of (k, x) \<Rightarrow> (k, \<lfloor>fin_val x\<rfloor>))"
      unfolding e(2) by simp
  qed
  \<comment> \<open>Step 5: the remainder\<close>
  define fs where "fs = map share wl"
  have snd_rs: "map snd rs = map floor fs" unfolding rs_def fs_def wl_def by simp
  have fs_len: "length fs = n" by (simp add: fs_def wl_len)
  have T0: "0 < T" and RU: "W / T \<le> 1 / (1 - of_nat m * ?u)"
    using W0 T(2) m50 by (rule ratio_upper)+
  have RL: "1 - of_nat m * ?u \<le> W / T" using W0 T0 T(3) m50 by (rule ratio_lower)
  have R0: "0 \<le> W / T" using W0 T0 by simp
  define cu where "cu = ?s * (1 + ?u)\<^sup>2 / T"
  define cl where "cl = ?s * (1 - ?u)\<^sup>2 / T"
  have cu: "w * cu = w / T * ?s * (1 + ?u)\<^sup>2" for w unfolding cu_def by simp
  have cl: "w * cl = w / T * ?s * (1 - ?u)\<^sup>2" for w unfolding cl_def by simp
  have "sum_list fs \<le> W * cu"
    unfolding fs_def W_def by (rule sum_list_scaled_upper) (use sh cu in auto)
  also have "W * cu = W / T * ?s * (1 + ?u)\<^sup>2" by (rule cu)
  also have "\<dots> < ?s + 1" using s1 Br R0 RU by (rule total_upper)
  finally have up: "sum_list fs < ?s + 1" .
  have "?s - 1 < W / T * ?s * (1 - ?u)\<^sup>2" using s1 Br RL by (rule total_lower)
  also have "\<dots> = W * cl" by (rule cl[symmetric])
  also have "\<dots> \<le> sum_list fs"
    unfolding fs_def W_def by (rule sum_list_scaled_lower) (use sh cl in auto)
  finally have lo: "?s - 1 < sum_list fs" .
  define F where "F = sum_list (map floor fs)"
  have "(of_int F :: rat) \<le> sum_list fs" unfolding F_def by (rule sum_list_floor_bounds)
  then have "(of_int F :: rat) < of_int (S + 1)" using up by simp
  then have F_hi: "F < S + 1" by (simp only: of_int_less_iff)
  have "sum_list fs - of_nat n \<le> (of_int F :: rat)"
    unfolding F_def using sum_list_floor_bounds(2)[of fs] fs_len by simp
  then have "(of_int (S - 1 - int n) :: rat) < of_int F" using lo by simp
  then have F_lo: "S - 1 - int n < F" by (simp only: of_int_less_iff)
  have rem: "remainder_of rs S = S - F" unfolding remainder_of_def snd_rs F_def ..
  have r1: "0 \<le> remainder_of rs S" and r2: "remainder_of rs S \<le> int (length od)"
    using F_hi F_lo unfolding rem n_def by simp_all
  have rb: "\<forall>(k, v) \<in> set rs. 0 \<le> v \<and> v \<le> 3 * 2 ^ 51"
  proof -
    have "0 \<le> \<lfloor>share (wv e)\<rfloor> \<and> \<lfloor>share (wv e)\<rfloor> \<le> 3 * 2 ^ 51" if "e \<in> set od" for e
    proof -
      have m: "wv e \<in> set wl" unfolding wl_def using that by simp
      have "share (wv e) \<le> 3 * 2 ^ 51" using sh[OF m] by simp
      then have "share (wv e) \<le> of_int (3 * 2 ^ 51)" by simp
      then have "\<lfloor>share (wv e)\<rfloor> \<le> \<lfloor>(of_int (3 * 2 ^ 51) :: rat)\<rfloor>" by (rule floor_mono)
      then have "\<lfloor>share (wv e)\<rfloor> \<le> 3 * 2 ^ 51" by (simp only: floor_of_int)
      moreover have "0 \<le> \<lfloor>share (wv e)\<rfloor>" using share0[OF m] by simp
      ultimately show ?thesis by simp
    qed
    then show ?thesis unfolding rs_def by auto
  qed
  show ?thesis using that[OF inv ide rnd r1 r2 rb fS] .
qed

lemma ideal_share_rounded:
  assumes "\<forall>(outcome, bookie, odd) \<in> set od. py_lt (Fin 0) odd" "0 < S"
    and "inverse_odds od = Inr ws" "ideal_stakes sm ws S = Inr ideal"
    and "(k, Fin share) \<in> set ideal" and "length od \<le> 2 ^ 50"
  obtains y where "0 \<le> y" "round_double y = Fin share"
proof -
  have wn: "\<forall>w \<in> set (map snd ws). py_nonneg w \<and> py_is_double w"
    using assms(1,3) by (rule weights_nonneg)
  have "length (map snd ws) \<le> 2 ^ 50"
    using arg_cong[OF inverse_odds_keys[OF assms(3)], of length] assms(6) by simp
  with wn have tn: "py_nonneg (py_sum sm (map snd ws))" by (rule py_sum_nonneg)
  have "list_all2 (\<lambda>(k, w) (k', x). k' = k \<and>
      (\<exists>q s. py_truediv w (py_sum sm (map snd ws)) = Inr q \<and> float_of_int S = Inr s \<and> x = py_mul q s))
     ws ideal" using assms(4) by (rule ideal_stakes_rel)
  then obtain kw where kw: "kw \<in> set ws"
    and r: "(\<lambda>(k, w) (k', x). k' = k \<and>
      (\<exists>q s. py_truediv w (py_sum sm (map snd ws)) = Inr q \<and> float_of_int S = Inr s \<and> x = py_mul q s))
       kw (k, Fin share)"
    using assms(5) by (metis (no_types, lifting) in_set_conv_nth list_all2_conv_all_nth)
  obtain k' w where kw': "kw = (k', w)" by (cases kw)
  obtain q s where q: "py_truediv w (py_sum sm (map snd ws)) = Inr q"
    and s: "float_of_int S = Inr s" and x: "Fin share = py_mul q s"
    using r kw' by auto
  have w: "py_nonneg w" using wn kw kw' by force
  obtain sv where sv: "s = Fin sv" "0 \<le> sv" using assms(2) s by (rule float_of_int_pos)
  obtain qv where qv: "q = Fin qv" using x sv by (cases q) (auto split: if_splits)
  have "0 \<le> qv" using w tn q qv by (auto intro: py_truediv_nonneg)
  then have "0 \<le> qv * sv" using sv(2) by simp
  moreover have "round_double (qv * sv) = Fin share" using x sv(1) qv by simp
  ultimately show ?thesis using that by blast
qed

lemma map_err_rel:
  "list_all2 (\<lambda>a b. F b = Inr (g a)) xs ys \<Longrightarrow> map_err F ys = Inr (map g xs)"
  by (induction rule: list_all2_induct) auto

lemma stake_diffs_frac:
  assumes d: "distinct (map fst od)"
    and pos: "\<forall>(outcome, bookie, odd) \<in> set od. py_lt (Fin 0) odd" and S: "0 < S"
    and inv: "inverse_odds od = Inr ws" and ide: "ideal_stakes sm ws S = Inr ideal"
    and rnd: "rounded_stakes ideal = Inr rs" and len: "length od \<le> 2 ^ 50"
  shows "stake_diffs ideal rs = Inr (map (\<lambda>(k, x). (k, Fin (frac (fin_val x)))) ideal)"
proof -
  have keys: "map fst ideal = map fst od"
    using inverse_odds_keys[OF inv] ideal_stakes_keys[OF ide] by simp
  then have di: "distinct (map fst ideal)" using d by simp
  have rel: "list_all2 (\<lambda>(k, x) (k', n). k' = k \<and> py_int x = Inr n) ideal rs"
    using rnd by (rule rounded_stakes_rel)
  have "list_all2 (\<lambda>a b. (case b of (outcome, n) \<Rightarrow>
                (case dict_get ideal outcome of
                  Inl e \<Rightarrow> Inl e
                | Inr stake \<Rightarrow>
                    (case float_of_int n of
                       Inl e \<Rightarrow> Inl e
                     | Inr nf \<Rightarrow> Inr (outcome, py_sub stake nf))))
              = Inr (case a of (k, x) \<Rightarrow> (k, Fin (frac (fin_val x))))) ideal rs"
    using rel
  proof (rule list.rel_mono_strong)
    fix a b
    assume a: "a \<in> set ideal" and ab: "(case a of (k, x) \<Rightarrow> \<lambda>(k', n). k' = k \<and> py_int x = Inr n) b"
    obtain k x where ak: "a = (k, x)" by (cases a)
    obtain k' n where bk: "b = (k', n)" by (cases b)
    have kk: "k' = k" and pi: "py_int x = Inr n" using ab ak bk by simp_all
    obtain xv where xv: "x = Fin xv" using pi by (cases x) auto
    have mem: "(k, Fin xv) \<in> set ideal" using a ak xv by simp
    obtain y where y: "0 \<le> y" "round_double y = Fin xv"
      using pos S inv ide mem len by (rule ideal_share_rounded)
    have x0: "0 \<le> xv" using pos S inv ide mem len by (rule ideal_share_nonneg)
    then have n: "n = \<lfloor>xv\<rfloor>" using pi xv by simp
    have g: "dict_get ideal k = Inr (Fin xv)"
      using di mem by (simp add: dict_get_def)
    have f: "float_of_int \<lfloor>xv\<rfloor> = Inr (Fin (of_int \<lfloor>xv\<rfloor>))"
      and p: "py_sub (Fin xv) (Fin (of_int \<lfloor>xv\<rfloor>)) = Fin (frac xv)"
      using y by (rule stake_diff_exact)+
    show "(case b of (outcome, n) \<Rightarrow>
                (case dict_get ideal outcome of
                  Inl e \<Rightarrow> Inl e
                | Inr stake \<Rightarrow>
                    (case float_of_int n of
                       Inl e \<Rightarrow> Inl e
                     | Inr nf \<Rightarrow> Inr (outcome, py_sub stake nf))))
              = Inr (case a of (k, x) \<Rightarrow> (k, Fin (frac (fin_val x))))"
      unfolding ak bk kk n xv using g f p by simp
  qed
  then show ?thesis unfolding stake_diffs_def by (rule map_err_rel)
qed

lemma insort_key_map:
  "insort_key f (g x) (map g xs) = map g (insort_key (\<lambda>a. f (g a)) x xs)"
  by (induction xs) auto

lemma sort_key_map: "sort_key f (map g xs) = map g (sort_key (\<lambda>a. f (g a)) xs)"
  by (induction xs) (auto simp: insort_key_map)

lemma ranking_of_fractions:
  "ranking (map (\<lambda>(k, x). (k, Fin (frac (fin_val x)))) ideal) = ranked_by_fraction ideal"
proof -
  have 1: "(\<lambda>a. (case (case a of (k, x) \<Rightarrow> (k, Fin (frac (fin_val x)))) of (outcome, d) \<Rightarrow> - fin_val d))
           = (\<lambda>(outcome, share). - frac (fin_val share))"
    by (auto simp: fun_eq_iff)
  have 2: "map fst (map (\<lambda>(k, x). (k, Fin (frac (fin_val x)))) zs) = map fst zs"
    for zs :: "(string \<times> pyfloat) list"
    by (induction zs) auto
  show ?thesis unfolding ranking_def ranked_by_fraction_def sort_key_map 1 2 ..
qed

lemma ranked_by_fraction_sorted:
  "sorted (map (\<lambda>(outcome, share). - frac (fin_val share))
             (sort_key (\<lambda>(outcome, share). - frac (fin_val share)) ideal))"
  for ideal :: "pyfloat dict"
  by (rule sorted_sort_key)

lemma ranked_by_fraction_stable:
  "filter (\<lambda>(outcome, share). frac (fin_val share) = c)
       (sort_key (\<lambda>(outcome, share). - frac (fin_val share)) ideal)
   = filter (\<lambda>(outcome, share). frac (fin_val share) = c) ideal"
  for ideal :: "pyfloat dict"
proof -
  have h: "(\<lambda>(outcome :: string, share). frac (fin_val share) = c)
           = (\<lambda>y. (case y of (outcome, share) \<Rightarrow> - frac (fin_val share)) = - c)"
    by (auto simp: fun_eq_iff)
  show ?thesis by (subst h, subst h) (rule sort_key_stable)
qed

lemma ranked_by_fraction_perm: "mset (ranked_by_fraction ideal) = mset (map fst ideal)"
  by (simp add: ranked_by_fraction_def)

lemma calculate_stakes_returns:
  assumes d: "distinct (map fst od)"
    and inv: "inverse_odds od = Inr ws" and ide: "ideal_stakes sm ws S = Inr ideal"
    and rnd: "rounded_stakes ideal = Inr rs"
    and rb: "\<forall>(k, v) \<in> set rs. 0 \<le> v \<and> v \<le> 3 * 2 ^ 51"
    and fS: "float_of_int S = Inr (Fin (of_int S))"
  shows "\<exists>res. calculate_stakes sm od S = Inr res"
proof -
  have k1: "map fst ideal = map fst od"
    using inverse_odds_keys[OF inv] ideal_stakes_keys[OF ide] by simp
  have k2: "map fst rs = map fst od" using rounded_stakes_keys[OF rnd] k1 by simp
  have drs: "distinct (map fst rs)" using d k2 by simp
  have fi: "float_of_int v = Inr (Fin (of_int v))" if "0 \<le> v" "v \<le> 2 ^ 53" for v
    using round_double_int_exact[OF that] by (simp add: float_of_int_def)
  have "\<exists>ds. stake_diffs ideal rs = Inr ds"
    unfolding stake_diffs_def
  proof (rule map_err_all_Inr)
    fix kn assume m: "kn \<in> set rs"
    obtain k v where kn: "kn = (k, v)" by (cases kn)
    have "k \<in> set (map fst ideal)" using m kn k1 k2 by (metis fst_conv image_eqI set_map)
    then obtain x where x: "map_of ideal k = Some x"
      by (metis map_of_eq_None_iff not_Some_eq set_map)
    have "0 \<le> v" "v \<le> 2 ^ 53" using rb m kn by auto
    then have "float_of_int v = Inr (Fin (of_int v))" by (rule fi)
    then show "\<exists>y. (case kn of (outcome, n) \<Rightarrow>
                      (case dict_get ideal outcome of
                         Inl e \<Rightarrow> Inl e
                       | Inr stake \<Rightarrow>
                           (case float_of_int n of
                              Inl e \<Rightarrow> Inl e
                            | Inr nf \<Rightarrow> Inr (outcome, py_sub stake nf)))) = Inr y"
      unfolding kn using x by (simp add: dict_get_def)
  qed
  then obtain ds where ds: "stake_diffs ideal rs = Inr ds" by blast
  have "\<exists>fin. adjust_stakes ideal rs S = Inr fin"
    unfolding adjust_stakes_def Let_def ds by simp
  then obtain fin where adj: "adjust_stakes ideal rs S = Inr fin" by blast
  have fst: "final_stakes sm od S = Inr fin" unfolding final_stakes_def using inv ide rnd adj by simp
  have k3: "map fst fin = map fst od" using adjust_stakes_keys[OF adj] k2 by simp
  have fb: "0 \<le> v \<and> v \<le> 2 ^ 53" if "map_of fin k = Some v" for k v
  proof -
    have "k \<in> set (map fst rs)"
      using that k3 k2 by (metis map_of_eq_None_iff option.distinct(1) set_map)
    then obtain v0 where v0: "map_of rs k = Some v0"
      by (metis map_of_eq_None_iff not_Some_eq set_map)
    then have "(k, v0) \<in> set rs" by (rule map_of_SomeD)
    then have b: "0 \<le> v0" "v0 \<le> 3 * 2 ^ 51" using rb by auto
    have "v = v0 \<or> v = v0 + 1" using adjust_stakes_lookup[OF drs adj v0] that by auto
    then show ?thesis using b by auto
  qed
  have "\<exists>res. profits od fin S = Inr res"
    unfolding profits_def
  proof (rule map_err_all_Inr)
    fix e assume m: "e \<in> set od"
    obtain k b p where e: "e = (k, b, p)" by (cases e)
    have "k \<in> set (map fst fin)" using m e k3 by (metis fst_conv image_eqI set_map)
    then obtain v where v: "map_of fin k = Some v"
      by (metis map_of_eq_None_iff not_Some_eq set_map)
    have "float_of_int v = Inr (Fin (of_int v))" using fb[OF v] by (intro fi) simp_all
    then show "\<exists>y. (case e of (outcome, bookie, price) \<Rightarrow>
                      (case dict_get fin outcome of
                         Inl e \<Rightarrow> Inl e
                       | Inr stake \<Rightarrow>
                           (case float_of_int stake of
                              Inl e \<Rightarrow> Inl e
                            | Inr sf \<Rightarrow>
                                (case float_of_int S of
                                   Inl e \<Rightarrow> Inl e
                                 | Inr tf \<Rightarrow>
                                     Inr (outcome, (bookie, price, stake,
                                            py_round2 (py_sub (py_mul sf price) tf))))))) = Inr y"
      unfolding e using v fS by (simp add: dict_get_def)
  qed
  then show ?thesis unfolding calculate_stakes_def using fst by simp
qed

lemma list_all2_fun_eq:
  "list_all2 (\<lambda>a b. b = g a) xs ys \<Longrightarrow> ys = map g xs"
  by (induction rule: list_all2_induct) auto

lemma rounded_is_floor:
  assumes pos: "\<forall>(outcome, bookie, odd) \<in> set od. py_lt (Fin 0) odd" and S: "0 < S"
    and inv: "inverse_odds od = Inr ws" and ide: "ideal_stakes sm ws S = Inr ideal"
    and rnd: "rounded_stakes ideal = Inr rs" and len: "length od \<le> 2 ^ 50"
  shows "rs = map (\<lambda>(k, x). (k, \<lfloor>fin_val x\<rfloor>)) ideal"
proof -
  have "list_all2 (\<lambda>(k, x) (k', n). k' = k \<and> py_int x = Inr n) ideal rs"
    using rnd by (rule rounded_stakes_rel)
  then have "list_all2 (\<lambda>a b. b = (case a of (k, x) \<Rightarrow> (k, \<lfloor>fin_val x\<rfloor>))) ideal rs"
  proof (rule list.rel_mono_strong)
    fix a b
    assume a: "a \<in> set ideal" and ab: "(case a of (k, x) \<Rightarrow> \<lambda>(k', n). k' = k \<and> py_int x = Inr n) b"
    obtain k x where ak: "a = (k, x)" by (cases a)
    obtain k' n where bk: "b = (k', n)" by (cases b)
    have kk: "k' = k" and pi: "py_int x = Inr n" using ab ak bk by simp_all
    obtain xv where xv: "x = Fin xv" using pi by (cases x) auto
    have "(k, Fin xv) \<in> set ideal" using a ak xv by simp
    then have "0 \<le> xv" using pos S inv ide len ideal_share_nonneg by blast
    then have "n = \<lfloor>xv\<rfloor>" using pi xv by simp
    then show "b = (case a of (k, x) \<Rightarrow> (k, \<lfloor>fin_val x\<rfloor>))" unfolding ak bk kk xv by simp
  qed
  then show ?thesis by (rule list_all2_fun_eq)
qed

lemma calculate_stakes_conserves:
  assumes "distinct (map fst od)" and "od \<noteq> []"
    and "\<forall>(k, b, p) \<in> set od. \<exists>x. p = Fin x \<and> 2 powi (- 400) \<le> x \<and> x \<le> 2 powi 400"
    and "0 < S" and "(int (length od) + 1) * S \<le> 2 ^ 47"
  shows "\<exists>res. calculate_stakes sm od S = Inr res \<and> sum_list (stakes_of res) = S"
proof -
  obtain ws ideal rs where steps:
    "inverse_odds od = Inr ws" "ideal_stakes sm ws S = Inr ideal" "rounded_stakes ideal = Inr rs"
    and r: "0 \<le> remainder_of rs S" "remainder_of rs S \<le> int (length od)"
    and rb: "\<forall>(k, v) \<in> set rs. 0 \<le> v \<and> v \<le> 3 * 2 ^ 51"
    and fS: "float_of_int S = Inr (Fin (of_int S))"
    using assms(3,2,4,5) by (rule allocation_bounds)
  obtain res where res: "calculate_stakes sm od S = Inr res"
    using calculate_stakes_returns[OF assms(1) steps rb fS] by blast
  have "sum_list (stakes_of res) =
        S - remainder_of rs S + min (max (remainder_of rs S) 0) (int (length od))"
    using assms(1) steps res by (rule calculate_stakes_sum)
  then have "sum_list (stakes_of res) = S" using r by simp
  with res show ?thesis by blast
qed

section \<open>Properties of the normalizer's steps\<close>

lemma py_truediv_error: "py_truediv a b = Inl e \<Longrightarrow> e = ZeroDivisionError"
  by (cases b; cases a) (auto split: if_splits)

lemma map_err_first_error:
  assumes "\<And>x e. f x = Inl e \<Longrightarrow> e = err" "x \<in> set xs" "f x = Inl err"
  shows "map_err f xs = Inl err"
  using assms(2,3)
proof (induction xs)
  case Nil
  then show ?case by simp
next
  case (Cons a xs)
  show ?case
  proof (cases "f a")
    case (Inl e)
    then show ?thesis using assms(1)[of a e] by simp
  next
    case (Inr y)
    then have "x \<in> set xs" using Cons.prems by auto
    then have "map_err f xs = Inl err" using Cons by simp
    then show ?thesis using Inr by simp
  qed
qed

lemma inverse_odds_zero:
  assumes "(outcome, bookie, Fin 0) \<in> set od"
  shows "inverse_odds od = Inl ZeroDivisionError"
  unfolding inverse_odds_def
proof (rule map_err_first_error[OF _ assms])
  show "(case (outcome, bookie, Fin 0) of (outcome, data) \<Rightarrow>
          case py_truediv (Fin 1) (snd data) of Inl e \<Rightarrow> Inl e | Inr weight \<Rightarrow> Inr (outcome, weight))
        = Inl ZeroDivisionError" by simp
next
  fix x e
  assume "(case x of (outcome, data) \<Rightarrow>
          case py_truediv (Fin 1) (snd data) of Inl e \<Rightarrow> Inl e | Inr weight \<Rightarrow> Inr (outcome, weight))
        = Inl e"
  then show "e = ZeroDivisionError"
    by (auto split: prod.splits sum.splits dest: py_truediv_error)
qed

lemma total_implied_zero:
  assumes "(outcome, bookie, Fin 0) \<in> set best"
  shows "total_implied sm best = Inl ZeroDivisionError"
proof -
  have "map_err (\<lambda>(name, (t, odds)). py_truediv (Fin 1) odds) best = Inl ZeroDivisionError"
  proof (rule map_err_first_error[OF _ assms])
    show "(case (outcome, bookie, Fin 0) of (name, (t, odds)) \<Rightarrow> py_truediv (Fin 1) odds)
          = Inl ZeroDivisionError" by simp
  next
    fix x e
    assume "(case x of (name, (t, odds)) \<Rightarrow> py_truediv (Fin 1) odds) = Inl e"
    then show "e = ZeroDivisionError" by (auto split: prod.splits dest: py_truediv_error)
  qed
  then show ?thesis by (simp add: total_implied_def)
qed

lemma no_outcomes_contributes_nothing:
  assumes "b_markets b = None \<or> (\<exists>mk rest. b_markets b = Some (mk # rest) \<and>
             (m_outcomes mk = None \<or> m_outcomes mk = Some []))"
  shows "collect_best best (b # bs) = collect_best best bs"
  using assms by (auto simp: first_market_outcomes_def)

lemma map_of_dict_set:
  "map_of (dict_set d k v) k' = (if k' = k then Some v else map_of d k')"
proof (cases "k \<in> fst ` set d")
  case True
  have "map_of (map (\<lambda>(k', v'). if k' = k then (k', v) else (k', v')) d) k' =
        (if k' = k then (if k \<in> fst ` set d then Some v else None) else map_of d k')"
    by (induction d) (force simp: image_iff)+
  then show ?thesis using True by (simp add: dict_set_def)
next
  case False
  then have "map_of d k = None" by (simp add: map_of_eq_None_iff)
  then show ?thesis using False by (auto simp: dict_set_def map_add_def split: option.splits)
qed

lemma find_append:
  "find P (xs @ ys) = (case find P xs of None \<Rightarrow> find P ys | Some x \<Rightarrow> Some x)"
  by (induction xs) auto

lemma py_lt_irrefl: "\<not> py_lt a a"
  by (cases a) auto

lemma py_lt_trans_le:
  "p \<noteq> NaN \<Longrightarrow> q \<noteq> NaN \<Longrightarrow> p' \<noteq> NaN \<Longrightarrow> \<not> py_lt p q \<Longrightarrow> py_lt p p' \<Longrightarrow> \<not> py_lt p' q"
  by (cases p; cases q; cases p') auto

lemma is_best_quote_iff:
  "is_best_quote qs name (t, p) \<longleftrightarrow>
     (\<exists>b oc. find (\<lambda>(b, oc). o_name oc = Some name \<and> o_price oc = Some p) qs = Some (b, oc) \<and>
             b_title b = Some t) \<and>
     (\<forall>(b, oc) \<in> set qs. o_name oc = Some name \<longrightarrow>
        (\<exists>p'. o_price oc = Some p' \<and> \<not> py_lt p p'))"
proof -
  have 1: "(case find (\<lambda>(b, oc). o_name oc = Some name \<and> o_price oc = Some p) qs of
           None \<Rightarrow> False
         | Some (b, oc) \<Rightarrow> b_title b = Some t) \<longleftrightarrow>
     (\<exists>b oc. find (\<lambda>(b, oc). o_name oc = Some name \<and> o_price oc = Some p) qs = Some (b, oc) \<and>
             b_title b = Some t)"
    by (cases "find (\<lambda>(b, oc). o_name oc = Some name \<and> o_price oc = Some p) qs") auto
  have 2: "(case o_price oc of None \<Rightarrow> False | Some p' \<Rightarrow> \<not> py_lt p p') \<longleftrightarrow>
           (\<exists>p'. o_price oc = Some p' \<and> \<not> py_lt p p')" for oc
    by (cases "o_price oc") auto
  show ?thesis unfolding is_best_quote_def prod.case 1 2 list_all_iff by auto
qed

lemma offer_inv:
  assumes inv: "best_inv best qs"
    and nonan: "\<forall>(b, oc) \<in> set (qs @ [(b, outcome)]). o_price oc \<noteq> Some NaN"
    and step: "offer b best outcome = Inr best'"
  shows "best_inv best' (qs @ [(b, outcome)])"
proof -
  obtain name where name: "o_name outcome = Some name"
    using step by (auto simp: offer_def split: option.splits)
  obtain price where price: "o_price outcome = Some price"
    using step name by (auto simp: offer_def split: option.splits)
  have pn: "price \<noteq> NaN" using nonan price by auto
  let ?qs' = "qs @ [(b, outcome)]"
  have other: "(case map_of best' n of
                  None \<Rightarrow> \<forall>(b, oc) \<in> set ?qs'. o_name oc \<noteq> Some n
                | Some entry \<Rightarrow> is_best_quote ?qs' n entry)"
    if n: "n \<noteq> name" "map_of best' n = map_of best n" for n
  proof -
    have old: "(case map_of best n of
                  None \<Rightarrow> \<forall>(b, oc) \<in> set qs. o_name oc \<noteq> Some n
                | Some entry \<Rightarrow> is_best_quote qs n entry)"
      using inv unfolding best_inv_def by blast
    show ?thesis
    proof (cases "map_of best n")
      case None
      then show ?thesis using old n name by auto
    next
      case (Some entry)
      then have "is_best_quote qs n entry" using old by simp
      then have "is_best_quote ?qs' n entry"
        using n(1) name by (cases entry) (auto simp: is_best_quote_iff find_append)
      then show ?thesis using Some n by simp
    qed
  qed
  have olds: "(case map_of best name of
                  None \<Rightarrow> \<forall>(b, oc) \<in> set qs. o_name oc \<noteq> Some name
                | Some entry \<Rightarrow> is_best_quote qs name entry)"
    using inv unfolding best_inv_def by blast
  show ?thesis
  proof (cases "map_of best name")
    case None
    then obtain t where t: "b_title b = Some t" and b': "best' = dict_set best name (t, price)"
      using step name price by (auto simp: offer_def split: option.splits)
    have nofind: "find (\<lambda>(b, oc). o_name oc = Some name \<and> o_price oc = Some price) qs = None"
      using olds None by (auto simp: find_None_iff)
    have "is_best_quote ?qs' name (t, price)"
      unfolding is_best_quote_iff using olds None nofind name price t
      by (auto simp: find_append py_lt_irrefl)
    then show ?thesis unfolding best_inv_def b'
      using other by (auto simp: map_of_dict_set b')
  next
    case (Some entry)
    obtain t0 p0 where entry: "entry = (t0, p0)" by (cases entry)
    have old: "is_best_quote qs name (t0, p0)" using olds Some entry by simp
    have allold: "\<forall>(b, oc) \<in> set qs. o_name oc = Some name \<longrightarrow>
                    (\<exists>p'. o_price oc = Some p' \<and> \<not> py_lt p0 p')"
      using old unfolding is_best_quote_iff by auto
    have p0mem: "\<exists>b oc. (b, oc) \<in> set qs \<and> o_price oc = Some p0"
      using old unfolding is_best_quote_iff
      by (auto simp: find_Some_iff) (metis nth_mem)
    have p0n: "p0 \<noteq> NaN" using p0mem nonan by auto
    show ?thesis
    proof (cases "py_gt price p0")
      case True
      then obtain t where t: "b_title b = Some t" and b': "best' = dict_set best name (t, price)"
        using step name price Some entry by (auto simp: offer_def split: option.splits)
      have lt: "py_lt p0 price" using True by (simp add: py_gt_def)
      have nofind: "find (\<lambda>(b, oc). o_name oc = Some name \<and> o_price oc = Some price) qs = None"
      proof -
        have "\<not> (o_name oc = Some name \<and> o_price oc = Some price)" if "(b, oc) \<in> set qs" for b oc
          using allold that lt by auto
        then show ?thesis by (auto simp: find_None_iff)
      qed
      have mx: "\<forall>(b, oc) \<in> set qs. o_name oc = Some name \<longrightarrow>
                    (\<exists>p'. o_price oc = Some p' \<and> \<not> py_lt price p')"
      proof -
        have "\<exists>p'. o_price oc = Some p' \<and> \<not> py_lt price p'"
          if m: "(b, oc) \<in> set qs" "o_name oc = Some name" for b oc
        proof -
          obtain p' where p': "o_price oc = Some p'" "\<not> py_lt p0 p'" using allold m by auto
          have "p' \<noteq> NaN" using nonan m p' by auto
          then have "\<not> py_lt price p'" using py_lt_trans_le[OF p0n _ pn p'(2) lt] by simp
          then show ?thesis using p' by simp
        qed
        then show ?thesis by auto
      qed
      have "is_best_quote ?qs' name (t, price)"
        unfolding is_best_quote_iff using nofind name price t mx
        by (auto simp: find_append py_lt_irrefl)
      then show ?thesis unfolding best_inv_def b'
        using other by (auto simp: map_of_dict_set b')
    next
      case False
      then have b': "best' = best"
        using step name price Some entry by (auto simp: offer_def split: option.splits)
      have "is_best_quote ?qs' name (t0, p0)"
        using old False name price unfolding is_best_quote_iff
        by (auto simp: find_append py_gt_def)
      then show ?thesis unfolding best_inv_def b'
        using other[unfolded b'] Some entry
        by (metis (mono_tags, lifting) option.simps(5))
    qed
  qed
qed

lemma offers_inv:
  assumes "best_inv best qs"
    and "\<forall>(b, oc) \<in> set (qs @ map (Pair b) os). o_price oc \<noteq> Some NaN"
    and "offers b best os = Inr best'"
  shows "best_inv best' (qs @ map (Pair b) os)"
  using assms
proof (induction os arbitrary: best qs)
  case Nil
  then show ?case by simp
next
  case (Cons outcome os)
  obtain best1 where b1: "offer b best outcome = Inr best1" and rest: "offers b best1 os = Inr best'"
    using Cons.prems(3) by (auto split: sum.splits)
  have "best_inv best1 (qs @ [(b, outcome)])"
    using Cons.prems(1) _ b1 by (rule offer_inv) (use Cons.prems(2) in auto)
  then have "best_inv best' ((qs @ [(b, outcome)]) @ map (Pair b) os)"
    using _ rest by (rule Cons.IH) (use Cons.prems(2) in auto)
  then show ?case by simp
qed

lemma collect_best_inv:
  assumes "best_inv best qs"
    and "\<forall>(b, oc) \<in> set (qs @ quotes bs). o_price oc \<noteq> Some NaN"
    and "collect_best best bs = Inr best'"
  shows "best_inv best' (qs @ quotes bs)"
  using assms
proof (induction bs arbitrary: best qs)
  case Nil
  then show ?case by (simp add: quotes_def)
next
  case (Cons b bs)
  obtain os best1 where os: "first_market_outcomes b = Inr os"
    and b1: "offers b best os = Inr best1" and rest: "collect_best best1 bs = Inr best'"
    using Cons.prems(3) by (auto split: sum.splits)
  have q: "quotes (b # bs) = map (Pair b) os @ quotes bs" using os by (simp add: quotes_def)
  have "best_inv best1 (qs @ map (Pair b) os)"
    using Cons.prems(1) _ b1 by (rule offers_inv) (use Cons.prems(2) q in auto)
  then have "best_inv best' ((qs @ map (Pair b) os) @ quotes bs)"
    using _ rest by (rule Cons.IH) (use Cons.prems(2) q in auto)
  then show ?case using q by simp
qed

lemma dict_set_keys:
  "map fst (dict_set d k v) = (if k \<in> set (map fst d) then map fst d else map fst d @ [k])"
proof -
  have "map fst (map (\<lambda>(k', v'). if k' = k then (k', v) else (k', v')) d) = map fst d"
    by (induction d) auto
  then show ?thesis by (auto simp: dict_set_def)
qed

lemma offer_distinct:
  "distinct (map fst best) \<Longrightarrow> offer b best outcome = Inr best' \<Longrightarrow> distinct (map fst best')"
  by (auto simp: offer_def dict_set_keys split: option.splits if_splits)

lemma offers_distinct:
  "distinct (map fst best) \<Longrightarrow> offers b best os = Inr best' \<Longrightarrow> distinct (map fst best')"
  by (induction os arbitrary: best) (auto split: sum.splits dest: offer_distinct)

lemma collect_best_distinct:
  "distinct (map fst best) \<Longrightarrow> collect_best best bs = Inr best' \<Longrightarrow> distinct (map fst best')"
  by (induction bs arbitrary: best) (auto split: sum.splits dest: offers_distinct)

section \<open>The allocator on the example inputs\<close>

lemma rd_2_3: "round_double (2 / 3) = Fin (6004799503160661 / 9007199254740992)"
  using round_double_cert[of "2 / 3" "-1" "6004799503160661"] by simp

lemma rd_1_3: "round_double (1 / 3) = Fin (6004799503160661 / 18014398509481984)"
  using round_double_cert[of "1 / 3" "-2" "6004799503160661"] by simp

lemma rd_6004799503160661_9007199254740992: "round_double (6004799503160661 / 9007199254740992) = Fin (6004799503160661 / 9007199254740992)"
  using round_double_cert[of "6004799503160661 / 9007199254740992" "-1" "6004799503160661"] by simp

lemma rd_18014398509481983_18014398509481984: "round_double (18014398509481983 / 18014398509481984) = Fin (1)"
  using round_double_tie_cert[of "18014398509481983 / 18014398509481984" "-1" "9007199254740991" "9007199254740992"] by simp

lemma rd_100: "round_double (100) = Fin (100)"
  using round_double_cert[of "100" "6" "7036874417766400"] by simp

lemma rd_150119987579016525_2251799813685248: "round_double (150119987579016525 / 2251799813685248) = Fin (2345624805922133 / 35184372088832)"
  using round_double_cert[of "150119987579016525 / 2251799813685248" "6" "4691249611844266"] by simp

lemma rd_6004799503160661_18014398509481984: "round_double (6004799503160661 / 18014398509481984) = Fin (6004799503160661 / 18014398509481984)"
  using round_double_cert[of "6004799503160661 / 18014398509481984" "-2" "6004799503160661"] by simp

lemma rd_150119987579016525_4503599627370496: "round_double (150119987579016525 / 4503599627370496) = Fin (2345624805922133 / 70368744177664)"
  using round_double_cert[of "150119987579016525 / 4503599627370496" "5" "4691249611844266"] by simp

lemma rd_66: "round_double (66) = Fin (66)"
  using round_double_cert[of "66" "6" "4644337115725824"] by simp

lemma rd_23456248059221_35184372088832: "round_double (23456248059221 / 35184372088832) = Fin (23456248059221 / 35184372088832)"
  using round_double_cert[of "23456248059221 / 35184372088832" "-1" "6004799503160576"] by simp

lemma rd_33: "round_double (33) = Fin (33)"
  using round_double_cert[of "33" "5" "4644337115725824"] by simp

lemma rd_23456248059221_70368744177664: "round_double (23456248059221 / 70368744177664) = Fin (23456248059221 / 70368744177664)"
  using round_double_cert[of "23456248059221 / 70368744177664" "-2" "6004799503160576"] by simp

lemma rd_67: "round_double (67) = Fin (67)"
  using round_double_cert[of "67" "6" "4714705859903488"] by simp

lemma rd_201_2: "round_double (201 / 2) = Fin (201 / 2)"
  using round_double_cert[of "201 / 2" "6" "7072058789855232"] by simp

lemma rd_1_2: "round_double (1 / 2) = Fin (1 / 2)"
  using round_double_cert[of "1 / 2" "-1" "4503599627370496"] by simp

lemma rd_99: "round_double (99) = Fin (99)"
  using round_double_cert[of "99" "6" "6966505673588736"] by simp

lemma rd_1: "round_double (1) = Fin (1)"
  using round_double_cert[of "1" "0" "4503599627370496"] by simp

lemma rd_1_neg: "round_double (- 1) = Fin (- 1)"
  using round_double_neg[of "1"] rd_1 by simp

lemma rd_3002399751580331_9007199254740992: "round_double (3002399751580331 / 9007199254740992) = Fin (3002399751580331 / 9007199254740992)"
  using round_double_cert[of "3002399751580331 / 9007199254740992" "-2" "6004799503160662"] by simp

lemma rd_3002399751580331_9007199254740992_neg: "round_double (- (3002399751580331 / 9007199254740992)) = Fin (- (3002399751580331 / 9007199254740992))"
  using round_double_neg[of "3002399751580331 / 9007199254740992"] rd_3002399751580331_9007199254740992 by simp

lemma rd_1_18014398509481984: "round_double (1 / 18014398509481984) = Fin (1 / 18014398509481984)"
  using round_double_cert[of "1 / 18014398509481984" "-54" "4503599627370496"] by simp

lemma rd_1_18014398509481984_neg: "round_double (- (1 / 18014398509481984)) = Fin (- (1 / 18014398509481984))"
  using round_double_neg[of "1 / 18014398509481984"] rd_1_18014398509481984 by simp

lemmas ex1_rd = rd_1 rd_100 rd_150119987579016525_2251799813685248 rd_150119987579016525_4503599627370496 rd_18014398509481983_18014398509481984 rd_1_18014398509481984 rd_1_18014398509481984_neg rd_1_2 rd_1_3 rd_1_neg rd_201_2 rd_23456248059221_35184372088832 rd_23456248059221_70368744177664 rd_2_3 rd_3002399751580331_9007199254740992 rd_3002399751580331_9007199254740992_neg rd_33 rd_6004799503160661_18014398509481984 rd_6004799503160661_9007199254740992 rd_66 rd_67 rd_99

lemma ex1_inverse_odds: "inverse_odds ex1_odds = Inr [(''A'', Fin (6004799503160661 / 9007199254740992)), (''B'', Fin (6004799503160661 / 18014398509481984))]"
  by (simp add: ex1_odds_def inverse_odds_def ex1_rd)

lemma ex1_ideal_stakes: "ideal_stakes sm [(''A'', Fin (6004799503160661 / 9007199254740992)), (''B'', Fin (6004799503160661 / 18014398509481984))] (100) = Inr [(''A'', Fin (2345624805922133 / 35184372088832)), (''B'', Fin (2345624805922133 / 70368744177664))]"
  by (cases sm) (simp_all add: ideal_stakes_def float_of_int_def py_sub_def Let_def ex1_rd)

lemma ex1_rounded_stakes: "rounded_stakes [(''A'', Fin (2345624805922133 / 35184372088832)), (''B'', Fin (2345624805922133 / 70368744177664))] = Inr [(''A'', 66), (''B'', 33)]"
  by (simp add: rounded_stakes_def floor_rat_numeral_div)

lemma ex1_remainder: "remainder_of [(''A'', 66), (''B'', 33)] (100) = 1"
  by (simp add: remainder_of_def)

lemma ex1_stake_diffs: "stake_diffs [(''A'', Fin (2345624805922133 / 35184372088832)), (''B'', Fin (2345624805922133 / 70368744177664))] [(''A'', 66), (''B'', 33)] = Inr [(''A'', Fin (23456248059221 / 35184372088832)), (''B'', Fin (23456248059221 / 70368744177664))]"
  by (simp add: stake_diffs_def dict_get_def float_of_int_def py_sub_def ex1_rd)

lemma ex1_ranking: "ranking [(''A'', Fin (23456248059221 / 35184372088832)), (''B'', Fin (23456248059221 / 70368744177664))] = [''A'', ''B'']"
  by (simp add: ranking_def)

lemma ex1_final_stakes: "final_stakes sm ex1_odds (100) = Inr [(''A'', 67), (''B'', 33)]"
  by (simp add: final_stakes_def ex1_inverse_odds ex1_ideal_stakes ex1_rounded_stakes adjust_stakes_def ex1_remainder ex1_stake_diffs ex1_ranking dict_incr_def)

lemma ex1_profits: "profits ex1_odds [(''A'', 67), (''B'', 33)] (100) = Inr [(''A'', ''Bookmaker1'', Fin (3 / 2), 67, Fin (1 / 2)), (''B'', ''Bookmaker2'', Fin (3), 33, Fin (- 1))]"
  by (simp add: profits_def ex1_odds_def dict_get_def float_of_int_def py_sub_def round_half_even_def Let_def floor_rat_numeral_div ex1_rd)

lemma ex1_calculate_stakes: "calculate_stakes sm ex1_odds (100) = Inr [(''A'', ''Bookmaker1'', Fin (3 / 2), 67, Fin (1 / 2)), (''B'', ''Bookmaker2'', Fin (3), 33, Fin (- 1))]"
  by (simp add: calculate_stakes_def ex1_final_stakes ex1_profits)

lemma rd_1_2_neg: "round_double (- (1 / 2)) = Fin (- (1 / 2))"
  using round_double_neg[of "1 / 2"] rd_1_2 by simp

lemma rd_36028797018963971: "round_double (36028797018963971) = Fin (36028797018963968)"
  using round_double_cert[of "36028797018963971" "55" "4503599627370496"] by simp

lemma rd_18014398509481984: "round_double (18014398509481984) = Fin (18014398509481984)"
  using round_double_cert[of "18014398509481984" "54" "4503599627370496"] by simp

lemma rd_18014398509481985: "round_double (18014398509481985) = Fin (18014398509481984)"
  using round_double_cert[of "18014398509481985" "54" "4503599627370496"] by simp

lemma rd_36028797018963968: "round_double (36028797018963968) = Fin (36028797018963968)"
  using round_double_cert[of "36028797018963968" "55" "4503599627370496"] by simp

lemmas ex2_rd = rd_1 rd_18014398509481984 rd_18014398509481985 rd_1_2 rd_1_2_neg rd_36028797018963968 rd_36028797018963971

lemma ex2_inverse_odds: "inverse_odds ex2_odds = Inr [(''A'', Fin (1 / 2)), (''B'', Fin (1 / 2))]"
  by (simp add: ex2_odds_def inverse_odds_def ex2_rd)

lemma ex2_ideal_stakes: "ideal_stakes sm [(''A'', Fin (1 / 2)), (''B'', Fin (1 / 2))] (36028797018963971) = Inr [(''A'', Fin (18014398509481984)), (''B'', Fin (18014398509481984))]"
  by (cases sm) (simp_all add: ideal_stakes_def float_of_int_def py_sub_def Let_def ex2_rd)

lemma ex2_rounded_stakes: "rounded_stakes [(''A'', Fin (18014398509481984)), (''B'', Fin (18014398509481984))] = Inr [(''A'', 18014398509481984), (''B'', 18014398509481984)]"
  by (simp add: rounded_stakes_def floor_rat_numeral_div)

lemma ex2_remainder: "remainder_of [(''A'', 18014398509481984), (''B'', 18014398509481984)] (36028797018963971) = 3"
  by (simp add: remainder_of_def)

lemma ex2_stake_diffs: "stake_diffs [(''A'', Fin (18014398509481984)), (''B'', Fin (18014398509481984))] [(''A'', 18014398509481984), (''B'', 18014398509481984)] = Inr [(''A'', Fin (0)), (''B'', Fin (0))]"
  by (simp add: stake_diffs_def dict_get_def float_of_int_def py_sub_def ex2_rd)

lemma ex2_ranking: "ranking [(''A'', Fin (0)), (''B'', Fin (0))] = [''A'', ''B'']"
  by (simp add: ranking_def)

lemma ex2_final_stakes: "final_stakes sm ex2_odds (36028797018963971) = Inr [(''A'', 18014398509481985), (''B'', 18014398509481985)]"
  by (simp add: final_stakes_def ex2_inverse_odds ex2_ideal_stakes ex2_rounded_stakes adjust_stakes_def ex2_remainder ex2_stake_diffs ex2_ranking dict_incr_def)

lemma ex2_profits: "profits ex2_odds [(''A'', 18014398509481985), (''B'', 18014398509481985)] (36028797018963971) = Inr [(''A'', ''Bookmaker1'', Fin (2), 18014398509481985, Fin (0)), (''B'', ''Bookmaker2'', Fin (2), 18014398509481985, Fin (0))]"
  by (simp add: profits_def ex2_odds_def dict_get_def float_of_int_def py_sub_def round_half_even_def Let_def floor_rat_numeral_div ex2_rd)

lemma ex2_calculate_stakes: "calculate_stakes sm ex2_odds (36028797018963971) = Inr [(''A'', ''Bookmaker1'', Fin (2), 18014398509481985, Fin (0)), (''B'', ''Bookmaker2'', Fin (2), 18014398509481985, Fin (0))]"
  by (simp add: calculate_stakes_def ex2_final_stakes ex2_profits)

lemma rd_14_5: "round_double (14 / 5) = Fin (3152519739159347 / 1125899906842624)"
  using round_double_cert[of "14 / 5" "1" "6305039478318694"] by simp

lemma rd_26_5: "round_double (26 / 5) = Fin (5854679515581645 / 1125899906842624)"
  using round_double_cert[of "26 / 5" "2" "5854679515581645"] by simp

lemma rd_1125899906842624_3152519739159347: "round_double (1125899906842624 / 3152519739159347) = Fin (6433713753386423 / 18014398509481984)"
  using round_double_cert[of "1125899906842624 / 3152519739159347" "-2" "6433713753386423"] by simp

lemma rd_1125899906842624_5854679515581645: "round_double (1125899906842624 / 5854679515581645) = Fin (866076851417403 / 4503599627370496)"
  using round_double_cert[of "1125899906842624 / 5854679515581645" "-3" "6928614811339224"] by simp

lemma rd_6433713753386423_18014398509481984: "round_double (6433713753386423 / 18014398509481984) = Fin (6433713753386423 / 18014398509481984)"
  using round_double_cert[of "6433713753386423 / 18014398509481984" "-2" "6433713753386423"] by simp

lemma rd_9898021159056035_18014398509481984: "round_double (9898021159056035 / 18014398509481984) = Fin (2474505289764009 / 4503599627370496)"
  using round_double_tie_cert[of "9898021159056035 / 18014398509481984" "-1" "4949010579528017" "4949010579528018"] by simp

lemma rd_6433713753386423_9898021159056036: "round_double (6433713753386423 / 9898021159056036) = Fin (1463669878895411 / 2251799813685248)"
  using round_double_cert[of "6433713753386423 / 9898021159056036" "-1" "5854679515581644"] by simp

lemma rd_36591746972385275_562949953421312: "round_double (36591746972385275 / 562949953421312) = Fin (4573968371548159 / 70368744177664)"
  using round_double_cert[of "36591746972385275 / 562949953421312" "6" "4573968371548159"] by simp

lemma rd_288692283805801_824835096588003: "round_double (288692283805801 / 824835096588003) = Fin (6305039478318693 / 18014398509481984)"
  using round_double_cert[of "288692283805801 / 824835096588003" "-2" "6305039478318693"] by simp

lemma rd_157625986957967325_4503599627370496: "round_double (157625986957967325 / 4503599627370496) = Fin (4925812092436479 / 140737488355328)"
  using round_double_cert[of "157625986957967325 / 4503599627370496" "5" "4925812092436479"] by simp

lemma rd_64: "round_double (64) = Fin (64)"
  using round_double_cert[of "64" "6" "4503599627370496"] by simp

lemma rd_70368744177663_70368744177664: "round_double (70368744177663 / 70368744177664) = Fin (70368744177663 / 70368744177664)"
  using round_double_cert[of "70368744177663 / 70368744177664" "-1" "9007199254740864"] by simp

lemma rd_34: "round_double (34) = Fin (34)"
  using round_double_cert[of "34" "5" "4785074604081152"] by simp

lemma rd_140737488355327_140737488355328: "round_double (140737488355327 / 140737488355328) = Fin (140737488355327 / 140737488355328)"
  using round_double_cert[of "140737488355327 / 140737488355328" "-1" "9007199254740928"] by simp

lemma rd_65: "round_double (65) = Fin (65)"
  using round_double_cert[of "65" "6" "4573968371548160"] by simp

lemma rd_204913783045357555_1125899906842624: "round_double (204913783045357555 / 1125899906842624) = Fin (182)"
  using round_double_cert[of "204913783045357555 / 1125899906842624" "7" "6403555720167424"] by simp

lemma rd_82: "round_double (82) = Fin (82)"
  using round_double_cert[of "82" "6" "5770237022568448"] by simp

lemma rd_35: "round_double (35) = Fin (35)"
  using round_double_cert[of "35" "5" "4925812092436480"] by simp

lemma rd_204913783045357575_1125899906842624: "round_double (204913783045357575 / 1125899906842624) = Fin (182)"
  using round_double_cert[of "204913783045357575 / 1125899906842624" "7" "6403555720167424"] by simp

lemma rd_3464307405669613_18014398509481984: "round_double (3464307405669613 / 18014398509481984) = Fin (3464307405669613 / 18014398509481984)"
  using round_double_cert[of "3464307405669613 / 18014398509481984" "-3" "6928614811339226"] by simp

lemma rd_3464307405669613_18014398509481984_neg: "round_double (- (3464307405669613 / 18014398509481984)) = Fin (- (3464307405669613 / 18014398509481984))"
  using round_double_neg[of "3464307405669613 / 18014398509481984"] rd_3464307405669613_18014398509481984 by simp

lemmas ex3_rd = rd_100 rd_1125899906842624_3152519739159347 rd_1125899906842624_5854679515581645 rd_140737488355327_140737488355328 rd_157625986957967325_4503599627370496 rd_1_18014398509481984 rd_1_18014398509481984_neg rd_204913783045357555_1125899906842624 rd_204913783045357575_1125899906842624 rd_288692283805801_824835096588003 rd_34 rd_3464307405669613_18014398509481984 rd_3464307405669613_18014398509481984_neg rd_35 rd_36591746972385275_562949953421312 rd_64 rd_6433713753386423_18014398509481984 rd_6433713753386423_9898021159056036 rd_65 rd_70368744177663_70368744177664 rd_82 rd_9898021159056035_18014398509481984

lemma ex3_inverse_odds: "inverse_odds ex3_odds = Inr [(''A'', Fin (6433713753386423 / 18014398509481984)), (''B'', Fin (866076851417403 / 4503599627370496))]"
  by (simp add: ex3_odds_def inverse_odds_def ex3_rd)

lemma ex3_ideal_stakes: "ideal_stakes sm [(''A'', Fin (6433713753386423 / 18014398509481984)), (''B'', Fin (866076851417403 / 4503599627370496))] (100) = Inr [(''A'', Fin (4573968371548159 / 70368744177664)), (''B'', Fin (4925812092436479 / 140737488355328))]"
  by (cases sm) (simp_all add: ideal_stakes_def float_of_int_def py_sub_def Let_def ex3_rd)

lemma ex3_rounded_stakes: "rounded_stakes [(''A'', Fin (4573968371548159 / 70368744177664)), (''B'', Fin (4925812092436479 / 140737488355328))] = Inr [(''A'', 64), (''B'', 34)]"
  by (simp add: rounded_stakes_def floor_rat_numeral_div)

lemma ex3_remainder: "remainder_of [(''A'', 64), (''B'', 34)] (100) = 2"
  by (simp add: remainder_of_def)

lemma ex3_stake_diffs: "stake_diffs [(''A'', Fin (4573968371548159 / 70368744177664)), (''B'', Fin (4925812092436479 / 140737488355328))] [(''A'', 64), (''B'', 34)] = Inr [(''A'', Fin (70368744177663 / 70368744177664)), (''B'', Fin (140737488355327 / 140737488355328))]"
  by (simp add: stake_diffs_def dict_get_def float_of_int_def py_sub_def ex3_rd)

lemma ex3_ranking: "ranking [(''A'', Fin (70368744177663 / 70368744177664)), (''B'', Fin (140737488355327 / 140737488355328))] = [''B'', ''A'']"
  by (simp add: ranking_def)

lemma ex3_final_stakes: "final_stakes sm ex3_odds (100) = Inr [(''A'', 65), (''B'', 35)]"
  by (simp add: final_stakes_def ex3_inverse_odds ex3_ideal_stakes ex3_rounded_stakes adjust_stakes_def ex3_remainder ex3_stake_diffs ex3_ranking dict_incr_def)

lemma ex3_profits: "profits ex3_odds [(''A'', 65), (''B'', 35)] (100) = Inr [(''A'', ''Bookmaker1'', Fin (3152519739159347 / 1125899906842624), 65, Fin (82)), (''B'', ''Bookmaker2'', Fin (5854679515581645 / 1125899906842624), 35, Fin (82))]"
  by (simp add: profits_def ex3_odds_def dict_get_def float_of_int_def py_sub_def round_half_even_def Let_def floor_rat_numeral_div ex3_rd)

lemma ex3_calculate_stakes: "calculate_stakes sm ex3_odds (100) = Inr [(''A'', ''Bookmaker1'', Fin (3152519739159347 / 1125899906842624), 65, Fin (82)), (''B'', ''Bookmaker2'', Fin (5854679515581645 / 1125899906842624), 35, Fin (82))]"
  by (simp add: calculate_stakes_def ex3_final_stakes ex3_profits)

lemma rd_18_5: "round_double (18 / 5) = Fin (8106479329266893 / 2251799813685248)"
  using round_double_cert[of "18 / 5" "1" "8106479329266893"] by simp

lemma rd_33_10: "round_double (33 / 10) = Fin (3715469692580659 / 1125899906842624)"
  using round_double_cert[of "33 / 10" "1" "7430939385161318"] by simp

lemma rd_24_5: "round_double (24 / 5) = Fin (5404319552844595 / 1125899906842624)"
  using round_double_cert[of "24 / 5" "2" "5404319552844595"] by simp

lemma rd_2251799813685248_8106479329266893: "round_double (2251799813685248 / 8106479329266893) = Fin (2501999792983609 / 9007199254740992)"
  using round_double_cert[of "2251799813685248 / 8106479329266893" "-2" "5003999585967218"] by simp

lemma rd_1125899906842624_3715469692580659: "round_double (1125899906842624 / 3715469692580659) = Fin (5458908639236965 / 18014398509481984)"
  using round_double_cert[of "1125899906842624 / 3715469692580659" "-2" "5458908639236965"] by simp

lemma rd_1125899906842624_5404319552844595: "round_double (1125899906842624 / 5404319552844595) = Fin (7505999378950827 / 36028797018963968)"
  using round_double_cert[of "1125899906842624 / 5404319552844595" "-3" "7505999378950827"] by simp

lemma rd_2501999792983609_9007199254740992: "round_double (2501999792983609 / 9007199254740992) = Fin (2501999792983609 / 9007199254740992)"
  using round_double_cert[of "2501999792983609 / 9007199254740992" "-2" "5003999585967218"] by simp

lemma rd_10462908225204183_18014398509481984: "round_double (10462908225204183 / 18014398509481984) = Fin (1307863528150523 / 2251799813685248)"
  using round_double_tie_cert[of "10462908225204183 / 18014398509481984" "-1" "5231454112602091" "5231454112602092"] by simp

lemma rd_28431815829359195_36028797018963968: "round_double (28431815829359195 / 36028797018963968) = Fin (7107953957339799 / 9007199254740992)"
  using round_double_cert[of "28431815829359195 / 36028797018963968" "-1" "7107953957339799"] by simp

lemma rd_2501999792983609_7107953957339799: "round_double (2501999792983609 / 7107953957339799) = Fin (3170534137668829 / 9007199254740992)"
  using round_double_cert[of "2501999792983609 / 7107953957339799" "-2" "6341068275337658"] by simp

lemma rd_79263353441720725_2251799813685248: "round_double (79263353441720725 / 2251799813685248) = Fin (4953959590107545 / 140737488355328)"
  using round_double_cert[of "79263353441720725 / 2251799813685248" "5" "4953959590107545"] by simp

lemma rd_5458908639236965_14215907914679598: "round_double (5458908639236965 / 14215907914679598) = Fin (6917529027641081 / 18014398509481984)"
  using round_double_cert[of "5458908639236965 / 14215907914679598" "-2" "6917529027641081"] by simp

lemma rd_172938225691027025_4503599627370496: "round_double (172938225691027025 / 4503599627370496) = Fin (5404319552844595 / 140737488355328)"
  using round_double_cert[of "172938225691027025 / 4503599627370496" "5" "5404319552844595"] by simp

lemma rd_2501999792983609_9477271943119732: "round_double (2501999792983609 / 9477271943119732) = Fin (4755801206503243 / 18014398509481984)"
  using round_double_cert[of "2501999792983609 / 9477271943119732" "-2" "4755801206503243"] by simp

lemma rd_118895030162581075_4503599627370496: "round_double (118895030162581075 / 4503599627370496) = Fin (7430939385161317 / 281474976710656)"
  using round_double_cert[of "118895030162581075 / 4503599627370496" "4" "7430939385161317"] by simp

lemma rd_28147497671065_140737488355328: "round_double (28147497671065 / 140737488355328) = Fin (28147497671065 / 140737488355328)"
  using round_double_cert[of "28147497671065 / 140737488355328" "-3" "7205759403792640"] by simp

lemma rd_38: "round_double (38) = Fin (38)"
  using round_double_cert[of "38" "5" "5348024557502464"] by simp

lemma rd_56294995342131_140737488355328: "round_double (56294995342131 / 140737488355328) = Fin (56294995342131 / 140737488355328)"
  using round_double_cert[of "56294995342131 / 140737488355328" "-2" "7205759403792768"] by simp

lemma rd_26: "round_double (26) = Fin (26)"
  using round_double_cert[of "26" "4" "7318349394477056"] by simp

lemma rd_112589990684261_281474976710656: "round_double (112589990684261 / 281474976710656) = Fin (112589990684261 / 281474976710656)"
  using round_double_cert[of "112589990684261 / 281474976710656" "-2" "7205759403792704"] by simp

lemma rd_283726776524341255_2251799813685248: "round_double (283726776524341255 / 2251799813685248) = Fin (126)"
  using round_double_cert[of "283726776524341255 / 2251799813685248" "6" "8866461766385664"] by simp

lemma rd_39: "round_double (39) = Fin (39)"
  using round_double_cert[of "39" "5" "5488762045857792"] by simp

lemma rd_144903318010645701_1125899906842624: "round_double (144903318010645701 / 1125899906842624) = Fin (2264114343916339 / 17592186044416)"
  using round_double_cert[of "144903318010645701 / 1125899906842624" "7" "4528228687832678"] by simp

lemma rd_504895739474739_17592186044416: "round_double (504895739474739 / 17592186044416) = Fin (504895739474739 / 17592186044416)"
  using round_double_cert[of "504895739474739 / 17592186044416" "4" "8078331831595824"] by simp

lemma rd_287_10: "round_double (287 / 10) = Fin (8078331831595827 / 281474976710656)"
  using round_double_cert[of "287 / 10" "4" "8078331831595827"] by simp

lemma rd_70256154186979735_562949953421312: "round_double (70256154186979735 / 562949953421312) = Fin (8782019273372467 / 70368744177664)"
  using round_double_cert[of "70256154186979735 / 562949953421312" "6" "8782019273372467"] by simp

lemma rd_1745144855606067_70368744177664: "round_double (1745144855606067 / 70368744177664) = Fin (1745144855606067 / 70368744177664)"
  using round_double_cert[of "1745144855606067 / 70368744177664" "4" "6980579422424268"] by simp

lemma rd_124_5: "round_double (124 / 5) = Fin (6980579422424269 / 281474976710656)"
  using round_double_cert[of "124 / 5" "4" "6980579422424269"] by simp

lemma rd_5003999585967219_18014398509481984: "round_double (5003999585967219 / 18014398509481984) = Fin (5003999585967219 / 18014398509481984)"
  using round_double_cert[of "5003999585967219 / 18014398509481984" "-2" "5003999585967219"] by simp

lemma rd_5003999585967219_18014398509481984_neg: "round_double (- (5003999585967219 / 18014398509481984)) = Fin (- (5003999585967219 / 18014398509481984))"
  using round_double_neg[of "5003999585967219 / 18014398509481984"] rd_5003999585967219_18014398509481984 by simp

lemma rd_1876499844737707_9007199254740992: "round_double (1876499844737707 / 9007199254740992) = Fin (1876499844737707 / 9007199254740992)"
  using round_double_cert[of "1876499844737707 / 9007199254740992" "-3" "7505999378950828"] by simp

lemma rd_1876499844737707_9007199254740992_neg: "round_double (- (1876499844737707 / 9007199254740992)) = Fin (- (1876499844737707 / 9007199254740992))"
  using round_double_neg[of "1876499844737707 / 9007199254740992"] rd_1876499844737707_9007199254740992 by simp

lemma rd_1_36028797018963968: "round_double (1 / 36028797018963968) = Fin (1 / 36028797018963968)"
  using round_double_cert[of "1 / 36028797018963968" "-55" "4503599627370496"] by simp

lemma rd_1_36028797018963968_neg: "round_double (- (1 / 36028797018963968)) = Fin (- (1 / 36028797018963968))"
  using round_double_neg[of "1 / 36028797018963968"] rd_1_36028797018963968 by simp

lemma rd_3_36028797018963968: "round_double (3 / 36028797018963968) = Fin (3 / 36028797018963968)"
  using round_double_cert[of "3 / 36028797018963968" "-54" "6755399441055744"] by simp

lemma rd_3_36028797018963968_neg: "round_double (- (3 / 36028797018963968)) = Fin (- (3 / 36028797018963968))"
  using round_double_neg[of "3 / 36028797018963968"] rd_3_36028797018963968 by simp

lemma rd_28431815829359193_36028797018963968: "round_double (28431815829359193 / 36028797018963968) = Fin (3553976978669899 / 4503599627370496)"
  using round_double_cert[of "28431815829359193 / 36028797018963968" "-1" "7107953957339798"] by simp

lemma rd_2501999792983609_7107953957339798: "round_double (2501999792983609 / 7107953957339798) = Fin (6341068275337659 / 18014398509481984)"
  using round_double_cert[of "2501999792983609 / 7107953957339798" "-2" "6341068275337659"] by simp

lemma rd_158526706883441475_4503599627370496: "round_double (158526706883441475 / 4503599627370496) = Fin (2476979795053773 / 70368744177664)"
  using round_double_cert[of "158526706883441475 / 4503599627370496" "5" "4953959590107546"] by simp

lemma rd_5458908639236965_14215907914679596: "round_double (5458908639236965 / 14215907914679596) = Fin (3458764513820541 / 9007199254740992)"
  using round_double_cert[of "5458908639236965 / 14215907914679596" "-2" "6917529027641082"] by simp

lemma rd_86469112845513525_2251799813685248: "round_double (86469112845513525 / 2251799813685248) = Fin (5404319552844595 / 140737488355328)"
  using round_double_cert[of "86469112845513525 / 2251799813685248" "5" "5404319552844595"] by simp

lemma rd_7505999378950827_28431815829359192: "round_double (7505999378950827 / 28431815829359192) = Fin (1188950301625811 / 4503599627370496)"
  using round_double_cert[of "7505999378950827 / 28431815829359192" "-2" "4755801206503244"] by simp

lemma rd_29723757540645275_1125899906842624: "round_double (29723757540645275 / 1125899906842624) = Fin (7430939385161319 / 281474976710656)"
  using round_double_cert[of "29723757540645275 / 1125899906842624" "4" "7430939385161319"] by simp

lemma rd_14073748835533_70368744177664: "round_double (14073748835533 / 70368744177664) = Fin (14073748835533 / 70368744177664)"
  using round_double_cert[of "14073748835533 / 70368744177664" "-3" "7205759403792896"] by simp

lemma rd_112589990684263_281474976710656: "round_double (112589990684263 / 281474976710656) = Fin (112589990684263 / 281474976710656)"
  using round_double_cert[of "112589990684263 / 281474976710656" "-2" "7205759403792832"] by simp

lemma rd_70593924159032521_562949953421312: "round_double (70593924159032521 / 562949953421312) = Fin (8824240519879065 / 70368744177664)"
  using round_double_cert[of "70593924159032521 / 562949953421312" "6" "8824240519879065"] by simp

lemma rd_1787366102112665_70368744177664: "round_double (1787366102112665 / 70368744177664) = Fin (1787366102112665 / 70368744177664)"
  using round_double_cert[of "1787366102112665 / 70368744177664" "4" "7149464408450660"] by simp

lemma rd_127_5: "round_double (127 / 5) = Fin (3574732204225331 / 140737488355328)"
  using round_double_cert[of "127 / 5" "4" "7149464408450662"] by simp

lemma rd_27: "round_double (27) = Fin (27)"
  using round_double_cert[of "27" "4" "7599824371187712"] by simp

lemma rd_145916627926804065_1125899906842624: "round_double (145916627926804065 / 1125899906842624) = Fin (4559894622712627 / 35184372088832)"
  using round_double_cert[of "145916627926804065 / 1125899906842624" "7" "4559894622712627"] by simp

lemma rd_1041457413829427_35184372088832: "round_double (1041457413829427 / 35184372088832) = Fin (1041457413829427 / 35184372088832)"
  using round_double_cert[of "1041457413829427 / 35184372088832" "4" "8331659310635416"] by simp

lemma rd_148_5: "round_double (148 / 5) = Fin (4165829655317709 / 140737488355328)"
  using round_double_cert[of "148 / 5" "4" "8331659310635418"] by simp

lemmas ex4_rd = rd_100 rd_1041457413829427_35184372088832 rd_10462908225204183_18014398509481984 rd_112589990684261_281474976710656 rd_1125899906842624_3715469692580659 rd_1125899906842624_5404319552844595 rd_112589990684263_281474976710656 rd_118895030162581075_4503599627370496 rd_124_5 rd_127_5 rd_14073748835533_70368744177664 rd_144903318010645701_1125899906842624 rd_145916627926804065_1125899906842624 rd_148_5 rd_158526706883441475_4503599627370496 rd_172938225691027025_4503599627370496 rd_1745144855606067_70368744177664 rd_1787366102112665_70368744177664 rd_1876499844737707_9007199254740992 rd_1876499844737707_9007199254740992_neg rd_1_18014398509481984 rd_1_18014398509481984_neg rd_1_36028797018963968 rd_1_36028797018963968_neg rd_2251799813685248_8106479329266893 rd_2501999792983609_7107953957339798 rd_2501999792983609_7107953957339799 rd_2501999792983609_9007199254740992 rd_2501999792983609_9477271943119732 rd_26 rd_27 rd_28147497671065_140737488355328 rd_283726776524341255_2251799813685248 rd_28431815829359193_36028797018963968 rd_28431815829359195_36028797018963968 rd_287_10 rd_29723757540645275_1125899906842624 rd_35 rd_38 rd_39 rd_3_36028797018963968 rd_3_36028797018963968_neg rd_5003999585967219_18014398509481984 rd_5003999585967219_18014398509481984_neg rd_504895739474739_17592186044416 rd_5458908639236965_14215907914679596 rd_5458908639236965_14215907914679598 rd_56294995342131_140737488355328 rd_70256154186979735_562949953421312 rd_70593924159032521_562949953421312 rd_7505999378950827_28431815829359192 rd_79263353441720725_2251799813685248 rd_86469112845513525_2251799813685248

lemma ex4_inverse_odds: "inverse_odds ex4_odds = Inr [(''A'', Fin (2501999792983609 / 9007199254740992)), (''B'', Fin (5458908639236965 / 18014398509481984)), (''C'', Fin (7505999378950827 / 36028797018963968))]"
  by (simp add: ex4_odds_def inverse_odds_def ex4_rd)

lemma ex4_sequential_ideal_stakes: "ideal_stakes Left_to_right [(''A'', Fin (2501999792983609 / 9007199254740992)), (''B'', Fin (5458908639236965 / 18014398509481984)), (''C'', Fin (7505999378950827 / 36028797018963968))] (100) = Inr [(''A'', Fin (4953959590107545 / 140737488355328)), (''B'', Fin (5404319552844595 / 140737488355328)), (''C'', Fin (7430939385161317 / 281474976710656))]"
  by (simp add: ideal_stakes_def float_of_int_def py_sub_def Let_def ex4_rd)

lemma ex4_sequential_rounded_stakes: "rounded_stakes [(''A'', Fin (4953959590107545 / 140737488355328)), (''B'', Fin (5404319552844595 / 140737488355328)), (''C'', Fin (7430939385161317 / 281474976710656))] = Inr [(''A'', 35), (''B'', 38), (''C'', 26)]"
  by (simp add: rounded_stakes_def floor_rat_numeral_div)

lemma ex4_sequential_remainder: "remainder_of [(''A'', 35), (''B'', 38), (''C'', 26)] (100) = 1"
  by (simp add: remainder_of_def)

lemma ex4_sequential_stake_diffs: "stake_diffs [(''A'', Fin (4953959590107545 / 140737488355328)), (''B'', Fin (5404319552844595 / 140737488355328)), (''C'', Fin (7430939385161317 / 281474976710656))] [(''A'', 35), (''B'', 38), (''C'', 26)] = Inr [(''A'', Fin (28147497671065 / 140737488355328)), (''B'', Fin (56294995342131 / 140737488355328)), (''C'', Fin (112589990684261 / 281474976710656))]"
  by (simp add: stake_diffs_def dict_get_def float_of_int_def py_sub_def ex4_rd)

lemma ex4_sequential_ranking: "ranking [(''A'', Fin (28147497671065 / 140737488355328)), (''B'', Fin (56294995342131 / 140737488355328)), (''C'', Fin (112589990684261 / 281474976710656))] = [''B'', ''C'', ''A'']"
  by (simp add: ranking_def)

lemma ex4_sequential_final_stakes: "final_stakes Left_to_right ex4_odds (100) = Inr [(''A'', 35), (''B'', 39), (''C'', 26)]"
  by (simp add: final_stakes_def ex4_inverse_odds ex4_sequential_ideal_stakes ex4_sequential_rounded_stakes adjust_stakes_def ex4_sequential_remainder ex4_sequential_stake_diffs ex4_sequential_ranking dict_incr_def)

lemma ex4_sequential_profits: "profits ex4_odds [(''A'', 35), (''B'', 39), (''C'', 26)] (100) = Inr [(''A'', ''Bookmaker1'', Fin (8106479329266893 / 2251799813685248), 35, Fin (26)), (''B'', ''Bookmaker2'', Fin (3715469692580659 / 1125899906842624), 39, Fin (8078331831595827 / 281474976710656)), (''C'', ''Bookmaker3'', Fin (5404319552844595 / 1125899906842624), 26, Fin (6980579422424269 / 281474976710656))]"
  by (simp add: profits_def ex4_odds_def dict_get_def float_of_int_def py_sub_def round_half_even_def Let_def floor_rat_numeral_div ex4_rd)

lemma ex4_sequential_calculate_stakes: "calculate_stakes Left_to_right ex4_odds (100) = Inr [(''A'', ''Bookmaker1'', Fin (8106479329266893 / 2251799813685248), 35, Fin (26)), (''B'', ''Bookmaker2'', Fin (3715469692580659 / 1125899906842624), 39, Fin (8078331831595827 / 281474976710656)), (''C'', ''Bookmaker3'', Fin (5404319552844595 / 1125899906842624), 26, Fin (6980579422424269 / 281474976710656))]"
  by (simp add: calculate_stakes_def ex4_sequential_final_stakes ex4_sequential_profits)

lemma ex4_compensated_ideal_stakes: "ideal_stakes Compensated [(''A'', Fin (2501999792983609 / 9007199254740992)), (''B'', Fin (5458908639236965 / 18014398509481984)), (''C'', Fin (7505999378950827 / 36028797018963968))] (100) = Inr [(''A'', Fin (2476979795053773 / 70368744177664)), (''B'', Fin (5404319552844595 / 140737488355328)), (''C'', Fin (7430939385161319 / 281474976710656))]"
  by (simp add: ideal_stakes_def float_of_int_def py_sub_def Let_def ex4_rd)

lemma ex4_compensated_rounded_stakes: "rounded_stakes [(''A'', Fin (2476979795053773 / 70368744177664)), (''B'', Fin (5404319552844595 / 140737488355328)), (''C'', Fin (7430939385161319 / 281474976710656))] = Inr [(''A'', 35), (''B'', 38), (''C'', 26)]"
  by (simp add: rounded_stakes_def floor_rat_numeral_div)

lemma ex4_compensated_remainder: "remainder_of [(''A'', 35), (''B'', 38), (''C'', 26)] (100) = 1"
  by (simp add: remainder_of_def)

lemma ex4_compensated_stake_diffs: "stake_diffs [(''A'', Fin (2476979795053773 / 70368744177664)), (''B'', Fin (5404319552844595 / 140737488355328)), (''C'', Fin (7430939385161319 / 281474976710656))] [(''A'', 35), (''B'', 38), (''C'', 26)] = Inr [(''A'', Fin (14073748835533 / 70368744177664)), (''B'', Fin (56294995342131 / 140737488355328)), (''C'', Fin (112589990684263 / 281474976710656))]"
  by (simp add: stake_diffs_def dict_get_def float_of_int_def py_sub_def ex4_rd)

lemma ex4_compensated_ranking: "ranking [(''A'', Fin (14073748835533 / 70368744177664)), (''B'', Fin (56294995342131 / 140737488355328)), (''C'', Fin (112589990684263 / 281474976710656))] = [''C'', ''B'', ''A'']"
  by (simp add: ranking_def)

lemma ex4_compensated_final_stakes: "final_stakes Compensated ex4_odds (100) = Inr [(''A'', 35), (''B'', 38), (''C'', 27)]"
  by (simp add: final_stakes_def ex4_inverse_odds ex4_compensated_ideal_stakes ex4_compensated_rounded_stakes adjust_stakes_def ex4_compensated_remainder ex4_compensated_stake_diffs ex4_compensated_ranking dict_incr_def)

lemma ex4_compensated_profits: "profits ex4_odds [(''A'', 35), (''B'', 38), (''C'', 27)] (100) = Inr [(''A'', ''Bookmaker1'', Fin (8106479329266893 / 2251799813685248), 35, Fin (26)), (''B'', ''Bookmaker2'', Fin (3715469692580659 / 1125899906842624), 38, Fin (3574732204225331 / 140737488355328)), (''C'', ''Bookmaker3'', Fin (5404319552844595 / 1125899906842624), 27, Fin (4165829655317709 / 140737488355328))]"
  by (simp add: profits_def ex4_odds_def dict_get_def float_of_int_def py_sub_def round_half_even_def Let_def floor_rat_numeral_div ex4_rd)

lemma ex4_compensated_calculate_stakes: "calculate_stakes Compensated ex4_odds (100) = Inr [(''A'', ''Bookmaker1'', Fin (8106479329266893 / 2251799813685248), 35, Fin (26)), (''B'', ''Bookmaker2'', Fin (3715469692580659 / 1125899906842624), 38, Fin (3574732204225331 / 140737488355328)), (''C'', ''Bookmaker3'', Fin (5404319552844595 / 1125899906842624), 27, Fin (4165829655317709 / 140737488355328))]"
  by (simp add: calculate_stakes_def ex4_compensated_final_stakes ex4_compensated_profits)

lemma ex1_price_bounds:
  "\<forall>(outcome, bookie, price) \<in> set ex1_odds.
     \<exists>x. price = Fin x \<and> 2 powi (- 400) \<le> x \<and> x \<le> 2 powi 400"
proof -
  have p0: "\<exists>x. Fin (3 / 2) = Fin x \<and> 2 powi (- 400) \<le> x \<and> x \<le> 2 powi 400"
    by (rule exI[of _ "3 / 2"]) simp
  have p1: "\<exists>x. Fin (3) = Fin x \<and> 2 powi (- 400) \<le> x \<and> x \<le> 2 powi 400"
    by (rule exI[of _ "3"]) simp
  show ?thesis unfolding ex1_odds_def using p0 p1 by simp
qed

lemma ex4_price_bounds:
  "\<forall>(outcome, bookie, price) \<in> set ex4_odds.
     \<exists>x. price = Fin x \<and> 2 powi (- 400) \<le> x \<and> x \<le> 2 powi 400"
proof -
  have p0: "\<exists>x. Fin (8106479329266893 / 2251799813685248) = Fin x \<and> 2 powi (- 400) \<le> x \<and> x \<le> 2 powi 400"
    by (rule exI[of _ "8106479329266893 / 2251799813685248"]) simp
  have p1: "\<exists>x. Fin (3715469692580659 / 1125899906842624) = Fin x \<and> 2 powi (- 400) \<le> x \<and> x \<le> 2 powi 400"
    by (rule exI[of _ "3715469692580659 / 1125899906842624"]) simp
  have p2: "\<exists>x. Fin (5404319552844595 / 1125899906842624) = Fin x \<and> 2 powi (- 400) \<le> x \<and> x \<le> 2 powi 400"
    by (rule exI[of _ "5404319552844595 / 1125899906842624"]) simp
  show ?thesis unfolding ex4_odds_def using p0 p1 p2 by simp
qed

section \<open>The normalizer on the example matches\<close>

lemma rd_21_10: "round_double (21 / 10) = Fin (4728779608739021 / 2251799813685248)"
  using round_double_cert[of "21 / 10" "1" "4728779608739021"] by simp

lemma rd_41_20: "round_double (41 / 20) = Fin (2308094809027379 / 1125899906842624)"
  using round_double_cert[of "41 / 20" "1" "4616189618054758"] by simp

lemma rd_11_5: "round_double (11 / 5) = Fin (2476979795053773 / 1125899906842624)"
  using round_double_cert[of "11 / 5" "1" "4953959590107546"] by simp

lemma rd_2251799813685248_4728779608739021: "round_double (2251799813685248 / 4728779608739021) = Fin (4289142502257615 / 9007199254740992)"
  using round_double_cert[of "2251799813685248 / 4728779608739021" "-2" "8578285004515230"] by simp

lemma rd_1125899906842624_2476979795053773: "round_double (1125899906842624 / 2476979795053773) = Fin (8188362958855447 / 18014398509481984)"
  using round_double_cert[of "1125899906842624 / 2476979795053773" "-2" "8188362958855447"] by simp

lemma rd_4289142502257615_9007199254740992: "round_double (4289142502257615 / 9007199254740992) = Fin (4289142502257615 / 9007199254740992)"
  using round_double_cert[of "4289142502257615 / 9007199254740992" "-2" "8578285004515230"] by simp

lemma rd_16766647963370677_18014398509481984: "round_double (16766647963370677 / 18014398509481984) = Fin (4191661990842669 / 4503599627370496)"
  using round_double_tie_cert[of "16766647963370677 / 18014398509481984" "-1" "8383323981685338" "8383323981685338"] by simp

lemma rd_4094181479427723_9007199254740992: "round_double (4094181479427723 / 9007199254740992) = Fin (4094181479427723 / 9007199254740992)"
  using round_double_cert[of "4094181479427723 / 9007199254740992" "-2" "8188362958855446"] by simp

lemma rd_4094181479427723_9007199254740992_neg: "round_double (- (4094181479427723 / 9007199254740992)) = Fin (- (4094181479427723 / 9007199254740992))"
  using round_double_neg[of "4094181479427723 / 9007199254740992"] rd_4094181479427723_9007199254740992 by simp

lemma ex_collect_best: "collect_best [] ex_bookmakers = Inr [(''A'', ''Bookmaker1'', Fin (4728779608739021 / 2251799813685248)), (''B'', ''Bookmaker2'', Fin (2476979795053773 / 1125899906842624))]"
  by (simp add: ex_bookmakers_def first_market_outcomes_def offer_def dict_set_def py_gt_def)

lemma ex_total_implied: "total_implied sm [(''A'', ''Bookmaker1'', Fin (4728779608739021 / 2251799813685248)), (''B'', ''Bookmaker2'', Fin (2476979795053773 / 1125899906842624))] = Inr (Fin (4191661990842669 / 4503599627370496))"
  by (cases sm) (simp_all add: total_implied_def py_sub_def Let_def rd_1125899906842624_2476979795053773 rd_16766647963370677_18014398509481984 rd_1_18014398509481984 rd_2251799813685248_4728779608739021 rd_4094181479427723_9007199254740992 rd_4094181479427723_9007199254740992_neg rd_4289142502257615_9007199254740992)

lemma outbid_collect_best: "collect_best [] outbid_bookmakers = Inr [(''A'', ''Bookmaker2'', Fin (2)), (''B'', ''Bookmaker2'', Fin (2))]"
  by (simp add: outbid_bookmakers_def first_market_outcomes_def offer_def dict_set_def py_gt_def)

lemma outbid_total_implied: "total_implied sm [(''A'', ''Bookmaker2'', Fin (2)), (''B'', ''Bookmaker2'', Fin (2))] = Inr (Fin (1))"
  by (cases sm) (simp_all add: total_implied_def py_sub_def Let_def rd_1 rd_1_2 rd_1_2_neg)

lemma zero_collect_best: "collect_best [] zero_bookmakers = Inr [(''A'', ''Bookmaker1'', Fin (0)), (''B'', ''Bookmaker2'', Fin (2))]"
  by (simp add: zero_bookmakers_def first_market_outcomes_def offer_def dict_set_def py_gt_def)

lemma rd_1700003600: "round_double (1700003600) = Fin (1700003600)"
  using round_double_cert[of "1700003600" "30" "7130331899494400"] by simp

lemma rd_3600: "round_double (3600) = Fin (3600)"
  using round_double_cert[of "3600" "11" "7916483719987200"] by simp

lemma ex_hours_until: "hours_until 1700003600 (Fin 1700000000) = Inr (Fin (1))"
  by (simp add: hours_until_def float_of_int_def py_sub_def round_half_even_def rd_1 rd_1700003600 rd_3600)

lemma rd_3600_neg: "round_double (- 3600) = Fin (- 3600)"
  using round_double_neg[of "3600"] rd_3600 by simp

lemma started_hours_until: "hours_until 1700003600 (Fin 1700007200) = Inr (Fin (- 1))"
  by (simp add: hours_until_def float_of_int_def py_sub_def round_half_even_def rd_1 rd_1700003600 rd_1_neg rd_3600 rd_3600_neg)

lemma ex_process_match:
  "process_match sm True ex_clock 0 ex_match =
     Inr (Some \<lparr>match_name = ''Home v. Away'', match_start_time = 1700003600, hours_to_start = Fin (1),
             league = Some ''soccer_epl'',
             best_odds = [(''A'', ''Bookmaker1'', Fin (4728779608739021 / 2251799813685248)), (''B'', ''Bookmaker2'', Fin (2476979795053773 / 1125899906842624))],
             total_implied_odds = Fin (4191661990842669 / 4503599627370496)\<rparr>, 1)"
  by (simp add: process_match_def normalize_match_def ex_match_def ex_clock_def ex_collect_best
      ex_total_implied ex_hours_until show_opt_def)

section \<open>The claims\<close>

text \<open>
  C1. Claim: for every odds mapping with positive prices and every positive integer total
  stake the returned stakes sum to the total stake exactly. The source aims at the same:
  the comment of line 113 reads \<^verbatim>\<open>Adjust for rounding error so total equals total_stake\<close>.
  It misses it where the float arithmetic loses more units than step 4 hands back, since
  the loop of step 4 gives at most one unit to each outcome. For the even odds
  \<open>{A: 2.0, B: 2.0}\<close> and the total stake \<open>2\<^sup>5\<^sup>5 + 3\<close> the conversion of the stake to a float
  loses the 3, both shares are \<open>2\<^sup>5\<^sup>4\<close>, the remainder is 3 for two outcomes, and the stakes
  returned sum to \<open>2\<^sup>5\<^sup>5 + 2\<close>, with either way of summing. (For stakes and prices
  within the bounds of lemma \<open>calculate_stakes_conserves\<close> the sum is the total stake.)
\<close>

theorem stake_conservation_violated:
  "distinct (map fst ex2_odds) \<and>
   list_all (\<lambda>(outcome, bookie, price). py_lt (Fin 0) price) ex2_odds \<and>
   (0::int) < 36028797018963971 \<and>
   inverse_odds ex2_odds = Inr [(''A'', Fin (1 / 2)), (''B'', Fin (1 / 2))] \<and>
   ideal_stakes Left_to_right [(''A'', Fin (1 / 2)), (''B'', Fin (1 / 2))] 36028797018963971 = Inr [(''A'', Fin (18014398509481984)), (''B'', Fin (18014398509481984))] \<and>
   ideal_stakes Compensated [(''A'', Fin (1 / 2)), (''B'', Fin (1 / 2))] 36028797018963971 = Inr [(''A'', Fin (18014398509481984)), (''B'', Fin (18014398509481984))] \<and>
   rounded_stakes [(''A'', Fin (18014398509481984)), (''B'', Fin (18014398509481984))] = Inr [(''A'', 18014398509481984), (''B'', 18014398509481984)] \<and>
   remainder_of [(''A'', 18014398509481984), (''B'', 18014398509481984)] 36028797018963971 = 3 \<and>
   calculate_stakes Left_to_right ex2_odds 36028797018963971 = Inr [(''A'', ''Bookmaker1'', Fin (2), 18014398509481985, Fin (0)), (''B'', ''Bookmaker2'', Fin (2), 18014398509481985, Fin (0))] \<and>
   calculate_stakes Compensated ex2_odds 36028797018963971 = Inr [(''A'', ''Bookmaker1'', Fin (2), 18014398509481985, Fin (0)), (''B'', ''Bookmaker2'', Fin (2), 18014398509481985, Fin (0))] \<and>
   sum_list (stakes_of [(''A'', ''Bookmaker1'', Fin (2), 18014398509481985, Fin (0)), (''B'', ''Bookmaker2'', Fin (2), 18014398509481985, Fin (0))]) = 36028797018963970 \<and>
   sum_list (stakes_of [(''A'', ''Bookmaker1'', Fin (2), 18014398509481985, Fin (0)), (''B'', ''Bookmaker2'', Fin (2), 18014398509481985, Fin (0))]) \<noteq> 36028797018963971"
  by (simp add: ex2_inverse_odds ex2_ideal_stakes ex2_rounded_stakes ex2_remainder ex2_calculate_stakes stakes_of_def)
     (simp add: ex2_odds_def)

text \<open>
  C2. When the normalizer has processed the bookmakers of a match, the best-odds map holds,
  for every outcome name that some bookmaker quotes, the highest price quoted for that name,
  and with it the bookmaker that was first, in iteration order, to quote that price.
  Prices are numbers: no quote is a NaN, which Python's \<^verbatim>\<open>>\<close> cannot order.
\<close>

theorem best_price_selected:
  assumes "collect_best [] bs = Inr best"
    and "\<forall>(b, oc) \<in> set (quotes bs). o_price oc \<noteq> Some NaN"
    and "(b, oc) \<in> set (quotes bs)"
    and "o_name oc = Some name"
  shows "\<exists>entry. map_of best name = Some entry \<and> is_best_quote (quotes bs) name entry"
proof -
  have "best_inv [] []" by (simp add: best_inv_def)
  then have "best_inv best ([] @ quotes bs)"
    using _ assms(1) by (rule collect_best_inv) (use assms(2) in auto)
  then have "best_inv best (quotes bs)" by simp
  then have "case map_of best name of
                None \<Rightarrow> \<forall>(b, oc) \<in> set (quotes bs). o_name oc \<noteq> Some name
              | Some entry \<Rightarrow> is_best_quote (quotes bs) name entry"
    unfolding best_inv_def by (rule spec)
  then show ?thesis using assms(3,4) by (cases "map_of best name") auto
qed

theorem best_price_selected_witness:
  "collect_best [] ex_bookmakers = Inr [(''A'', ''Bookmaker1'', Fin (4728779608739021 / 2251799813685248)), (''B'', ''Bookmaker2'', Fin (2476979795053773 / 1125899906842624))] \<and>
   list_all (\<lambda>(b, oc). o_price oc \<noteq> Some NaN) (quotes ex_bookmakers) \<and>
   (hd ex_bookmakers, \<lparr>o_name = Some ''A'', o_price = Some (Fin (4728779608739021 / 2251799813685248))\<rparr>) \<in> set (quotes ex_bookmakers) \<and>
   (\<exists>entry. map_of [(''A'', ''Bookmaker1'', Fin (4728779608739021 / 2251799813685248)), (''B'', ''Bookmaker2'', Fin (2476979795053773 / 1125899906842624))] ''A'' = Some entry \<and> is_best_quote (quotes ex_bookmakers) ''A'' entry)"
proof -
  have n: "\<forall>(b, oc) \<in> set (quotes ex_bookmakers). o_price oc \<noteq> Some NaN"
    by (simp add: quotes_def ex_bookmakers_def first_market_outcomes_def)
  have m: "(hd ex_bookmakers, \<lparr>o_name = Some ''A'', o_price = Some (Fin (4728779608739021 / 2251799813685248))\<rparr>) \<in> set (quotes ex_bookmakers)"
    by (simp add: quotes_def ex_bookmakers_def first_market_outcomes_def)
  have a: "o_name \<lparr>o_name = Some ''A'', o_price = Some (Fin (4728779608739021 / 2251799813685248))\<rparr> = Some ''A''" by simp
  show ?thesis
    using best_price_selected[OF ex_collect_best n m a] ex_collect_best n m
    by (simp add: list_all_iff)
qed

text \<open>
  C3. For a cutoff strictly between 0 and 1, a match qualifies exactly when its total
  implied odds are a number strictly above 0 and strictly below \<^verbatim>\<open>1 - cutoff\<close>: a total
  of 0, a total equal to or above the bound, an infinity and a NaN all disqualify.
  \<^verbatim>\<open>1 - cutoff\<close> is the difference as line 144 computes it, on floats: a finite,
  non-negative float within \<open>2\<^sup>-\<^sup>5\<^sup>3\<close> of the exact difference.
\<close>

theorem qualifies_iff_strict_bounds:
  assumes "0 < c" "c < 1"
  shows "\<exists>bound. py_sub (Fin 1) (Fin c) = Fin bound \<and> 0 \<le> bound \<and>
           \<bar>bound - (1 - c)\<bar> \<le> 1 / 2 ^ 53 \<and>
           (\<forall>implied. qualifies implied (Fin c) \<longleftrightarrow>
                        (\<exists>x. implied = Fin x \<and> 0 < x \<and> x < bound))"
proof -
  have "0 < 1 - c" "1 - c < 1" using assms by simp_all
  then obtain r where r: "round_double (1 - c) = Fin r" "0 \<le> r" "\<bar>r - (1 - c)\<bar> \<le> 1 / 2 ^ 53"
    by (rule round_double_unit_interval)
  have s: "py_sub (Fin 1) (Fin c) = Fin r" using r(1) by (simp add: py_sub_def)
  have "qualifies implied (Fin c) \<longleftrightarrow> (\<exists>x. implied = Fin x \<and> 0 < x \<and> x < r)" for implied
    unfolding qualifies_def s using r(2) by (cases implied) auto
  then show ?thesis using s r(2,3) by blast
qed

theorem qualifies_iff_strict_bounds_witness:
  "(0::rat) < 1 / 100 \<and> (1 / 100 :: rat) < 1 \<and>
   (\<exists>bound. py_sub (Fin 1) (Fin (1 / 100)) = Fin bound \<and> 0 \<le> bound \<and>
           \<bar>bound - (1 - 1 / 100)\<bar> \<le> 1 / 2 ^ 53 \<and>
           (\<forall>implied. qualifies implied (Fin (1 / 100)) \<longleftrightarrow>
                        (\<exists>x. implied = Fin x \<and> 0 < x \<and> x < bound)))"
proof -
  have a: "(0::rat) < 1 / 100" and b: "(1 / 100 :: rat) < 1" by simp_all
  show ?thesis using qualifies_iff_strict_bounds[OF a b] by simp
qed

text \<open>
  C4. Claim: the remainder, total stake minus the sum of the floored ideal shares, is not
  negative and strictly below the number of outcomes, and the extra units go, one each, to
  the outcomes ranked by descending fractional part of the ideal share, ties in input
  order. The strict bound holds for shares computed exactly; on floats an ideal share that
  is a whole number can come out just below it. For the prices 2.8 and 5.2 and a total
  stake of 100 the exact shares are 65 and 35, the computed ones 64.99999999999999 and
  34.99999999999999, the floors 64 and 34, and the remainder is 2 for two outcomes, with
  either way of summing. (Each outcome then gets one unit and the stakes are 65 and 35.)
\<close>

theorem remainder_bound_counterexample:
  "ex3_odds = [(''A'', ''Bookmaker1'', round_double (14 / 5)), (''B'', ''Bookmaker2'', round_double (26 / 5))] \<and>
   inverse_odds ex3_odds = Inr [(''A'', Fin (6433713753386423 / 18014398509481984)), (''B'', Fin (866076851417403 / 4503599627370496))] \<and>
   ideal_stakes Left_to_right [(''A'', Fin (6433713753386423 / 18014398509481984)), (''B'', Fin (866076851417403 / 4503599627370496))] 100 = Inr [(''A'', Fin (4573968371548159 / 70368744177664)), (''B'', Fin (4925812092436479 / 140737488355328))] \<and>
   ideal_stakes Compensated [(''A'', Fin (6433713753386423 / 18014398509481984)), (''B'', Fin (866076851417403 / 4503599627370496))] 100 = Inr [(''A'', Fin (4573968371548159 / 70368744177664)), (''B'', Fin (4925812092436479 / 140737488355328))] \<and>
   rounded_stakes [(''A'', Fin (4573968371548159 / 70368744177664)), (''B'', Fin (4925812092436479 / 140737488355328))] = Inr [(''A'', 64), (''B'', 34)] \<and>
   remainder_of [(''A'', 64), (''B'', 34)] 100 = 2 \<and>
   int (length ex3_odds) = 2 \<and>
   \<not> remainder_of [(''A'', 64), (''B'', 34)] 100 < int (length ex3_odds) \<and>
   final_stakes Left_to_right ex3_odds 100 = Inr [(''A'', 65), (''B'', 35)] \<and>
   final_stakes Compensated ex3_odds 100 = Inr [(''A'', 65), (''B'', 35)]"
  by (simp add: ex3_inverse_odds ex3_ideal_stakes ex3_rounded_stakes ex3_remainder ex3_final_stakes)
     (simp add: ex3_odds_def rd_14_5 rd_26_5)

text \<open>
  C4 as amended: for an odds mapping with distinct outcome names, at least one outcome and
  prices between \<open>2\<^sup>-\<^sup>4\<^sup>0\<^sup>0\<close> and \<open>2\<^sup>4\<^sup>0\<^sup>0\<close>, and a positive total stake such that (number of
  outcomes + 1) times the total stake is at most \<open>2\<^sup>4\<^sup>7\<close>, the steps 1 to 4 return, with
  either way of summing. The rounded stakes are the floors of the ideal shares, and the
  remainder is not negative and at most the number of outcomes. The stake differences of
  step 4 are exactly the fractional parts of the ideal shares, the ranking is the one by
  descending fractional part with ties in input order, and each of its first \<open>remainder\<close>
  outcomes gets one extra unit, the others none. The bound leaves room for a thousand
  outcomes and a stake of \<open>2\<^sup>3\<^sup>7\<close>; within it the rounding errors of steps 1 and 2 add up to
  less than one unit.
\<close>

theorem remainder_distribution:
  assumes "distinct (map fst odds_dict)" and "odds_dict \<noteq> []"
    and "\<forall>(outcome, bookie, price) \<in> set odds_dict.
           \<exists>x. price = Fin x \<and> 2 powi (- 400) \<le> x \<and> x \<le> 2 powi 400"
    and "0 < total_stake"
    and "(int (length odds_dict) + 1) * total_stake \<le> 2 ^ 47"
  shows "\<exists>ws ideal rounded final.
           inverse_odds odds_dict = Inr ws \<and>
           ideal_stakes sm ws total_stake = Inr ideal \<and>
           rounded_stakes ideal = Inr rounded \<and>
           final_stakes sm odds_dict total_stake = Inr final \<and>
           rounded = map (\<lambda>(outcome, share). (outcome, \<lfloor>fin_val share\<rfloor>)) ideal \<and>
           0 \<le> remainder_of rounded total_stake \<and>
           remainder_of rounded total_stake \<le> int (length odds_dict) \<and>
           stake_diffs ideal rounded
             = Inr (map (\<lambda>(outcome, share). (outcome, Fin (frac (fin_val share)))) ideal) \<and>
           ranking (map (\<lambda>(outcome, share). (outcome, Fin (frac (fin_val share)))) ideal)
             = ranked_by_fraction ideal \<and>
           final = map (\<lambda>(outcome, stake).
                          (outcome,
                           if outcome \<in> set (take (nat (remainder_of rounded total_stake))
                                                 (ranked_by_fraction ideal))
                           then stake + 1 else stake)) rounded"
proof -
  obtain ws ideal rounded where steps:
    "inverse_odds odds_dict = Inr ws" "ideal_stakes sm ws total_stake = Inr ideal"
    "rounded_stakes ideal = Inr rounded"
    and r: "0 \<le> remainder_of rounded total_stake"
      "remainder_of rounded total_stake \<le> int (length odds_dict)"
    using assms(3,2,4,5) by (rule allocation_bounds)
  have pos: "\<forall>(outcome, bookie, odd) \<in> set odds_dict. py_lt (Fin 0) odd"
  proof -
    have "py_lt (Fin 0) p" if mem: "(k, b, p) \<in> set odds_dict" for k b p
    proof -
      have "\<exists>x. p = Fin x \<and> 2 powi (- 400) \<le> x \<and> x \<le> 2 powi 400"
        using assms(3) mem by fastforce
      then obtain x where x: "p = Fin x" "2 powi (- 400) \<le> x" by blast
      have "0 < x" using x(2) powi2_pos[of "- 400"] by linarith
      then show ?thesis using x(1) by simp
    qed
    then show ?thesis by auto
  qed
  have len: "length odds_dict \<le> 2 ^ 50"
  proof -
    have "int (length odds_dict) * 1 \<le> (int (length odds_dict) + 1) * total_stake"
      using assms(4) by (intro mult_mono) simp_all
    then have "int (length odds_dict) \<le> 2 ^ 47" using assms(5) by simp
    then have "int (length odds_dict) \<le> int (2 ^ 50)" by simp
    then show ?thesis by (simp only: of_nat_le_iff)
  qed
  have fl: "rounded = map (\<lambda>(outcome, share). (outcome, \<lfloor>fin_val share\<rfloor>)) ideal"
    using pos assms(4) steps len by (rule rounded_is_floor)
  have ds: "stake_diffs ideal rounded
           = Inr (map (\<lambda>(outcome, share). (outcome, Fin (frac (fin_val share)))) ideal)"
    using assms(1) pos assms(4) steps len by (rule stake_diffs_frac)
  have rk: "ranking (map (\<lambda>(outcome, share). (outcome, Fin (frac (fin_val share)))) ideal)
           = ranked_by_fraction ideal" by (rule ranking_of_fractions)
  have keys: "map fst ideal = map fst odds_dict"
    using inverse_odds_keys[OF steps(1)] ideal_stakes_keys[OF steps(2)] by simp
  have dr: "distinct (ranked_by_fraction ideal)"
    using ranked_by_fraction_perm[of ideal] keys assms(1)
    by (metis distinct_count_atmost_1 count_mset_0_iff mset_eq_setD)
  define final where "final = map (\<lambda>(outcome, stake).
                          (outcome,
                           if outcome \<in> set (take (nat (remainder_of rounded total_stake))
                                                 (ranked_by_fraction ideal))
                           then stake + 1 else stake)) rounded"
  have adj: "adjust_stakes ideal rounded total_stake = Inr final"
  proof (cases "0 < remainder_of rounded total_stake")
    case True
    then have "adjust_stakes ideal rounded total_stake
        = Inr (award rounded (remainder_of rounded total_stake) (ranked_by_fraction ideal))"
      unfolding adjust_stakes_def Let_def by (simp add: ds rk)
    then show ?thesis unfolding final_def using award_eq_map[OF dr] by simp
  next
    case False
    then have z: "nat (remainder_of rounded total_stake) = 0" by simp
    have "map (\<lambda>(outcome, stake). (outcome, stake)) rounded = rounded"
      by (induction rounded) auto
    then have "final = rounded" unfolding final_def z by simp
    then show ?thesis using False unfolding adjust_stakes_def Let_def by simp
  qed
  have fin: "final_stakes sm odds_dict total_stake = Inr final"
    unfolding final_stakes_def using steps adj by simp
  show ?thesis using steps fin fl r ds rk final_def by blast
qed

theorem remainder_distribution_witness:
  "distinct (map fst ex4_odds) \<and> ex4_odds \<noteq> [] \<and>
   list_all (\<lambda>(outcome, bookie, price). \<exists>x. price = Fin x \<and> 2 powi (- 400) \<le> x \<and> x \<le> 2 powi 400) ex4_odds \<and>
   (0::int) < 100 \<and> (int (length ex4_odds) + 1) * 100 \<le> 2 ^ 47 \<and>
   (\<exists>ws ideal rounded final.
           inverse_odds ex4_odds = Inr ws \<and>
           ideal_stakes Compensated ws 100 = Inr ideal \<and>
           rounded_stakes ideal = Inr rounded \<and>
           final_stakes Compensated ex4_odds 100 = Inr final \<and>
           rounded = map (\<lambda>(outcome, share). (outcome, \<lfloor>fin_val share\<rfloor>)) ideal \<and>
           0 \<le> remainder_of rounded 100 \<and>
           remainder_of rounded 100 \<le> int (length ex4_odds) \<and>
           stake_diffs ideal rounded
             = Inr (map (\<lambda>(outcome, share). (outcome, Fin (frac (fin_val share)))) ideal) \<and>
           ranking (map (\<lambda>(outcome, share). (outcome, Fin (frac (fin_val share)))) ideal)
             = ranked_by_fraction ideal \<and>
           final = map (\<lambda>(outcome, stake).
                          (outcome,
                           if outcome \<in> set (take (nat (remainder_of rounded 100))
                                                 (ranked_by_fraction ideal))
                           then stake + 1 else stake)) rounded) \<and>
   inverse_odds ex4_odds = Inr [(''A'', Fin (2501999792983609 / 9007199254740992)), (''B'', Fin (5458908639236965 / 18014398509481984)), (''C'', Fin (7505999378950827 / 36028797018963968))] \<and>
   ideal_stakes Compensated [(''A'', Fin (2501999792983609 / 9007199254740992)), (''B'', Fin (5458908639236965 / 18014398509481984)), (''C'', Fin (7505999378950827 / 36028797018963968))] 100 = Inr [(''A'', Fin (2476979795053773 / 70368744177664)), (''B'', Fin (5404319552844595 / 140737488355328)), (''C'', Fin (7430939385161319 / 281474976710656))] \<and>
   rounded_stakes [(''A'', Fin (2476979795053773 / 70368744177664)), (''B'', Fin (5404319552844595 / 140737488355328)), (''C'', Fin (7430939385161319 / 281474976710656))] = Inr [(''A'', 35), (''B'', 38), (''C'', 26)] \<and>
   remainder_of [(''A'', 35), (''B'', 38), (''C'', 26)] 100 = 1 \<and>
   ranked_by_fraction [(''A'', Fin (2476979795053773 / 70368744177664)), (''B'', Fin (5404319552844595 / 140737488355328)), (''C'', Fin (7430939385161319 / 281474976710656))] = [''C'', ''B'', ''A''] \<and>
   final_stakes Compensated ex4_odds 100 = Inr [(''A'', 35), (''B'', 38), (''C'', 27)] \<and>
   ideal_stakes Left_to_right [(''A'', Fin (2501999792983609 / 9007199254740992)), (''B'', Fin (5458908639236965 / 18014398509481984)), (''C'', Fin (7505999378950827 / 36028797018963968))] 100 = Inr [(''A'', Fin (4953959590107545 / 140737488355328)), (''B'', Fin (5404319552844595 / 140737488355328)), (''C'', Fin (7430939385161317 / 281474976710656))] \<and>
   ranked_by_fraction [(''A'', Fin (4953959590107545 / 140737488355328)), (''B'', Fin (5404319552844595 / 140737488355328)), (''C'', Fin (7430939385161317 / 281474976710656))] = [''B'', ''C'', ''A''] \<and>
   final_stakes Left_to_right ex4_odds 100 = Inr [(''A'', 35), (''B'', 39), (''C'', 26)]"
proof -
  have d: "distinct (map fst ex4_odds)" and n: "ex4_odds \<noteq> []" by (simp_all add: ex4_odds_def)
  note p = ex4_price_bounds
  have s: "(0::int) < 100" and b: "(int (length ex4_odds) + 1) * 100 \<le> 2 ^ 47"
    by (simp_all add: ex4_odds_def)
  note t = remainder_distribution[OF d n p s b, of Compensated]
  have rc: "ranked_by_fraction [(''A'', Fin (2476979795053773 / 70368744177664)), (''B'', Fin (5404319552844595 / 140737488355328)), (''C'', Fin (7430939385161319 / 281474976710656))] = [''C'', ''B'', ''A'']"
    by (simp add: ranked_by_fraction_def frac_def floor_rat_numeral_div)
  have rs: "ranked_by_fraction [(''A'', Fin (4953959590107545 / 140737488355328)), (''B'', Fin (5404319552844595 / 140737488355328)), (''C'', Fin (7430939385161317 / 281474976710656))] = [''B'', ''C'', ''A'']"
    by (simp add: ranked_by_fraction_def frac_def floor_rat_numeral_div)
  have p': "list_all (\<lambda>(outcome, bookie, price). \<exists>x. price = Fin x \<and> 2 powi (- 400) \<le> x \<and> x \<le> 2 powi 400) ex4_odds"
    using p by (simp add: list_all_iff)
  show ?thesis
    using t rc rs d n p' s b ex4_inverse_odds ex4_compensated_ideal_stakes
      ex4_compensated_rounded_stakes ex4_compensated_remainder ex4_compensated_final_stakes
      ex4_sequential_ideal_stakes ex4_sequential_final_stakes
    by (intro conjI)
qed

text \<open>
  C5. Claim: a bookmaker whose market list is present but empty, or whose first market has
  no outcomes, contributes nothing to the best-odds map and the normalizer does not raise.
  The second half holds (lemma \<open>no_outcomes_contributes_nothing\<close>). The first does not:
  line 72 takes element 0 of the market list, and the default \<^verbatim>\<open>[{}]\<close> of \<^verbatim>\<open>get\<close> only
  replaces a missing list, not an empty one. On a match with one bookmaker whose
  \<^verbatim>\<open>markets\<close> is \<^verbatim>\<open>[]\<close> the loop body raises \<^verbatim>\<open>IndexError\<close>, and the generator ends with
  it, having yielded nothing.
\<close>

theorem empty_market_list_raises:
  "process_match sm True clock tick
     \<lparr>commence_time = Some 1700000000, home_team = Some ''Home'', away_team = Some ''Away'',
      sport_key = Some ''soccer_epl'',
      bookmakers = Some [\<lparr>b_title = Some ''Bookie'', b_markets = Some []\<rparr>]\<rparr>
   = Inl IndexError \<and>
   process_data sm clock tick
     [\<lparr>commence_time = Some 1700000000, home_team = Some ''Home'', away_team = Some ''Away'',
       sport_key = Some ''soccer_epl'',
       bookmakers = Some [\<lparr>b_title = Some ''Bookie'', b_markets = Some []\<rparr>]\<rparr>] True
   = ([], Some IndexError)"
  by (simp add: process_match_def normalize_match_def first_market_outcomes_def)

text \<open>
  C6. Claim: a raw match that lacks the home team, the away team or the commence time makes
  normalization fail, and no default is put in place of a missing field. This holds for
  the commence time only. The source reads the team names with \<^verbatim>\<open>match.get\<close>, which
  returns \<^verbatim>\<open>None\<close> for a missing key, and the f-string of line 83 prints it: the example
  match without its home team is normalized under the name \<open>None v. Away\<close>, with either way
  of summing.
\<close>

theorem missing_home_team_counterexample:
  "process_match Left_to_right True ex_clock 0 (ex_match\<lparr>home_team := None\<rparr>) =
     Inr (Some \<lparr>match_name = ''None v. Away'', match_start_time = 1700003600, hours_to_start = Fin (1),
             league = Some ''soccer_epl'',
             best_odds = [(''A'', ''Bookmaker1'', Fin (4728779608739021 / 2251799813685248)), (''B'', ''Bookmaker2'', Fin (2476979795053773 / 1125899906842624))],
             total_implied_odds = Fin (4191661990842669 / 4503599627370496)\<rparr>, 1) \<and>
   process_match Compensated True ex_clock 0 (ex_match\<lparr>home_team := None\<rparr>) =
     Inr (Some \<lparr>match_name = ''None v. Away'', match_start_time = 1700003600, hours_to_start = Fin (1),
             league = Some ''soccer_epl'',
             best_odds = [(''A'', ''Bookmaker1'', Fin (4728779608739021 / 2251799813685248)), (''B'', ''Bookmaker2'', Fin (2476979795053773 / 1125899906842624))],
             total_implied_odds = Fin (4191661990842669 / 4503599627370496)\<rparr>, 1)"
  by (simp add: process_match_def normalize_match_def ex_match_def ex_clock_def ex_collect_best
      ex_total_implied ex_hours_until show_opt_def)

text \<open>
  C6 as amended: a raw match without a commence time makes \<^verbatim>\<open>process_data\<close> raise
  \<^verbatim>\<open>KeyError\<close>; a match without a home team or an away team is processed exactly as
  with it, except that \<open>None\<close> stands for the missing name in the match name.
\<close>

theorem missing_field_behaviour:
  "(commence_time m = None \<longrightarrow> process_match sm inc clock tick m = Inl KeyError) \<and>
   process_match sm inc clock tick (m\<lparr>home_team := None\<rparr>) =
     map_sum id (map_prod (map_option (\<lambda>r. r\<lparr>match_name := ''None v. '' @ show_opt (away_team m)\<rparr>)) id)
       (process_match sm inc clock tick m) \<and>
   process_match sm inc clock tick (m\<lparr>away_team := None\<rparr>) =
     map_sum id (map_prod (map_option (\<lambda>r. r\<lparr>match_name := show_opt (home_team m) @ '' v. None''\<rparr>)) id)
       (process_match sm inc clock tick m)"
  by (auto simp: process_match_def normalize_match_def show_opt_def
           split: option.splits sum.splits)

theorem missing_field_behaviour_witness:
  "commence_time (ex_match\<lparr>commence_time := None\<rparr>) = None \<and>
   process_match Compensated True ex_clock 0 (ex_match\<lparr>commence_time := None\<rparr>) = Inl KeyError \<and>
   process_data Compensated ex_clock 0 [ex_match\<lparr>commence_time := None\<rparr>] True = ([], Some KeyError)"
  using missing_field_behaviour[of "ex_match\<lparr>commence_time := None\<rparr>" Compensated True ex_clock 0]
  by simp

text \<open>
  C7. Claim: every input that contains an outcome priced at zero ends in a division by
  zero, in the normalizer's total implied odds or in the allocator's weights, and the
  price is never skipped. For the normalizer's input this fails: a zero price takes part
  in the best-price selection like any other, and a higher quote for the same outcome
  replaces it. In the match below Bookmaker1 quotes A at 0.0 and Bookmaker2 quotes A and B
  at 2.0; the match is normalized and nothing is raised, with either way of summing.
\<close>

theorem outbid_zero_price_counterexample:
  "process_match Left_to_right True ex_clock 0 (ex_match\<lparr>bookmakers := Some outbid_bookmakers\<rparr>) =
     Inr (Some \<lparr>match_name = ''Home v. Away'', match_start_time = 1700003600, hours_to_start = Fin (1),
             league = Some ''soccer_epl'',
             best_odds = [(''A'', ''Bookmaker2'', Fin (2)), (''B'', ''Bookmaker2'', Fin (2))],
             total_implied_odds = Fin (1)\<rparr>, 1) \<and>
   process_match Compensated True ex_clock 0 (ex_match\<lparr>bookmakers := Some outbid_bookmakers\<rparr>) =
     Inr (Some \<lparr>match_name = ''Home v. Away'', match_start_time = 1700003600, hours_to_start = Fin (1),
             league = Some ''soccer_epl'',
             best_odds = [(''A'', ''Bookmaker2'', Fin (2)), (''B'', ''Bookmaker2'', Fin (2))],
             total_implied_odds = Fin (1)\<rparr>, 1)"
  by (simp add: process_match_def normalize_match_def ex_match_def ex_clock_def
      outbid_collect_best outbid_total_implied ex_hours_until show_opt_def)

text \<open>
  C7 as amended: whenever a price of zero is in the mapping whose inverse odds are taken,
  \<^verbatim>\<open>ZeroDivisionError\<close> is raised: by \<^verbatim>\<open>calculate_stakes\<close> for its odds mapping, by the
  normalizer for the best-odds map of a match that has at least two outcomes. Nothing is
  clamped.
\<close>

theorem zero_price_raises:
  assumes "(outcome, bookie, Fin 0) \<in> set odds"
  shows "calculate_stakes sm odds total_stake = Inl ZeroDivisionError \<and>
         total_implied sm odds = Inl ZeroDivisionError \<and>
         (collect_best [] (case bookmakers m of None \<Rightarrow> [] | Some bs \<Rightarrow> bs) = Inr odds \<and>
          2 \<le> length odds \<longrightarrow>
          normalize_match sm clock tick start_time m = Inl ZeroDivisionError)"
  using inverse_odds_zero[OF assms] total_implied_zero[OF assms]
  by (simp add: calculate_stakes_def final_stakes_def normalize_match_def)

theorem zero_price_raises_witness:
  "(''A'', ''Bookmaker1'', Fin 0) \<in> set [(''A'', ''Bookmaker1'', Fin (0)), (''B'', ''Bookmaker2'', Fin (2))] \<and>
   collect_best [] (case bookmakers (ex_match\<lparr>bookmakers := Some zero_bookmakers\<rparr>) of
                      None \<Rightarrow> [] | Some bs \<Rightarrow> bs) = Inr [(''A'', ''Bookmaker1'', Fin (0)), (''B'', ''Bookmaker2'', Fin (2))] \<and>
   (2::nat) \<le> length [(''A'', ''Bookmaker1'', Fin (0)), (''B'', ''Bookmaker2'', Fin (2))] \<and>
   calculate_stakes Compensated [(''A'', ''Bookmaker1'', Fin (0)), (''B'', ''Bookmaker2'', Fin (2))] 1000 = Inl ZeroDivisionError \<and>
   total_implied Compensated [(''A'', ''Bookmaker1'', Fin (0)), (''B'', ''Bookmaker2'', Fin (2))] = Inl ZeroDivisionError \<and>
   normalize_match Compensated ex_clock 0 1700003600 (ex_match\<lparr>bookmakers := Some zero_bookmakers\<rparr>)
     = Inl ZeroDivisionError"
proof -
  have m: "(''A'', ''Bookmaker1'', Fin 0) \<in> set [(''A'', ''Bookmaker1'', Fin (0)), (''B'', ''Bookmaker2'', Fin (2))]" by simp
  have c: "collect_best [] (case bookmakers (ex_match\<lparr>bookmakers := Some zero_bookmakers\<rparr>) of
                      None \<Rightarrow> [] | Some bs \<Rightarrow> bs) = Inr [(''A'', ''Bookmaker1'', Fin (0)), (''B'', ''Bookmaker2'', Fin (2))]"
    by (simp add: zero_collect_best)
  show ?thesis
    using zero_price_raises[OF m, of Compensated 1000 "ex_match\<lparr>bookmakers := Some zero_bookmakers\<rparr>"
        ex_clock 0 1700003600] m c
    by simp
qed

text \<open>
  C8. For the odds \<open>{A: 1.5, B: 3.0}\<close> and a total stake of 100, \<^verbatim>\<open>calculate_stakes\<close>
  truncates the ideal shares to 66 and 33, finds the remainder 1, gives it to A, whose
  share has the larger fractional part, and returns the stakes 67 and 33, which sum to 100.
  The floats are the ones the source computes: the weights are the floats nearest to 2/3
  and 1/3, their sum rounds to 1 with either way of summing, and the ideal shares are the
  floats nearest to 100 times the weights.
\<close>

theorem worked_example_fractional_shares:
  "inverse_odds ex1_odds = Inr [(''A'', Fin (6004799503160661 / 9007199254740992)), (''B'', Fin (6004799503160661 / 18014398509481984))] \<and>
   ideal_stakes sm [(''A'', Fin (6004799503160661 / 9007199254740992)), (''B'', Fin (6004799503160661 / 18014398509481984))] 100 = Inr [(''A'', Fin (2345624805922133 / 35184372088832)), (''B'', Fin (2345624805922133 / 70368744177664))] \<and>
   rounded_stakes [(''A'', Fin (2345624805922133 / 35184372088832)), (''B'', Fin (2345624805922133 / 70368744177664))] = Inr [(''A'', 66), (''B'', 33)] \<and>
   remainder_of [(''A'', 66), (''B'', 33)] 100 = 1 \<and>
   stake_diffs [(''A'', Fin (2345624805922133 / 35184372088832)), (''B'', Fin (2345624805922133 / 70368744177664))] [(''A'', 66), (''B'', 33)] = Inr [(''A'', Fin (23456248059221 / 35184372088832)), (''B'', Fin (23456248059221 / 70368744177664))] \<and>
   ranking [(''A'', Fin (23456248059221 / 35184372088832)), (''B'', Fin (23456248059221 / 70368744177664))] = [''A'', ''B''] \<and>
   final_stakes sm ex1_odds 100 = Inr [(''A'', 67), (''B'', 33)] \<and>
   calculate_stakes sm ex1_odds 100 = Inr [(''A'', ''Bookmaker1'', Fin (3 / 2), 67, Fin (1 / 2)), (''B'', ''Bookmaker2'', Fin (3), 33, Fin (- 1))] \<and>
   stakes_of [(''A'', ''Bookmaker1'', Fin (3 / 2), 67, Fin (1 / 2)), (''B'', ''Bookmaker2'', Fin (3), 33, Fin (- 1))] = [67, 33] \<and>
   sum_list (stakes_of [(''A'', ''Bookmaker1'', Fin (3 / 2), 67, Fin (1 / 2)), (''B'', ''Bookmaker2'', Fin (3), 33, Fin (- 1))]) = 100"
  by (simp add: ex1_inverse_odds ex1_ideal_stakes ex1_rounded_stakes ex1_remainder
      ex1_stake_diffs ex1_ranking ex1_final_stakes ex1_calculate_stakes stakes_of_def)

text \<open>
  C9. Let the commence time of a raw match lie before the reading of the clock. With
  \<^verbatim>\<open>include_started_matches\<close> false the generator skips the match, whatever its
  bookmakers quote: nothing is yielded or raised for it and the loop goes on to the next
  match. With the flag true the match is subject to the other rules only: when it has at
  least two quoted outcomes and the total implied odds and the hours to the start are
  computed, its record is the next one the generator yields, whatever the total implied
  odds are, and the loop goes on to the next match.
\<close>

theorem started_match_filter:
  assumes "commence_time m = Some start_time"
    and "py_lt (Fin (of_int start_time)) (clock tick)"
  shows "process_match sm False clock tick m = Inr (None, Suc tick) \<and>
         process_data sm clock tick (m # matches) False
           = process_data sm clock (Suc tick) matches False \<and>
         (collect_best [] (case bookmakers m of None \<Rightarrow> [] | Some bs \<Rightarrow> bs) = Inr best \<and>
          2 \<le> length best \<and>
          total_implied sm best = Inr implied \<and>
          hours_until start_time (clock tick) = Inr h \<longrightarrow>
          process_data sm clock tick (m # matches) True =
            (\<lparr>match_name = show_opt (home_team m) @ '' v. '' @ show_opt (away_team m),
              match_start_time = start_time,
              hours_to_start = h,
              league = sport_key m,
              best_odds = best,
              total_implied_odds = implied\<rparr>
               # fst (process_data sm clock (Suc tick) matches True),
             snd (process_data sm clock (Suc tick) matches True)))"
  using assms
  by (auto simp: process_match_def normalize_match_def split: prod.splits)

theorem started_match_filter_witness:
  "commence_time ex_match = Some 1700003600 \<and>
   py_lt (Fin (of_int 1700003600)) (Fin 1700007200) \<and>
   collect_best [] (case bookmakers ex_match of None \<Rightarrow> [] | Some bs \<Rightarrow> bs) = Inr [(''A'', ''Bookmaker1'', Fin (4728779608739021 / 2251799813685248)), (''B'', ''Bookmaker2'', Fin (2476979795053773 / 1125899906842624))] \<and>
   (2::nat) \<le> length [(''A'', ''Bookmaker1'', Fin (4728779608739021 / 2251799813685248)), (''B'', ''Bookmaker2'', Fin (2476979795053773 / 1125899906842624))] \<and>
   total_implied Compensated [(''A'', ''Bookmaker1'', Fin (4728779608739021 / 2251799813685248)), (''B'', ''Bookmaker2'', Fin (2476979795053773 / 1125899906842624))] = Inr (Fin (4191661990842669 / 4503599627370496)) \<and>
   hours_until 1700003600 (Fin 1700007200) = Inr (Fin (- 1)) \<and>
   process_match Compensated False (\<lambda>k. Fin 1700007200) 0 ex_match = Inr (None, Suc 0) \<and>
   process_data Compensated (\<lambda>k. Fin 1700007200) 0 [ex_match] False = ([], None) \<and>
   process_data Compensated (\<lambda>k. Fin 1700007200) 0 [ex_match] True =
     ([\<lparr>match_name = ''Home v. Away'', match_start_time = 1700003600, hours_to_start = Fin (- 1),
             league = Some ''soccer_epl'',
             best_odds = [(''A'', ''Bookmaker1'', Fin (4728779608739021 / 2251799813685248)), (''B'', ''Bookmaker2'', Fin (2476979795053773 / 1125899906842624))],
             total_implied_odds = Fin (4191661990842669 / 4503599627370496)\<rparr>], None)"
proof -
  have c: "commence_time ex_match = Some 1700003600" by (simp add: ex_match_def)
  have l: "py_lt (Fin (of_int 1700003600)) ((\<lambda>k. Fin 1700007200) (0::nat))" by simp
  have b: "collect_best [] (case bookmakers ex_match of None \<Rightarrow> [] | Some bs \<Rightarrow> bs) = Inr [(''A'', ''Bookmaker1'', Fin (4728779608739021 / 2251799813685248)), (''B'', ''Bookmaker2'', Fin (2476979795053773 / 1125899906842624))]"
    by (simp add: ex_match_def ex_collect_best)
  have n: "(2::nat) \<le> length [(''A'', ''Bookmaker1'', Fin (4728779608739021 / 2251799813685248)), (''B'', ''Bookmaker2'', Fin (2476979795053773 / 1125899906842624))]" by simp
  note t = started_match_filter[OF c l, where matches = "[]" and sm = Compensated
      and best = "[(''A'', ''Bookmaker1'', Fin (4728779608739021 / 2251799813685248)), (''B'', ''Bookmaker2'', Fin (2476979795053773 / 1125899906842624))]" and implied = "Fin (4191661990842669 / 4503599627370496)" and h = "Fin (- 1)"]
  show ?thesis
    using t c b n ex_total_implied[of Compensated] started_hours_until
    by (simp add: ex_match_def show_opt_def)
qed

text \<open>
  C10. For an odds mapping with positive prices and a positive total stake, every stake
  that \<^verbatim>\<open>calculate_stakes\<close> returns is the floor of the outcome's ideal share or that
  floor plus one, with either way of summing: step 4 never takes a unit away and gives no
  outcome more than one unit. The ideal share is the float of step 2; it is finite and not
  negative. The mapping has at most \<open>2\<^sup>5\<^sup>0\<close> outcomes, more than a Python dict can hold: the
  compensated sum of that many inverse odds is not negative.
\<close>

theorem stake_floor_or_next:
  assumes "distinct (map fst odds_dict)"
    and "\<forall>(outcome, bookie, odd) \<in> set odds_dict. py_lt (Fin 0) odd"
    and "length odds_dict \<le> 2 ^ 50"
    and "0 < total_stake"
    and "inverse_odds odds_dict = Inr ws"
    and "ideal_stakes sm ws total_stake = Inr ideal"
    and "calculate_stakes sm odds_dict total_stake = Inr result"
    and "(outcome, bookie, price, stake, profit) \<in> set result"
  shows "\<exists>share. map_of ideal outcome = Some (Fin share) \<and> 0 \<le> share \<and>
                 (stake = \<lfloor>share\<rfloor> \<or> stake = \<lfloor>share\<rfloor> + 1)"
proof -
  obtain fin where fin: "final_stakes sm odds_dict total_stake = Inr fin"
    and res: "profits odds_dict fin total_stake = Inr result"
    using assms(7) by (rule calculate_stakes_cases)
  obtain rs where rs: "rounded_stakes ideal = Inr rs"
    and adj: "adjust_stakes ideal rs total_stake = Inr fin"
    using fin assms(5,6) unfolding final_stakes_def by (auto split: sum.splits)
  have k: "map fst rs = map fst odds_dict"
    using inverse_odds_keys[OF assms(5)] ideal_stakes_keys[OF assms(6)]
      rounded_stakes_keys[OF rs] by simp
  then have d: "distinct (map fst rs)" using assms(1) by simp
  have "list_all2 (\<lambda>(k, (b, p)) (k', (b', p', stake, pr)).
                k' = k \<and> b' = b \<and> p' = p \<and> map_of fin k = Some stake) odds_dict result"
    using res by (rule profits_rows)
  then have "\<forall>row \<in> set result. map_of fin (fst row) = Some (fst (snd (snd (snd row))))"
    by (induction rule: list_all2_induct) auto
  then have st: "map_of fin outcome = Some stake" using assms(8) by force
  have "outcome \<in> set (map fst rs)"
    using st adjust_stakes_keys[OF adj] by (metis map_of_eq_None_iff option.distinct(1) set_map)
  then obtain n where n: "map_of rs outcome = Some n"
    by (metis map_of_eq_None_iff not_Some_eq set_map)
  have "list_all2 (\<lambda>(k, x) (k', n). k' = k \<and> py_int x = Inr n) ideal rs"
    using rs by (rule rounded_stakes_rel)
  from map_of_rel[OF this n] obtain x where x: "map_of ideal outcome = Some x" "py_int x = Inr n"
    by auto
  obtain share where share: "x = Fin share" using x(2) by (cases x) auto
  have "(outcome, Fin share) \<in> set ideal" using x(1) share by (simp add: map_of_SomeD)
  then have pos: "0 \<le> share" using assms(2,4,5,6,3) ideal_share_nonneg by blast
  then have "n = \<lfloor>share\<rfloor>" using x(2) share by simp
  moreover have "stake = n \<or> stake = n + 1"
    using adjust_stakes_lookup[OF d adj n] st by auto
  ultimately show ?thesis using x(1) share pos by auto
qed

theorem stake_floor_or_next_witness:
  "distinct (map fst ex4_odds) \<and>
   list_all (\<lambda>(outcome, bookie, odd). py_lt (Fin 0) odd) ex4_odds \<and>
   length ex4_odds \<le> 2 ^ 50 \<and>
   (0::int) < 100 \<and>
   inverse_odds ex4_odds = Inr [(''A'', Fin (2501999792983609 / 9007199254740992)), (''B'', Fin (5458908639236965 / 18014398509481984)), (''C'', Fin (7505999378950827 / 36028797018963968))] \<and>
   ideal_stakes Compensated [(''A'', Fin (2501999792983609 / 9007199254740992)), (''B'', Fin (5458908639236965 / 18014398509481984)), (''C'', Fin (7505999378950827 / 36028797018963968))] 100 = Inr [(''A'', Fin (2476979795053773 / 70368744177664)), (''B'', Fin (5404319552844595 / 140737488355328)), (''C'', Fin (7430939385161319 / 281474976710656))] \<and>
   calculate_stakes Compensated ex4_odds 100 = Inr [(''A'', ''Bookmaker1'', Fin (8106479329266893 / 2251799813685248), 35, Fin (26)), (''B'', ''Bookmaker2'', Fin (3715469692580659 / 1125899906842624), 38, Fin (3574732204225331 / 140737488355328)), (''C'', ''Bookmaker3'', Fin (5404319552844595 / 1125899906842624), 27, Fin (4165829655317709 / 140737488355328))] \<and>
   (''C'', ''Bookmaker3'', Fin (5404319552844595 / 1125899906842624), 27, Fin (4165829655317709 / 140737488355328)) \<in> set [(''A'', ''Bookmaker1'', Fin (8106479329266893 / 2251799813685248), 35, Fin (26)), (''B'', ''Bookmaker2'', Fin (3715469692580659 / 1125899906842624), 38, Fin (3574732204225331 / 140737488355328)), (''C'', ''Bookmaker3'', Fin (5404319552844595 / 1125899906842624), 27, Fin (4165829655317709 / 140737488355328))] \<and>
   (\<exists>share. map_of [(''A'', Fin (2476979795053773 / 70368744177664)), (''B'', Fin (5404319552844595 / 140737488355328)), (''C'', Fin (7430939385161319 / 281474976710656))] ''C'' = Some (Fin share) \<and> 0 \<le> share \<and>
      (27 = \<lfloor>share\<rfloor> \<or> 27 = \<lfloor>share\<rfloor> + 1)) \<and>
   map_of [(''A'', Fin (2476979795053773 / 70368744177664)), (''B'', Fin (5404319552844595 / 140737488355328)), (''C'', Fin (7430939385161319 / 281474976710656))] ''C'' = Some (Fin (7430939385161319 / 281474976710656)) \<and>
   \<lfloor>(7430939385161319 / 281474976710656) :: rat\<rfloor> = 26"
proof -
  have d: "distinct (map fst ex4_odds)" by (simp add: ex4_odds_def)
  have p: "\<forall>(outcome, bookie, odd) \<in> set ex4_odds. py_lt (Fin 0) odd" by (simp add: ex4_odds_def)
  have l: "length ex4_odds \<le> 2 ^ 50" by (simp add: ex4_odds_def)
  have s: "(0::int) < 100" by simp
  have m: "(''C'', ''Bookmaker3'', Fin (5404319552844595 / 1125899906842624), 27, Fin (4165829655317709 / 140737488355328)) \<in> set [(''A'', ''Bookmaker1'', Fin (8106479329266893 / 2251799813685248), 35, Fin (26)), (''B'', ''Bookmaker2'', Fin (3715469692580659 / 1125899906842624), 38, Fin (3574732204225331 / 140737488355328)), (''C'', ''Bookmaker3'', Fin (5404319552844595 / 1125899906842624), 27, Fin (4165829655317709 / 140737488355328))]" by simp
  have f: "\<lfloor>(7430939385161319 / 281474976710656) :: rat\<rfloor> = 26" by (simp add: floor_rat_numeral_div)
  show ?thesis
    using stake_floor_or_next[OF d p l s ex4_inverse_odds ex4_compensated_ideal_stakes
        ex4_compensated_calculate_stakes m]
      d p l m f ex4_inverse_odds ex4_compensated_ideal_stakes ex4_compensated_calculate_stakes
    by (simp add: list_all_iff)
qed

end
